theory Spec2Isabelle
  imports Main "HOL-Library.Word" "HOL-Library.Monad_Syntax"
begin

unbundle bit_operations_syntax

section \<open>Memory and the arena\<close>

text \<open>
  The allocator of \<^verbatim>\<open>mm.c\<close> works on raw memory through the macros \<^verbatim>\<open>GET\<close> and
  \<^verbatim>\<open>PUT\<close>.  Memory is a flat 64-bit address space of bytes; a machine word
  (\<^verbatim>\<open>size_t\<close>, \<^verbatim>\<open>void *\<close>) is eight bytes, least significant byte first.
  Pointer arithmetic (\<^verbatim>\<open>PADD\<close>, \<^verbatim>\<open>PSUB\<close>) and \<^verbatim>\<open>size_t\<close> arithmetic wrap
  around at \<open>2 ^ 64\<close>.
\<close>

type_synonym addr = "64 word"
type_synonym byte = "8 word"

definition load64 :: "(addr \<Rightarrow> byte) \<Rightarrow> addr \<Rightarrow> 64 word" where
  "load64 m p =
     ucast (m p) OR push_bit 8 (ucast (m (p + 1))) OR push_bit 16 (ucast (m (p + 2)))
     OR push_bit 24 (ucast (m (p + 3))) OR push_bit 32 (ucast (m (p + 4)))
     OR push_bit 40 (ucast (m (p + 5))) OR push_bit 48 (ucast (m (p + 6)))
     OR push_bit 56 (ucast (m (p + 7)))"

definition store64 :: "(addr \<Rightarrow> byte) \<Rightarrow> addr \<Rightarrow> 64 word \<Rightarrow> addr \<Rightarrow> byte" where
  "store64 m p v = (\<lambda>a. if a - p < 8 then ucast (drop_bit (8 * unat (a - p)) v) else m a)"

text \<open>
  The state of the program: the memory, the three variables of the memory system
  (\<^verbatim>\<open>memlib\<close>: start of the arena, its break, its limit) and the allocator's
  global \<^verbatim>\<open>heap_start\<close>.
\<close>

record state =
  mem :: "addr \<Rightarrow> byte"
  mem_start_brk :: addr
  mem_brk :: addr
  mem_max_addr :: addr
  heap_start :: addr

text \<open>
  The allocator owns the bytes of the arena only.  An access outside
  \<open>[mem_start_brk, mem_brk)\<close> is undefined behaviour in C; the model makes it a
  failed computation: every operation returns an \<open>option\<close>, where \<open>None\<close> means that
  the call does not return normally (it touches memory outside the arena, or the scan of
  the free list does not terminate).
\<close>

definition valid :: "state \<Rightarrow> addr \<Rightarrow> nat \<Rightarrow> bool" where
  "valid s p n = (unat (mem_start_brk s) \<le> unat p \<and> unat p + n \<le> unat (mem_brk s))"

text \<open>Modelled from the spec: the backing memory primitive \<^verbatim>\<open>mem_sbrk\<close> of
  \<^verbatim>\<open>memlib.h\<close>, which is not among the sources.  \<open>growArena(deltaBytes)\<close> returns a
  pointer to \<open>deltaBytes\<close> newly available bytes immediately following the previous
  extent, their content undefined (here: whatever the memory holds), or fails when the
  host cannot supply more address space.\<close>

definition mem_sbrk :: "64 word \<Rightarrow> state \<Rightarrow> addr option \<times> state" where
  "mem_sbrk incr s =
     (if unat (mem_brk s) + unat incr \<le> unat (mem_max_addr s)
      then (Some (mem_brk s), s\<lparr>mem_brk := mem_brk s + incr\<rparr>)
      else (None, s))"

section \<open>Constants and macros\<close>

abbreviation WSIZE :: "64 word" where "WSIZE \<equiv> 8"
abbreviation DSIZE :: "64 word" where "DSIZE \<equiv> 16"
abbreviation CHUNKSIZE :: "64 word" where "CHUNKSIZE \<equiv> 4096"
abbreviation OVERHEAD :: "64 word" where "OVERHEAD \<equiv> 16"
abbreviation NULL :: addr where "NULL \<equiv> 0"

definition PACK :: "64 word \<Rightarrow> 64 word \<Rightarrow> 64 word" where
  "PACK sz alloc = sz OR alloc"

definition GET :: "state \<Rightarrow> addr \<Rightarrow> 64 word option" where
  "GET s p = (if valid s p 8 then Some (load64 (mem s) p) else None)"

definition PUT :: "addr \<Rightarrow> 64 word \<Rightarrow> state \<Rightarrow> state option" where
  "PUT p val s = (if valid s p 8 then Some (s\<lparr>mem := store64 (mem s) p val\<rparr>) else None)"

definition PADD :: "addr \<Rightarrow> 64 word \<Rightarrow> addr" where
  "PADD p val = p + val"

definition PSUB :: "addr \<Rightarrow> 64 word \<Rightarrow> addr" where
  "PSUB p val = p - val"

definition GET_SIZE :: "state \<Rightarrow> addr \<Rightarrow> 64 word option" where
  "GET_SIZE s p = do { w \<leftarrow> GET s p; Some (w AND NOT 0xf) }"

definition GET_ALLOC :: "state \<Rightarrow> addr \<Rightarrow> 64 word option" where
  "GET_ALLOC s p = do { w \<leftarrow> GET s p; Some (w AND 0x1) }"

definition HDRP :: "addr \<Rightarrow> addr" where
  "HDRP bp = PSUB bp WSIZE"

definition FTRP :: "state \<Rightarrow> addr \<Rightarrow> addr option" where
  "FTRP s bp = do { sz \<leftarrow> GET_SIZE s (HDRP bp); Some (PADD bp (sz - DSIZE)) }"

definition NEXT_BLKP :: "state \<Rightarrow> addr \<Rightarrow> addr option" where
  "NEXT_BLKP s bp = do { sz \<leftarrow> GET_SIZE s (HDRP bp); Some (PADD bp sz) }"

definition PREV_BLKP :: "state \<Rightarrow> addr \<Rightarrow> addr option" where
  "PREV_BLKP s bp = do { sz \<leftarrow> GET_SIZE s (PSUB bp DSIZE); Some (PSUB bp sz) }"

definition GET_PTR :: "state \<Rightarrow> addr \<Rightarrow> addr option" where
  "GET_PTR s p = GET s p"

definition PUT_PTR :: "addr \<Rightarrow> addr \<Rightarrow> state \<Rightarrow> state option" where
  "PUT_PTR p val s = PUT p val s"

definition LL_START :: "state \<Rightarrow> addr" where
  "LL_START s = PSUB (heap_start s) 16"

section \<open>The explicit free list\<close>

definition remove_node :: "addr \<Rightarrow> state \<Rightarrow> state option" where
  "remove_node bp s = do {
     head \<leftarrow> GET_PTR s (LL_START s);
     if head = NULL then Some s
     else if bp = NULL then Some s
     else do {
       pblkp \<leftarrow> GET_PTR s bp;
       nblkp \<leftarrow> GET_PTR s (PADD bp 8);
       if pblkp = NULL \<and> nblkp = NULL then PUT_PTR (LL_START s) NULL s
       else if nblkp = NULL then PUT_PTR (PADD pblkp 8) NULL s
       else if pblkp = NULL then do {
         s1 \<leftarrow> PUT_PTR (LL_START s) nblkp s;
         PUT_PTR nblkp NULL s1 }
       else do {
         s1 \<leftarrow> PUT_PTR nblkp pblkp s;
         PUT_PTR (PADD pblkp 8) nblkp s1 }
     }
   }"

definition insert_node :: "addr \<Rightarrow> state \<Rightarrow> state option" where
  "insert_node bp s = do {
     head \<leftarrow> GET_PTR s (LL_START s);
     s1 \<leftarrow> (if head \<noteq> NULL then PUT_PTR head bp s else Some s);
     s2 \<leftarrow> PUT_PTR bp NULL s1;
     s3 \<leftarrow> PUT_PTR (PADD bp 8) head s2;
     PUT_PTR (LL_START s3) bp s3
   }"

section \<open>Coalescing, placement, search and growth\<close>

definition coalesce :: "addr \<Rightarrow> state \<Rightarrow> (addr \<times> state) option" where
  "coalesce bp s =
    (if bp = NULL then Some (NULL, s)
     else do {
       let headp = HDRP bp;
       footp \<leftarrow> FTRP s bp;
       prev \<leftarrow> PREV_BLKP s bp;
       let prev_headp = HDRP prev;
       next \<leftarrow> NEXT_BLKP s bp;
       next_footp \<leftarrow> FTRP s next;
       alloc_bit_prev \<leftarrow> GET_ALLOC s prev_headp;
       alloc_bit_next \<leftarrow> GET_ALLOC s (HDRP next);
       if alloc_bit_next = 0 \<and> alloc_bit_prev = 0 then do {
         s1 \<leftarrow> remove_node next s;
         s2 \<leftarrow> remove_node bp s1;
         a \<leftarrow> GET_SIZE s2 prev_headp;
         b \<leftarrow> GET_SIZE s2 headp;
         c \<leftarrow> GET_SIZE s2 next_footp;
         s3 \<leftarrow> PUT prev_headp (PACK (a + b + c) 0) s2;
         d \<leftarrow> GET_SIZE s3 prev_headp;
         s4 \<leftarrow> PUT next_footp (PACK d 0) s3;
         r \<leftarrow> PREV_BLKP s4 bp;
         Some (r, s4) }
       else if alloc_bit_prev = 0 then do {
         s1 \<leftarrow> remove_node bp s;
         a \<leftarrow> GET_SIZE s1 prev_headp;
         b \<leftarrow> GET_SIZE s1 headp;
         s2 \<leftarrow> PUT prev_headp (PACK (a + b) 0) s1;
         d \<leftarrow> GET_SIZE s2 prev_headp;
         s3 \<leftarrow> PUT footp (PACK d 0) s2;
         r \<leftarrow> PREV_BLKP s3 bp;
         Some (r, s3) }
       else if alloc_bit_next = 0 then do {
         s1 \<leftarrow> remove_node next s;
         b \<leftarrow> GET_SIZE s1 headp;
         c \<leftarrow> GET_SIZE s1 next_footp;
         s2 \<leftarrow> PUT headp (PACK (b + c) 0) s1;
         d \<leftarrow> GET_SIZE s2 headp;
         s3 \<leftarrow> PUT next_footp (PACK d 0) s2;
         Some (bp, s3) }
       else Some (bp, s)
     })"

definition place :: "addr \<Rightarrow> 64 word \<Rightarrow> state \<Rightarrow> state option" where
  "place bp asize s = do {
     hsz \<leftarrow> GET_SIZE s (HDRP bp);
     let remaining = hsz - asize;
     if remaining < 2 * OVERHEAD then do {
       s1 \<leftarrow> PUT (HDRP bp) (PACK hsz 1) s;
       fp \<leftarrow> FTRP s1 bp;
       fsz \<leftarrow> GET_SIZE s1 fp;
       s2 \<leftarrow> PUT fp (PACK fsz 1) s1;
       remove_node bp s2 }
     else do {
       s1 \<leftarrow> PUT (HDRP bp) (PACK asize 1) s;
       s2 \<leftarrow> PUT (PADD bp (asize - OVERHEAD)) (PACK asize 1) s1;
       s3 \<leftarrow> remove_node bp s2;
       s4 \<leftarrow> PUT (PADD bp (asize - WSIZE)) (PACK remaining 0) s3;
       s5 \<leftarrow> PUT (PADD bp (asize + remaining - OVERHEAD)) (PACK remaining 0) s4;
       s6 \<leftarrow> insert_node (PADD bp asize) s5;
       (r, s7) \<leftarrow> coalesce (PADD bp asize) s6;
       Some s7 }
   }"

text \<open>The scan of \<^verbatim>\<open>find_fit\<close> follows the next-links until it meets \<^verbatim>\<open>NULL\<close>; on
  a cyclic list with no fitting block it does not terminate, which is the value \<open>None\<close>.\<close>

partial_function (option) find_fit_loop :: "state \<Rightarrow> 64 word \<Rightarrow> addr \<Rightarrow> addr option" where
  "find_fit_loop s asize cur_bp =
     (if cur_bp \<noteq> NULL then do {
        sz \<leftarrow> GET_SIZE s (HDRP cur_bp);
        if sz \<ge> asize then Some cur_bp
        else do {
          nxt \<leftarrow> GET_PTR s (PADD cur_bp 8);
          find_fit_loop s asize nxt }
      }
      else Some NULL)"

definition find_fit :: "64 word \<Rightarrow> state \<Rightarrow> addr option" where
  "find_fit asize s = do {
     cur_bp \<leftarrow> GET_PTR s (LL_START s);
     find_fit_loop s asize cur_bp
   }"

text \<open>\<^verbatim>\<open>extend_heap\<close> tests the result of \<^verbatim>\<open>mem_sbrk\<close> with \<^verbatim>\<open>(long)bp < 0\<close>.\<close>

definition extend_heap :: "64 word \<Rightarrow> state \<Rightarrow> (addr \<times> state) option" where
  "extend_heap words s =
    (let sz0 = words * WSIZE;
         sz = (if words mod 2 = 1 then sz0 + WSIZE else sz0)
     in case mem_sbrk sz s of
          (None, s1) \<Rightarrow> Some (NULL, s1)
        | (Some bp, s1) \<Rightarrow>
            if sint bp < 0 then Some (NULL, s1)
            else do {
              s2 \<leftarrow> PUT (HDRP bp) (PACK sz 0) s1;
              fp \<leftarrow> FTRP s2 bp;
              s3 \<leftarrow> PUT fp (PACK sz 0) s2;
              nb \<leftarrow> NEXT_BLKP s3 bp;
              s4 \<leftarrow> PUT (HDRP nb) (PACK 0 1) s3;
              s5 \<leftarrow> insert_node bp s4;
              coalesce bp s5 })"

section \<open>The public operations\<close>

text \<open>\<^verbatim>\<open>mm_init\<close> tests the result of \<^verbatim>\<open>mem_sbrk\<close> against \<^verbatim>\<open>NULL\<close>.  When the
  request fails, the value the C code leaves in \<^verbatim>\<open>heap_start\<close> is the failure value of
  the memory system, which the spec does not fix; the model leaves the variable as it
  was.\<close>

definition mm_init :: "state \<Rightarrow> (int \<times> state) option" where
  "mm_init s =
    (case mem_sbrk (4 * WSIZE) s of
       (None, s1) \<Rightarrow> Some (- 1, s1)
     | (Some p, s0) \<Rightarrow>
         let s1 = s0\<lparr>heap_start := p\<rparr> in
         if p = NULL then Some (- 1, s1)
         else do {
           s2 \<leftarrow> PUT_PTR (heap_start s1) NULL s1;
           s3 \<leftarrow> PUT (PADD (heap_start s2) WSIZE) (PACK OVERHEAD 1) s2;
           s4 \<leftarrow> PUT (PADD (heap_start s3) DSIZE) (PACK OVERHEAD 1) s3;
           s5 \<leftarrow> PUT (PADD (heap_start s4) (WSIZE + DSIZE)) (PACK 0 1) s4;
           let s6 = s5\<lparr>heap_start := PADD (heap_start s5) DSIZE\<rparr>;
           (bp, s7) \<leftarrow> extend_heap (CHUNKSIZE div WSIZE) s6;
           if bp = NULL then Some (- 1, s7) else Some (0, s7) })"

text \<open>The adjusted block size of \<^verbatim>\<open>mm_malloc\<close> (lines 220 to 226), in \<^verbatim>\<open>size_t\<close>
  arithmetic.\<close>

definition adjust_size :: "64 word \<Rightarrow> 64 word" where
  "adjust_size sz =
     (if sz \<le> DSIZE then DSIZE + OVERHEAD
      else DSIZE * ((sz + OVERHEAD + (DSIZE - 1)) div DSIZE))"

definition mm_malloc :: "64 word \<Rightarrow> state \<Rightarrow> (addr \<times> state) option" where
  "mm_malloc sz s =
    (if sz \<le> 0 then Some (NULL, s)
     else
       let asize = adjust_size sz in do {
         bp \<leftarrow> find_fit asize s;
         if bp \<noteq> NULL then do {
           s1 \<leftarrow> place bp asize s;
           Some (bp, s1) }
         else
           let extendsize = max asize CHUNKSIZE in do {
             (bp, s1) \<leftarrow> extend_heap (extendsize div WSIZE) s;
             if bp = NULL then Some (NULL, s1)
             else do {
               s2 \<leftarrow> place bp asize s1;
               Some (bp, s2) }
           }
       })"

definition mm_free :: "addr \<Rightarrow> state \<Rightarrow> state option" where
  "mm_free bp s = do {
     let headp = HDRP bp;
     footp \<leftarrow> FTRP s bp;
     hsz \<leftarrow> GET_SIZE s headp;
     s1 \<leftarrow> PUT headp (PACK hsz 0) s;
     fsz \<leftarrow> GET_SIZE s1 footp;
     s2 \<leftarrow> PUT footp (PACK fsz 0) s1;
     s3 \<leftarrow> insert_node bp s2;
     (r, s4) \<leftarrow> coalesce bp s3;
     Some s4
   }"

text \<open>The copy loop of \<^verbatim>\<open>mm_realloc\<close>: one byte is read and one is written per
  iteration, for \<open>i\<close> from \<open>0\<close> below \<open>old\<close>.\<close>

function copy_loop :: "addr \<Rightarrow> addr \<Rightarrow> 64 word \<Rightarrow> 64 word \<Rightarrow> state \<Rightarrow> state option" where
  "copy_loop ptr old_ptr old i s =
     (if i < old then
        (if valid s (old_ptr + i) 1 \<and> valid s (ptr + i) 1
         then copy_loop ptr old_ptr old (i + 1)
                (s\<lparr>mem := (mem s)(ptr + i := mem s (old_ptr + i))\<rparr>)
         else None)
      else Some s)"
  by pat_completeness auto
termination
proof (relation "measure (\<lambda>(ptr, old_ptr, old, i, s). unat old - unat i)")
  show "wf (measure (\<lambda>(ptr, old_ptr, old, i, s). unat old - unat i))"
    by simp
next
  fix ptr old_ptr old i :: "64 word" and s :: state
  assume "i < old"
  then have lt: "unat i < unat old"
    by (simp add: word_less_nat_alt)
  have "unat old < 2 ^ 64"
    using unsigned_less [of old, where 'a = nat] by simp
  with lt have "unat (i + 1) = unat i + 1"
    by (simp add: unat_word_ariths)
  with lt show "((ptr, old_ptr, old, i + 1, s\<lparr>mem := (mem s)(ptr + i := mem s (old_ptr + i))\<rparr>),
      (ptr, old_ptr, old, i, s)) \<in> measure (\<lambda>(ptr, old_ptr, old, i, s). unat old - unat i)"
    by simp
qed

definition mm_realloc :: "addr \<Rightarrow> 64 word \<Rightarrow> state \<Rightarrow> (addr \<times> state) option" where
  "mm_realloc bp sz s =
    (if bp = NULL then mm_malloc sz s
     else if sz = 0 then do {
       s1 \<leftarrow> mm_free bp s;
       Some (NULL, s1) }
     else do {
       old0 \<leftarrow> GET_SIZE s (HDRP bp);
       let old = (if sz \<le> old0 then sz else old0);
       (ptr, s1) \<leftarrow> mm_malloc sz s;
       s2 \<leftarrow> copy_loop ptr bp old 0 s1;
       s3 \<leftarrow> mm_free bp s2;
       Some (ptr, s3) })"

section \<open>The heap checker and the heap printer\<close>

text \<open>\<^verbatim>\<open>check_block\<close> and \<^verbatim>\<open>check_heap\<close> return their verdict; the messages they print
  are left out.  The argument \<open>line\<close> only tags the messages.\<close>

definition check_block :: "int \<Rightarrow> addr \<Rightarrow> state \<Rightarrow> bool option" where
  "check_block line bp s =
     (if bp mod DSIZE \<noteq> 0 then Some False
      else do {
        h \<leftarrow> GET s (HDRP bp);
        fp \<leftarrow> FTRP s bp;
        f \<leftarrow> GET s fp;
        if h \<noteq> f then Some False else Some True })"

partial_function (option) check_heap_loop :: "int \<Rightarrow> state \<Rightarrow> addr \<Rightarrow> bool option" where
  "check_heap_loop line s bp = do {
     sz \<leftarrow> GET_SIZE s (HDRP bp);
     if sz > 0 then do {
       ok \<leftarrow> check_block line bp s;
       if \<not> ok then Some False
       else do {
         nb \<leftarrow> NEXT_BLKP s bp;
         check_heap_loop line s nb }
     }
     else do {
       esz \<leftarrow> GET_SIZE s (HDRP bp);
       if esz \<noteq> 0 then Some False
       else do {
         ea \<leftarrow> GET_ALLOC s (HDRP bp);
         if ea = 0 then Some False else Some True }
     }
   }"

definition check_heap :: "int \<Rightarrow> state \<Rightarrow> bool option" where
  "check_heap line s = do {
     psz \<leftarrow> GET_SIZE s (HDRP (heap_start s));
     if psz \<noteq> DSIZE then Some False
     else do {
       pa \<leftarrow> GET_ALLOC s (HDRP (heap_start s));
       if pa = 0 then Some False
       else check_heap_loop line s (heap_start s) }
   }"

text \<open>\<^verbatim>\<open>print_heap\<close> prints one line for the heap, one per block and one for the
  epilogue; the model returns the lines.  A block line holds the block pointer and the
  size and the allocated bit read from its header and from its footer.\<close>

datatype line =
    Heap_line addr
  | Block_line addr "64 word" "64 word" "64 word" "64 word"
  | End_line addr

definition print_block :: "addr \<Rightarrow> state \<Rightarrow> line option" where
  "print_block bp s = do {
     hsize \<leftarrow> GET_SIZE s (HDRP bp);
     halloc \<leftarrow> GET_ALLOC s (HDRP bp);
     fp \<leftarrow> FTRP s bp;
     fsize \<leftarrow> GET_SIZE s fp;
     fp' \<leftarrow> FTRP s bp;
     falloc \<leftarrow> GET_ALLOC s fp';
     if hsize = 0 then Some (End_line bp)
     else Some (Block_line bp hsize halloc fsize falloc)
   }"

partial_function (option) print_heap_loop :: "state \<Rightarrow> addr \<Rightarrow> line list option" where
  "print_heap_loop s bp = do {
     sz \<leftarrow> GET_SIZE s (HDRP bp);
     if sz > 0 then do {
       l \<leftarrow> print_block bp s;
       nb \<leftarrow> NEXT_BLKP s bp;
       ls \<leftarrow> print_heap_loop s nb;
       Some (l # ls) }
     else do {
       l \<leftarrow> print_block bp s;
       Some [l] }
   }"

definition print_heap :: "state \<Rightarrow> line list option" where
  "print_heap s = do {
     ls \<leftarrow> print_heap_loop s (heap_start s);
     Some (Heap_line (heap_start s) # ls)
   }"

text \<open>The free list followed from its head through the next-links, as the scan of
  \<^verbatim>\<open>find_fit\<close> follows it when no block fits: the blocks the scan visits, in order.\<close>

partial_function (option) list_walk :: "state \<Rightarrow> addr \<Rightarrow> addr list option" where
  "list_walk s cur_bp =
     (if cur_bp \<noteq> NULL then do {
        sz \<leftarrow> GET_SIZE s (HDRP cur_bp);
        nxt \<leftarrow> GET_PTR s (PADD cur_bp 8);
        r \<leftarrow> list_walk s nxt;
        Some (cur_bp # r) }
      else Some [])"

definition free_list :: "state \<Rightarrow> addr list option" where
  "free_list s = do {
     cur_bp \<leftarrow> GET_PTR s (LL_START s);
     list_walk s cur_bp
   }"

section \<open>Words, bytes and footprints\<close>

text \<open>Addresses and sizes of the proofs are natural numbers; \<open>w64\<close> is the machine
  word of a number below \<open>2 ^ 64\<close>, \<open>flag\<close> the allocated bit of a boundary
  tag.\<close>

definition w64 :: "nat \<Rightarrow> 64 word" where
  "w64 n = of_nat n"

definition flag :: "bool \<Rightarrow> 64 word" where
  "flag a = (if a then 1 else 0)"

lemma unat_w64: "n < 2 ^ 64 \<Longrightarrow> unat (w64 n) = n"
  by (simp add: w64_def unat_of_nat)

lemma w64_unat: "w64 (unat w) = w"
  by (simp add: w64_def)

lemma w64_0: "w64 0 = 0"
  by (simp add: w64_def)

lemma w64_add_unat: "w64 a + k = w64 (a + unat k)"
  by (simp add: w64_def)

lemma w64_sub_unat: "unat k \<le> a \<Longrightarrow> w64 a - k = w64 (a - unat k)"
  by (simp add: w64_def)

lemma w64_eq_iff: "a < 2 ^ 64 \<Longrightarrow> b < 2 ^ 64 \<Longrightarrow> (w64 a = w64 b) = (a = b)"
  by (metis unat_w64)

lemma w64_eq_0_iff: "a < 2 ^ 64 \<Longrightarrow> (w64 a = 0) = (a = 0)"
  using w64_eq_iff [of a 0] by (simp add: w64_0)

lemma w64_less_iff: "a < 2 ^ 64 \<Longrightarrow> (w64 a < k) = (a < unat k)"
  by (simp add: word_less_nat_alt unat_w64)

lemma w64_le_iff: "a < 2 ^ 64 \<Longrightarrow> (k \<le> w64 a) = (unat k \<le> a)"
  by (simp add: word_le_nat_alt unat_w64)

lemma byte_of_word:
  "push_bit k (ucast (ucast (drop_bit k (v :: 64 word)) :: byte) :: 64 word) = v AND push_bit k (mask 8)"
  by (rule bit_word_eqI) (auto simp: bit_simps)

lemma byte_masks:
  "mask 8 OR push_bit 8 (mask 8) OR push_bit 16 (mask 8) OR push_bit 24 (mask 8)
   OR push_bit 32 (mask 8) OR push_bit 40 (mask 8) OR push_bit 48 (mask 8)
   OR push_bit 56 (mask 8) = (- 1 :: 64 word)"
  by (simp add: mask_eq_exp_minus_1)

lemma load64_store64_same: "load64 (store64 m p v) p = v"
proof -
  have b: "\<And>k. k < 8 \<Longrightarrow> store64 m p v (p + k) = ucast (drop_bit (8 * unat k) v)"
    by (simp add: store64_def)
  have b0: "store64 m p v p = ucast v"
    using b [of 0] by simp
  have "load64 (store64 m p v) p =
      v AND (mask 8 OR push_bit 8 (mask 8) OR push_bit 16 (mask 8) OR push_bit 24 (mask 8)
        OR push_bit 32 (mask 8) OR push_bit 40 (mask 8) OR push_bit 48 (mask 8)
        OR push_bit 56 (mask 8))"
    unfolding load64_def bit.conj_disj_distrib
    using byte_of_word [of 0 v] byte_of_word [of 8 v] byte_of_word [of 16 v]
      byte_of_word [of 24 v] byte_of_word [of 32 v] byte_of_word [of 40 v]
      byte_of_word [of 48 v] byte_of_word [of 56 v]
    by (simp add: b b0)
  then show ?thesis
    by (simp only: byte_masks) simp
qed

lemma word_far:
  fixes d k :: "64 word"
  assumes "8 \<le> d" "8 \<le> - d" "k < 8"
  shows "\<not> d + k < 8"
proof -
  have d8: "8 \<le> unat d"
    using assms(1) by (simp add: word_le_nat_alt)
  then have "unat d \<noteq> 0"
    by simp
  then have "unat (- d) = 2 ^ 64 - unat d"
    using unat_sub_if' [of 0 d] by simp
  with assms(2) have "unat d + 8 \<le> 2 ^ 64"
    by (simp add: word_le_nat_alt)
  moreover have "unat k < 8"
    using assms(3) by (simp add: word_less_nat_alt)
  ultimately have "unat (d + k) = unat d + unat k"
    by (simp add: unat_word_ariths)
  with d8 show ?thesis
    by (simp add: word_less_nat_alt)
qed

lemma load64_store64_other:
  assumes "8 \<le> q - p" "8 \<le> p - q"
  shows "load64 (store64 m p v) q = load64 m q"
proof -
  have "\<And>k. k < 8 \<Longrightarrow> \<not> (q + k - p < 8)"
    using word_far [of "q - p"] assms by (simp add: algebra_simps)
  then have "\<And>k. k < 8 \<Longrightarrow> store64 m p v (q + k) = m (q + k)"
    by (simp add: store64_def)
  from this [of 0] this [of 1] this [of 2] this [of 3] this [of 4] this [of 5] this [of 6]
    this [of 7]
  show ?thesis
    by (simp add: load64_def)
qed

lemma store64_byte_other:
  assumes "a < P \<or> P + 8 \<le> a" "a < 2 ^ 64" "P + 8 \<le> 2 ^ 64"
  shows "store64 m (w64 P) v (w64 a) = m (w64 a)"
proof -
  have "unat (w64 a - w64 P) = (if P \<le> a then a - P else a + 2 ^ 64 - P)"
    using assms by (simp add: unat_sub_if' unat_w64)
  with assms have "8 \<le> unat (w64 a - w64 P)"
    by (auto split: if_splits)
  then show ?thesis
    by (simp add: store64_def word_less_nat_alt)
qed

lemma load64_cong:
  assumes "\<And>i. i < 8 \<Longrightarrow> m' (w64 (Q + i)) = m (w64 (Q + i))"
  shows "load64 m' (w64 Q) = load64 m (w64 Q)"
proof -
  have "\<And>k. unat k < 8 \<Longrightarrow> m' (w64 Q + k) = m (w64 Q + k)"
    using assms by (simp add: w64_add_unat)
  from this [of 0] this [of 1] this [of 2] this [of 3] this [of 4] this [of 5] this [of 6]
    this [of 7]
  show ?thesis
    by (simp add: load64_def)
qed

text \<open>\<open>touch W m m'\<close>: the memories \<open>m\<close> and \<open>m'\<close> differ at most at the byte
  addresses in \<open>W\<close>.\<close>

definition touch :: "nat set \<Rightarrow> (addr \<Rightarrow> byte) \<Rightarrow> (addr \<Rightarrow> byte) \<Rightarrow> bool" where
  "touch W m m' = (\<forall>a. a < 2 ^ 64 \<longrightarrow> a \<notin> W \<longrightarrow> m' (w64 a) = m (w64 a))"

lemma touch_refl: "touch W m m"
  by (simp add: touch_def)

lemma touch_trans: "touch W1 m m1 \<Longrightarrow> touch W2 m1 m2 \<Longrightarrow> touch (W1 \<union> W2) m m2"
  by (simp add: touch_def)

lemma touch_mono: "touch W m m' \<Longrightarrow> W \<subseteq> W' \<Longrightarrow> touch W' m m'"
  by (auto simp: touch_def)

lemma touch_store: "P + 8 \<le> 2 ^ 64 \<Longrightarrow> touch {P..<P + 8} m (store64 m (w64 P) v)"
  by (auto simp: touch_def intro!: store64_byte_other)

lemma touch_load:
  assumes "touch W m m'" "Q + 8 \<le> 2 ^ 64" "\<And>a. Q \<le> a \<Longrightarrow> a < Q + 8 \<Longrightarrow> a \<notin> W"
  shows "load64 m' (w64 Q) = load64 m (w64 Q)"
proof (rule load64_cong)
  fix i :: nat
  assume "i < 8"
  with assms show "m' (w64 (Q + i)) = m (w64 (Q + i))"
    by (simp add: touch_def)
qed

lemma load64_store64_far:
  assumes "P + 8 \<le> Q \<or> Q + 8 \<le> P" "P + 8 \<le> 2 ^ 64" "Q + 8 \<le> 2 ^ 64"
  shows "load64 (store64 m (w64 P) v) (w64 Q) = load64 m (w64 Q)"
  using touch_store [OF assms(2), of m v] assms
  by (auto intro!: touch_load [where W = "{P..<P + 8}"])

lemma low_bits_w64: "16 dvd n \<Longrightarrow> w64 n AND 0xf = 0"
proof -
  assume "16 dvd n"
  then obtain k where "n = 16 * k" ..
  then have "w64 n = push_bit 4 (w64 k)"
    by (simp add: w64_def push_bit_eq_mult)
  moreover have "(0xf :: 64 word) = mask 4"
    by (simp add: mask_eq_exp_minus_1)
  ultimately show ?thesis
    by (simp add: bit_eq_iff bit_simps)
qed

lemma and_not_absorb:
  fixes x y :: "64 word"
  assumes "x AND y = 0"
  shows "x AND NOT y = x"
proof -
  have "x = (x AND y) OR (x AND NOT y)"
    by (simp flip: bit.conj_disj_distrib)
  with assms show ?thesis
    by simp
qed

lemma size_of_PACK: "16 dvd n \<Longrightarrow> PACK (w64 n) (flag a) AND NOT 0xf = w64 n"
proof -
  assume "16 dvd n"
  then have "w64 n AND NOT 0xf = w64 n"
    by (intro and_not_absorb low_bits_w64)
  moreover have "flag a AND NOT 0xf = 0"
    by (simp add: flag_def)
  ultimately show ?thesis
    by (simp add: PACK_def bit.conj_disj_distrib2)
qed

lemma alloc_of_PACK: "16 dvd n \<Longrightarrow> PACK (w64 n) (flag a) AND 1 = flag a"
proof -
  assume "16 dvd n"
  then have "w64 n AND 0xf = 0"
    by (rule low_bits_w64)
  then have "(w64 n AND 0xf) AND 1 = 0"
    by simp
  then have "w64 n AND 1 = 0"
    by (simp add: and.assoc)
  moreover have "flag a AND 1 = flag a"
    by (simp add: flag_def)
  ultimately show ?thesis
    by (simp add: PACK_def bit.conj_disj_distrib2)
qed

lemma PACK_flag: "PACK x 0 = PACK x (flag False)" "PACK x 1 = PACK x (flag True)"
  by (simp_all add: flag_def)

lemma flag_eq_0: "(flag a = 0) = (\<not> a)"
  by (simp add: flag_def)

section \<open>The adjusted block size\<close>

lemma unat_adjust_size:
  assumes "unat sz \<le> 2 ^ 64 - 32"
  shows "unat (adjust_size sz) = (if unat sz \<le> 16 then 32 else 16 * ((unat sz + 31) div 16))"
proof (cases "sz \<le> 16")
  case True
  then show ?thesis
    by (simp add: adjust_size_def word_le_nat_alt)
next
  case False
  have e: "sz + 16 + (16 - 1) = sz + 31"
    by simp
  have s: "unat (sz + 31) = unat sz + 31"
    using assms by (simp add: unat_word_ariths)
  have d: "unat ((sz + 31) div 16) = (unat sz + 31) div 16"
    by (simp add: unat_div s)
  have "16 * ((unat sz + 31) div 16) \<le> unat sz + 31"
    by simp
  with assms have "16 * ((unat sz + 31) div 16) < 2 ^ 64"
    by simp
  then have "unat (16 * ((sz + 31) div 16)) = 16 * ((unat sz + 31) div 16)"
    using d by (simp add: unat_word_ariths)
  with False show ?thesis
    unfolding adjust_size_def e by (simp add: word_le_nat_alt)
qed

lemma round_up_16:
  fixes n :: nat
  shows "n + 16 \<le> 16 * ((n + 31) div 16)"
    and "16 dvd b \<Longrightarrow> n + 16 \<le> b \<Longrightarrow> 16 * ((n + 31) div 16) \<le> b"
proof -
  have "n + 31 = 16 * ((n + 31) div 16) + (n + 31) mod 16"
    by simp
  moreover have "(n + 31) mod 16 < 16"
    by simp
  ultimately show "n + 16 \<le> 16 * ((n + 31) div 16)"
    by linarith
next
  assume dv: "16 dvd b" and le: "n + 16 \<le> b"
  from dv obtain k where k: "b = 16 * k" ..
  from le k have "(n + 31) div 16 \<le> (16 * k + 15) div 16"
    by (intro div_le_mono) simp
  also have "(16 * k + 15) div 16 = k"
    by simp
  finally show "16 * ((n + 31) div 16) \<le> b"
    using k by simp
qed

text \<open>
  For every request \<open>0 < sz \<le> 2 ^ 64 - 32\<close> the adjusted size of \<^verbatim>\<open>mm_malloc\<close> is
  the least multiple of 16 that is at least \<open>sz + 16\<close>, and it is at least 32.
\<close>

theorem adjust_size_round_up:
  assumes "0 < sz" and "unat sz \<le> 2 ^ 64 - 32"
  shows "16 dvd unat (adjust_size sz) \<and> unat sz + 16 \<le> unat (adjust_size sz)
     \<and> (\<forall>b. 16 dvd b \<and> unat sz + 16 \<le> b \<longrightarrow> unat (adjust_size sz) \<le> b)
     \<and> 32 \<le> unat (adjust_size sz)"
proof (cases "unat sz \<le> 16")
  case True
  have pos: "0 < unat sz"
    using assms(1) by (simp add: word_less_nat_alt)
  have "32 \<le> b" if "16 dvd b" "unat sz + 16 \<le> b" for b :: nat
  proof -
    from that(1) obtain k where k: "b = 16 * k" ..
    with that(2) pos have "1 < k"
      by simp
    with k show ?thesis
      by simp
  qed
  with True show ?thesis
    by (simp add: unat_adjust_size [OF assms(2)])
next
  case False
  then show ?thesis
    using round_up_16(1) [of "unat sz"] round_up_16(2) [where n = "unat sz"]
    by (simp add: unat_adjust_size [OF assms(2)])
qed

theorem adjust_size_round_up_witness:
  "(0 :: 64 word) < 100 \<and> unat (100 :: 64 word) \<le> 2 ^ 64 - 32
     \<and> 16 dvd unat (adjust_size 100) \<and> unat (100 :: 64 word) + 16 \<le> unat (adjust_size 100)
     \<and> unat (adjust_size 100) \<le> 128 \<and> 32 \<le> unat (adjust_size 100)"
proof -
  have a: "(0 :: 64 word) < 100" and b: "unat (100 :: 64 word) \<le> 2 ^ 64 - 32"
    by simp_all
  have c: "16 dvd (128 :: nat) \<and> unat (100 :: 64 word) + 16 \<le> 128"
    by simp
  from adjust_size_round_up [OF a b] c a b show ?thesis
    by blast
qed

text \<open>
  C3: the adjusted size of a request \<open>sz > 0\<close> should be the least multiple of 16 that is
  at least \<open>sz + 16\<close>, and at least 32.  The code misses this for requests beyond
  \<open>2 ^ 64 - 32\<close>, where the sum \<^verbatim>\<open>size + OVERHEAD + (DSIZE - 1)\<close> wraps around with no
  guard: a request of \<open>2 ^ 64 - 1\<close> bytes is adjusted to 16 bytes, which is below
  the minimum block size of 32 and below the request.
\<close>

theorem adjust_size_overflow:
  "(0 :: 64 word) < 0xFFFFFFFFFFFFFFFF \<and> adjust_size 0xFFFFFFFFFFFFFFFF = 16
     \<and> unat (adjust_size 0xFFFFFFFFFFFFFFFF) < 32
     \<and> unat (adjust_size 0xFFFFFFFFFFFFFFFF) < unat (0xFFFFFFFFFFFFFFFF :: 64 word) + 16"
  by (simp add: adjust_size_def)

type_synonym block = "nat \<times> nat \<times> bool"

fun chain :: "nat \<Rightarrow> block list \<Rightarrow> nat \<Rightarrow> bool" where
  "chain n [] e = (n = e)"
| "chain n ((b, sz, a) # bl) e = (b = n \<and> 16 \<le> sz \<and> 16 dvd sz \<and> chain (n + sz) bl e)"

definition hdr_ok :: "(addr \<Rightarrow> byte) \<Rightarrow> block \<Rightarrow> bool" where
  "hdr_ok m x = (case x of (b, sz, a) \<Rightarrow> load64 m (w64 (b - 8)) = PACK (w64 sz) (flag a))"

definition ftr_ok :: "(addr \<Rightarrow> byte) \<Rightarrow> block \<Rightarrow> bool" where
  "ftr_ok m x = (case x of (b, sz, a) \<Rightarrow> load64 m (w64 (b + sz - 16)) = PACK (w64 sz) (flag a))"

definition tagged :: "(addr \<Rightarrow> byte) \<Rightarrow> block list \<Rightarrow> bool" where
  "tagged m bl = (\<forall>x\<in>set bl. hdr_ok m x \<and> ftr_ok m x)"

definition tag_bytes :: "block list \<Rightarrow> nat set" where
  "tag_bytes bl = (\<Union>(b, sz, a)\<in>set bl. {b - 8..<b} \<union> {b + sz - 16..<b + sz - 8})"

definition links :: "nat list \<Rightarrow> nat set" where
  "links fl = (\<Union>b\<in>set fl. {b..<b + 16})"

fun seg :: "(addr \<Rightarrow> byte) \<Rightarrow> addr \<Rightarrow> nat list \<Rightarrow> addr \<Rightarrow> addr \<Rightarrow> bool" where
  "seg m prev [] cur nxt = (cur = nxt)"
| "seg m prev (b # fl) cur nxt =
     (cur = w64 b \<and> load64 m (w64 b) = prev \<and> seg m (w64 b) fl (load64 m (w64 (b + 8))) nxt)"

definition linked :: "(addr \<Rightarrow> byte) \<Rightarrow> nat \<Rightarrow> nat list \<Rightarrow> bool" where
  "linked m LL fl = seg m 0 fl (load64 m (w64 LL)) 0"

definition free_addrs :: "block list \<Rightarrow> nat list" where
  "free_addrs bl = map fst (filter (\<lambda>x. \<not> snd (snd x)) bl)"

lemma chain_append: "chain n (xs @ ys) e = (\<exists>k. chain n xs k \<and> chain k ys e)"
  by (induction xs arbitrary: n) auto

lemma chain_le: "chain n bl e \<Longrightarrow> n \<le> e"
proof (induction bl arbitrary: n)
  case Nil
  then show ?case by simp
next
  case (Cons x bl)
  obtain b sz a where x: "x = (b, sz, a)"
    by (cases x)
  with Cons.prems have "chain (n + sz) bl e" by simp
  from Cons.IH [OF this] show ?case by simp
qed

lemma chain_mem:
  "chain n bl e \<Longrightarrow> (b, sz, a) \<in> set bl \<Longrightarrow> n \<le> b \<and> b + sz \<le> e \<and> 16 \<le> sz \<and> 16 dvd sz"
proof (induction bl arbitrary: n)
  case Nil
  then show ?case by simp
next
  case (Cons x bl)
  obtain b' sz' a' where x: "x = (b', sz', a')"
    by (cases x)
  from Cons.prems x have c: "b' = n" "16 \<le> sz'" "16 dvd sz'" "chain (n + sz') bl e"
    by simp_all
  show ?case
  proof (cases "(b, sz, a) = x")
    case True
    with x c chain_le [OF c(4)] show ?thesis by simp
  next
    case False
    with Cons.prems have "(b, sz, a) \<in> set bl" by simp
    from Cons.IH [OF c(4) this] show ?thesis by simp
  qed
qed

lemma chain_disj:
  "chain n bl e \<Longrightarrow> (b, sz, a) \<in> set bl \<Longrightarrow> (b', sz', a') \<in> set bl \<Longrightarrow>
     (b, sz, a) = (b', sz', a') \<or> b + sz \<le> b' \<or> b' + sz' \<le> b"
proof (induction bl arbitrary: n)
  case Nil
  then show ?case by simp
next
  case (Cons x bl)
  obtain c sc ac where x: "x = (c, sc, ac)"
    by (cases x)
  from Cons.prems x have c: "c = n" "16 \<le> sc" "chain (n + sc) bl e"
    by simp_all
  consider "(b, sz, a) = x" "(b', sz', a') = x" | "(b, sz, a) = x" "(b', sz', a') \<in> set bl"
    | "(b, sz, a) \<in> set bl" "(b', sz', a') = x" | "(b, sz, a) \<in> set bl" "(b', sz', a') \<in> set bl"
    using Cons.prems by auto
  then show ?case
  proof cases
    case 1
    then show ?thesis by simp
  next
    case 2
    with chain_mem [OF c(3) 2(2)] x c show ?thesis by simp
  next
    case 3
    with chain_mem [OF c(3) 3(1)] x c show ?thesis by simp
  next
    case 4
    from Cons.IH [OF c(3) this] show ?thesis .
  qed
qed

lemma chain_addr_inj:
  "chain n bl e \<Longrightarrow> (b, sz, a) \<in> set bl \<Longrightarrow> (b, sz', a') \<in> set bl \<Longrightarrow> sz = sz' \<and> a = a'"
  using chain_disj [of n bl e b sz a b sz' a'] chain_mem [of n bl e b sz a]
    chain_mem [of n bl e b sz' a']
  by auto

lemma chain_distinct: "chain n bl e \<Longrightarrow> distinct (map fst bl)"
proof (induction bl arbitrary: n)
  case Nil
  then show ?case by simp
next
  case (Cons x bl)
  obtain c sc ac where x: "x = (c, sc, ac)"
    by (cases x)
  from Cons.prems x have c: "c = n" "16 \<le> sc" "chain (n + sc) bl e"
    by simp_all
  have "c \<notin> fst ` set bl"
  proof
    assume "c \<in> fst ` set bl"
    then obtain sz a where "(c, sz, a) \<in> set bl" by auto
    from chain_mem [OF c(3) this] c show False by simp
  qed
  with Cons.IH [OF c(3)] x show ?case by simp
qed

lemma tag_bytes_span:
  assumes "chain n bl e" "8 \<le> n"
  shows "tag_bytes bl \<subseteq> {n - 8..<e - 8}"
proof
  fix x
  assume "x \<in> tag_bytes bl"
  then obtain b sz a where m: "(b, sz, a) \<in> set bl"
    and x: "x \<in> {b - 8..<b} \<union> {b + sz - 16..<b + sz - 8}"
    by (auto simp: tag_bytes_def)
  from chain_mem [OF assms(1) m] x assms(2) show "x \<in> {n - 8..<e - 8}"
    by auto
qed

lemma links_span:
  assumes "chain n bl e" "set fl \<subseteq> fst ` set bl" "\<forall>(b, sz, a)\<in>set bl. b \<in> set fl \<longrightarrow> 32 \<le> sz"
  shows "links fl \<subseteq> {n..<e - 16}"
proof
  fix x
  assume "x \<in> links fl"
  then obtain b where b: "b \<in> set fl" and x: "b \<le> x" "x < b + 16"
    by (auto simp: links_def)
  with assms(2) obtain sz a where m: "(b, sz, a) \<in> set bl"
    by auto
  with assms(3) b have "32 \<le> sz" by auto
  with chain_mem [OF assms(1) m] x show "x \<in> {n..<e - 16}"
    by auto
qed

lemma links_off_tags:
  assumes "chain n bl e" "set fl \<subseteq> fst ` set bl" "\<forall>(b, sz, a)\<in>set bl. b \<in> set fl \<longrightarrow> 32 \<le> sz"
    "8 \<le> n"
  shows "links fl \<inter> tag_bytes bl = {}"
proof -
  have False if "x \<in> links fl" "x \<in> tag_bytes bl" for x
  proof -
    from that(1) obtain b where b: "b \<in> set fl" and x: "b \<le> x" "x < b + 16"
      by (auto simp: links_def)
    with assms(2) obtain sz a where m: "(b, sz, a) \<in> set bl"
      by auto
    with assms(3) b have sz: "32 \<le> sz" by auto
    from that(2) obtain b' sz' a' where m': "(b', sz', a') \<in> set bl"
      and x': "x \<in> {b' - 8..<b'} \<union> {b' + sz' - 16..<b' + sz' - 8}"
      by (auto simp: tag_bytes_def)
    from chain_disj [OF assms(1) m m'] chain_mem [OF assms(1) m] chain_mem [OF assms(1) m']
      x x' sz assms(4)
    show False by auto
  qed
  then show ?thesis by auto
qed

definition arena :: "state \<Rightarrow> nat \<Rightarrow> nat \<Rightarrow> bool" where
  "arena s LL E = (unat (mem_start_brk s) \<le> LL \<and> heap_start s = w64 (LL + 16)
     \<and> E = unat (mem_brk s) \<and> LL + 32 \<le> E \<and> E \<le> 2 ^ 63)"

definition nodes_ok :: "nat \<Rightarrow> nat \<Rightarrow> nat list \<Rightarrow> bool" where
  "nodes_ok LL E fl = (distinct fl \<and> (\<forall>b\<in>set fl. LL + 8 \<le> b \<and> b + 16 \<le> E)
     \<and> (\<forall>b\<in>set fl. \<forall>b'\<in>set fl. b = b' \<or> b + 16 \<le> b' \<or> b' + 16 \<le> b))"

lemma arena_mem [simp]: "arena (s\<lparr>mem := m\<rparr>) LL E = arena s LL E"
  by (simp add: arena_def)

lemma LL_START_w64: "arena s LL E \<Longrightarrow> LL_START s = w64 LL"
  by (simp add: arena_def LL_START_def PSUB_def w64_sub_unat)

lemma GET_ok:
  "arena s LL E \<Longrightarrow> LL \<le> X \<Longrightarrow> X + 8 \<le> E \<Longrightarrow> GET s (w64 X) = Some (load64 (mem s) (w64 X))"
  by (simp add: arena_def GET_def valid_def unat_w64)

lemma PUT_ok:
  "arena s LL E \<Longrightarrow> LL \<le> X \<Longrightarrow> X + 8 \<le> E \<Longrightarrow>
     PUT (w64 X) v s = Some (s\<lparr>mem := store64 (mem s) (w64 X) v\<rparr>)"
  by (simp add: arena_def PUT_def valid_def unat_w64)

lemma PADD_w64: "PADD (w64 B) k = w64 (B + unat k)"
  by (simp add: PADD_def w64_add_unat)

lemma PSUB_w64: "unat k \<le> B \<Longrightarrow> PSUB (w64 B) k = w64 (B - unat k)"
  by (simp add: PSUB_def w64_sub_unat)

lemma HDRP_w64: "8 \<le> B \<Longrightarrow> HDRP (w64 B) = w64 (B - 8)"
  by (simp add: HDRP_def PSUB_w64)

lemma seg_touch:
  assumes "touch W m m'" "W \<inter> links fl = {}" "\<forall>b\<in>set fl. b + 16 \<le> 2 ^ 64"
  shows "seg m' prev fl cur nxt = seg m prev fl cur nxt"
  using assms(2,3)
proof (induction fl arbitrary: prev cur)
  case Nil
  then show ?case by simp
next
  case (Cons b fl)
  have off: "\<And>a. b \<le> a \<Longrightarrow> a < b + 16 \<Longrightarrow> a \<notin> W"
    using Cons.prems(1) by (auto simp: links_def)
  have b: "b + 16 \<le> 2 ^ 64"
    using Cons.prems(2) by simp
  have l1: "load64 m' (w64 b) = load64 m (w64 b)"
    using b off by (intro touch_load [OF assms(1)]) auto
  have l2: "load64 m' (w64 (b + 8)) = load64 m (w64 (b + 8))"
    using b off by (intro touch_load [OF assms(1)]) auto
  have "W \<inter> links fl = {}" "\<forall>b\<in>set fl. b + 16 \<le> 2 ^ 64"
    using Cons.prems by (auto simp: links_def)
  from Cons.IH [OF this] l1 l2 show ?case
    by simp
qed

lemma seg_store:
  assumes "\<forall>b\<in>set fl. X + 8 \<le> b \<or> b + 16 \<le> X" "X + 8 \<le> 2 ^ 64" "\<forall>b\<in>set fl. b + 16 \<le> 2 ^ 64"
  shows "seg (store64 m (w64 X) v) prev fl cur nxt = seg m prev fl cur nxt"
proof (rule seg_touch [OF touch_store [OF assms(2)] _ assms(3)])
  show "{X..<X + 8} \<inter> links fl = {}"
    using assms(1) by (fastforce simp: links_def)
qed

definition lastp :: "addr \<Rightarrow> nat list \<Rightarrow> addr" where
  "lastp prev xs = (if xs = [] then prev else w64 (last xs))"

definition headp :: "nat list \<Rightarrow> addr \<Rightarrow> addr" where
  "headp ys nxt = (if ys = [] then nxt else w64 (hd ys))"

lemma seg_headp: "seg m prev ys cur nxt \<Longrightarrow> cur = headp ys nxt"
  by (cases ys) (simp_all add: headp_def)

lemma seg_append:
  "seg m prev (xs @ ys) cur nxt =
     (seg m prev xs cur (headp ys nxt) \<and> seg m (lastp prev xs) ys (headp ys nxt) nxt)"
proof (induction xs arbitrary: prev cur)
  case Nil
  show ?case
    using seg_headp [of m prev ys cur nxt] by (auto simp: lastp_def)
next
  case (Cons x xs)
  show ?case
    by (simp add: Cons.IH lastp_def)
qed

lemma seg_set_next:
  assumes "seg m prev xs cur nxt" "xs \<noteq> []" "distinct xs"
    "\<forall>b\<in>set xs. \<forall>b'\<in>set xs. b = b' \<or> b + 16 \<le> b' \<or> b' + 16 \<le> b"
    "\<forall>b\<in>set xs. b + 16 \<le> 2 ^ 64"
  shows "seg (store64 m (w64 (last xs + 8)) v) prev xs cur v"
  using assms
proof (induction xs arbitrary: prev cur)
  case Nil
  then show ?case by simp
next
  case (Cons x xs)
  let ?m' = "store64 m (w64 (last (x # xs) + 8)) v"
  have x: "x + 16 \<le> 2 ^ 64"
    using Cons.prems(5) by simp
  show ?case
  proof (cases "xs = []")
    case True
    have "load64 ?m' (w64 x) = load64 m (w64 x)"
      using True x by (simp add: load64_store64_far)
    with Cons.prems(1) True show ?thesis
      by (simp add: load64_store64_same)
  next
    case False
    then have "last xs \<in> set xs" by simp
    with Cons.prems(3,4) have far: "last xs + 16 \<le> x \<or> x + 16 \<le> last xs"
      by auto
    have l: "last xs + 16 \<le> 2 ^ 64"
      using Cons.prems(5) \<open>last xs \<in> set xs\<close> by simp
    have "load64 ?m' (w64 x) = load64 m (w64 x)" "load64 ?m' (w64 (x + 8)) = load64 m (w64 (x + 8))"
      using False x l far by (auto simp: load64_store64_far)
    moreover have "seg (store64 m (w64 (last xs + 8)) v) (w64 x) xs (load64 m (w64 (x + 8))) v"
      using Cons.prems False by (intro Cons.IH) auto
    ultimately show ?thesis
      using Cons.prems(1) False by simp
  qed
qed

lemma seg_set_prev:
  assumes "seg m prev ys cur nxt" "ys \<noteq> []" "distinct ys"
    "\<forall>b\<in>set ys. \<forall>b'\<in>set ys. b = b' \<or> b + 16 \<le> b' \<or> b' + 16 \<le> b"
    "\<forall>b\<in>set ys. b + 16 \<le> 2 ^ 64"
  shows "seg (store64 m (w64 (hd ys)) v) v ys cur nxt"
proof -
  obtain y ys' where ys: "ys = y # ys'"
    using assms(2) by (cases ys) auto
  let ?m' = "store64 m (w64 y) v"
  have y: "y + 16 \<le> 2 ^ 64"
    using assms(5) ys by simp
  have "\<forall>b\<in>set ys'. y + 8 \<le> b \<or> b + 16 \<le> y"
    using assms(3,4) ys by fastforce
  then have "seg ?m' (w64 y) ys' (load64 m (w64 (y + 8))) nxt
      = seg m (w64 y) ys' (load64 m (w64 (y + 8))) nxt"
    using y assms(5) ys by (intro seg_store) auto
  moreover have "load64 ?m' (w64 (y + 8)) = load64 m (w64 (y + 8))"
    using y by (simp add: load64_store64_far)
  ultimately show ?thesis
    using assms(1) ys by (simp add: load64_store64_same)
qed

lemma nodes_ok_bound: "nodes_ok LL E fl \<Longrightarrow> E \<le> 2 ^ 63 \<Longrightarrow> b \<in> set fl \<Longrightarrow> b + 16 \<le> 2 ^ 64 \<and> b < 2 ^ 64 \<and> 0 < b"
  by (fastforce simp: nodes_ok_def)

lemma remove_node_ok:
  assumes ar: "arena s LL E" and l: "linked (mem s) LL fl" and n: "nodes_ok LL E fl"
    and B: "B \<in> set fl"
  shows "\<exists>m'. remove_node (w64 B) s = Some (s\<lparr>mem := m'\<rparr>) \<and> linked m' LL (remove1 B fl)
     \<and> touch ({LL..<LL + 8} \<union> links fl) (mem s) m'"
proof -
  let ?m = "mem s"
  from B obtain xs ys where fl: "fl = xs @ B # ys"
    by (auto dest: split_list)
  from n fl have d: "distinct xs" "distinct ys" "B \<notin> set xs" "B \<notin> set ys" "set xs \<inter> set ys = {}"
    by (auto simp: nodes_ok_def)
  then have rm: "remove1 B fl = xs @ ys"
    by (simp add: fl remove1_append)
  have E: "E \<le> 2 ^ 63" "LL + 32 \<le> E"
    using ar by (simp_all add: arena_def)
  have nb: "\<And>b. b \<in> set fl \<Longrightarrow> LL + 8 \<le> b \<and> b + 16 \<le> E"
    using n by (simp add: nodes_ok_def)
  have ap: "\<And>b b'. b \<in> set fl \<Longrightarrow> b' \<in> set fl \<Longrightarrow> b = b' \<or> b + 16 \<le> b' \<or> b' + 16 \<le> b"
    using n by (auto simp: nodes_ok_def)
  have big: "\<And>b. b \<in> set fl \<Longrightarrow> b + 16 \<le> 2 ^ 64"
    using nb E by fastforce
  have Bb: "LL + 8 \<le> B" "B + 16 \<le> E"
    using nb [OF B] by simp_all
  have B0: "w64 B \<noteq> 0"
    using Bb E by (simp add: w64_eq_0_iff)
  from l have s1: "seg ?m 0 xs (load64 ?m (w64 LL)) (w64 B)"
    and hB: "load64 ?m (w64 B) = lastp 0 xs"
    and s2: "seg ?m (w64 B) ys (load64 ?m (w64 (B + 8))) 0"
    by (simp_all add: linked_def fl seg_append headp_def)
  have nB: "load64 ?m (w64 (B + 8)) = headp ys 0"
    using seg_headp [OF s2] .
  have hd: "load64 ?m (w64 LL) = headp (xs @ [B]) 0"
    using seg_headp [OF s1] by (cases xs) (simp_all add: headp_def)
  have hd0: "load64 ?m (w64 LL) \<noteq> 0"
  proof (cases xs)
    case Nil
    with hd B0 show ?thesis by (simp add: headp_def)
  next
    case (Cons x xs')
    then have "x \<in> set fl" by (simp add: fl)
    from nb [OF this] E have "w64 x \<noteq> 0"
      by (simp add: w64_eq_0_iff)
    with hd Cons show ?thesis by (simp add: headp_def)
  qed
  have pfx: "remove_node (w64 B) s =
      (let pblkp = lastp 0 xs; nblkp = headp ys 0 in
       if pblkp = NULL \<and> nblkp = NULL then PUT_PTR (w64 LL) NULL s
       else if nblkp = NULL then PUT_PTR (PADD pblkp 8) NULL s
       else if pblkp = NULL then do {
         s1 \<leftarrow> PUT_PTR (w64 LL) nblkp s;
         PUT_PTR nblkp NULL s1 }
       else do {
         s1 \<leftarrow> PUT_PTR nblkp pblkp s;
         PUT_PTR (PADD pblkp 8) nblkp s1 })"
    using Bb hd0 B0 E
    by (simp add: remove_node_def LL_START_w64 [OF ar] GET_PTR_def GET_ok [where LL = LL and E = E] ar PADD_w64 hB nB
        Let_def)
  have lp0: "(lastp 0 xs = 0) = (xs = [])"
  proof (cases "xs = []")
    case True
    then show ?thesis by (simp add: lastp_def)
  next
    case False
    then have "last xs \<in> set fl" by (simp add: fl)
    from nb [OF this] E have "w64 (last xs) \<noteq> 0"
      by (simp add: w64_eq_0_iff)
    with False show ?thesis by (simp add: lastp_def)
  qed
  have hp0: "(headp ys 0 = 0) = (ys = [])"
  proof (cases "ys = []")
    case True
    then show ?thesis by (simp add: headp_def)
  next
    case False
    then have "hd ys \<in> set fl" by (simp add: fl)
    from nb [OF this] E have "w64 (hd ys) \<noteq> 0"
      by (simp add: w64_eq_0_iff)
    with False show ?thesis by (simp add: headp_def)
  qed
  have LLc: "LL + 8 \<le> 2 ^ 64"
    using E by simp
  have LLoff: "\<And>zs. set zs \<subseteq> set fl \<Longrightarrow> \<forall>b\<in>set zs. LL + 8 \<le> b \<or> b + 16 \<le> LL"
    using nb by auto
  have bigs: "\<And>zs. set zs \<subseteq> set fl \<Longrightarrow> \<forall>b\<in>set zs. b + 16 \<le> 2 ^ 64"
    using big by auto
  have aps: "\<And>zs. set zs \<subseteq> set fl \<Longrightarrow> \<forall>b\<in>set zs. \<forall>b'\<in>set zs. b = b' \<or> b + 16 \<le> b' \<or> b' + 16 \<le> b"
    using ap by (meson subsetD)
  have xsub: "set xs \<subseteq> set fl" and ysub: "set ys \<subseteq> set fl"
    by (auto simp: fl)
  have cross: "x + 16 \<le> y \<or> y + 16 \<le> x" if "x \<in> set xs" "y \<in> set ys" for x y
  proof -
    from that d(5) have "x \<noteq> y" by auto
    moreover from that have "x \<in> set fl" "y \<in> set fl" by (simp_all add: fl)
    ultimately show ?thesis using ap by blast
  qed
  consider (a) "xs = []" "ys = []" | (b) "xs \<noteq> []" "ys = []" | (c) "xs = []" "ys \<noteq> []"
    | (d) "xs \<noteq> []" "ys \<noteq> []"
    by blast
  then show ?thesis
  proof cases
    case a
    let ?m' = "store64 ?m (w64 LL) 0"
    have "remove_node (w64 B) s = PUT_PTR (w64 LL) NULL s"
    proof -
      have "lastp 0 xs = 0" "headp ys 0 = 0"
        using a lp0 hp0 by simp_all
      then show ?thesis by (simp add: pfx Let_def)
    qed
    then have "remove_node (w64 B) s = Some (s\<lparr>mem := ?m'\<rparr>)"
      using E by (simp add: PUT_PTR_def PUT_ok [where LL = LL and E = E] ar)
    moreover have "linked ?m' LL (remove1 B fl)"
      using a by (simp add: rm linked_def load64_store64_same)
    moreover have "touch ({LL..<LL + 8} \<union> links fl) ?m ?m'"
      using touch_store [OF LLc] by (rule touch_mono) simp
    ultimately show ?thesis by blast
  next
    case b
    let ?p = "last xs"
    let ?m' = "store64 ?m (w64 (?p + 8)) 0"
    have pin: "?p \<in> set fl"
      using b by (simp add: fl)
    note pb = nb [OF pin]
    have "remove_node (w64 B) s = PUT_PTR (PADD (lastp 0 xs) 8) NULL s"
    proof -
      have "lastp 0 xs \<noteq> 0" "headp ys 0 = 0"
        using b lp0 hp0 by simp_all
      then show ?thesis by (simp add: pfx Let_def)
    qed
    then have "remove_node (w64 B) s = Some (s\<lparr>mem := ?m'\<rparr>)"
      using b pb E by (simp add: lastp_def PUT_PTR_def PADD_w64 PUT_ok [where LL = LL and E = E] ar)
    moreover have "linked ?m' LL (remove1 B fl)"
    proof -
      have "seg ?m' 0 xs (load64 ?m (w64 LL)) 0"
        using s1 b d aps [OF xsub] bigs [OF xsub] by (intro seg_set_next) auto
      moreover have "load64 ?m' (w64 LL) = load64 ?m (w64 LL)"
        using pb E by (simp add: load64_store64_far)
      ultimately show ?thesis
        using b by (simp add: rm linked_def)
    qed
    moreover have "touch ({LL..<LL + 8} \<union> links fl) ?m ?m'"
    proof (rule touch_mono [OF touch_store])
      show "?p + 8 + 8 \<le> 2 ^ 64" using pb E by simp
      show "{?p + 8..<?p + 8 + 8} \<subseteq> {LL..<LL + 8} \<union> links fl"
        using pin by (fastforce simp: links_def)
    qed
    ultimately show ?thesis by blast
  next
    case c
    let ?n = "hd ys"
    let ?m1 = "store64 ?m (w64 LL) (w64 ?n)"
    let ?m' = "store64 ?m1 (w64 ?n) 0"
    have nin: "?n \<in> set fl"
      using c by (simp add: fl)
    note nn = nb [OF nin]
    have "remove_node (w64 B) s = do {
         s1 \<leftarrow> PUT_PTR (w64 LL) (headp ys 0) s;
         PUT_PTR (headp ys 0) NULL s1 }"
    proof -
      have "lastp 0 xs = 0" "headp ys 0 \<noteq> 0"
        using c lp0 hp0 by simp_all
      then show ?thesis by (simp add: pfx Let_def)
    qed
    then have "remove_node (w64 B) s = Some (s\<lparr>mem := ?m'\<rparr>)"
      using c nn E by (simp add: headp_def PUT_PTR_def PUT_ok [where LL = LL and E = E] ar)
    moreover have "linked ?m' LL (remove1 B fl)"
    proof -
      have "seg ?m1 (w64 B) ys (w64 ?n) 0"
        using s2 nB c LLoff [OF ysub] LLc bigs [OF ysub] by (simp add: seg_store headp_def)
      then have "seg ?m' 0 ys (w64 ?n) 0"
        using c d aps [OF ysub] bigs [OF ysub] by (intro seg_set_prev) auto
      moreover have "load64 ?m' (w64 LL) = w64 ?n"
        using nn E by (simp add: load64_store64_far load64_store64_same)
      ultimately show ?thesis
        using c by (simp add: rm linked_def)
    qed
    moreover have "touch ({LL..<LL + 8} \<union> links fl) ?m ?m'"
    proof -
      have "touch {LL..<LL + 8} ?m ?m1"
        using E by (intro touch_store) simp
      moreover have "touch {?n..<?n + 8} ?m1 ?m'"
        using nn E by (intro touch_store) simp
      ultimately have "touch ({LL..<LL + 8} \<union> {?n..<?n + 8}) ?m ?m'"
        by (rule touch_trans)
      then show ?thesis
      proof (rule touch_mono)
        show "{LL..<LL + 8} \<union> {?n..<?n + 8} \<subseteq> {LL..<LL + 8} \<union> links fl"
          using nin by (fastforce simp: links_def)
      qed
    qed
    ultimately show ?thesis by blast
  next
    case d': d
    let ?p = "last xs"
    let ?n = "hd ys"
    let ?m1 = "store64 ?m (w64 ?n) (w64 ?p)"
    let ?m' = "store64 ?m1 (w64 (?p + 8)) (w64 ?n)"
    have pin: "?p \<in> set fl" and nin: "?n \<in> set fl"
      using d' by (simp_all add: fl)
    note pb = nb [OF pin] and nn = nb [OF nin]
    have pn: "?p + 16 \<le> ?n \<or> ?n + 16 \<le> ?p"
      using cross [of ?p ?n] d' by simp
    have "remove_node (w64 B) s = do {
         s1 \<leftarrow> PUT_PTR (headp ys 0) (lastp 0 xs) s;
         PUT_PTR (PADD (lastp 0 xs) 8) (headp ys 0) s1 }"
    proof -
      have "lastp 0 xs \<noteq> 0" "headp ys 0 \<noteq> 0"
        using d' lp0 hp0 by simp_all
      then show ?thesis by (simp add: pfx Let_def)
    qed
    then have "remove_node (w64 B) s = Some (s\<lparr>mem := ?m'\<rparr>)"
      using d' pb nn E
      by (simp add: headp_def lastp_def PUT_PTR_def PADD_w64 PUT_ok [where LL = LL and E = E] ar)
    moreover have "linked ?m' LL (remove1 B fl)"
    proof -
      have "\<forall>b\<in>set xs. ?n + 8 \<le> b \<or> b + 16 \<le> ?n"
        using cross [of _ ?n] d' by fastforce
      then have "seg ?m1 0 xs (load64 ?m (w64 LL)) (w64 B)"
        using s1 nn E bigs [OF xsub] by (simp add: seg_store)
      then have x: "seg ?m' 0 xs (load64 ?m (w64 LL)) (w64 ?n)"
        using d' d aps [OF xsub] bigs [OF xsub] by (intro seg_set_next) auto
      have "seg ?m1 (w64 ?p) ys (w64 ?n) 0"
        using s2 nB d' d aps [OF ysub] bigs [OF ysub] by (intro seg_set_prev) (auto simp: headp_def)
      moreover have "\<forall>b\<in>set ys. ?p + 8 + 8 \<le> b \<or> b + 16 \<le> ?p + 8"
        using cross [of ?p] d' by fastforce
      ultimately have y: "seg ?m' (w64 ?p) ys (w64 ?n) 0"
        using pb E bigs [OF ysub] by (simp add: seg_store)
      have "load64 ?m' (w64 LL) = load64 ?m (w64 LL)"
        using pb nn E by (simp add: load64_store64_far)
      with x y show ?thesis
        using d' by (simp add: rm linked_def seg_append headp_def lastp_def)
    qed
    moreover have "touch ({LL..<LL + 8} \<union> links fl) ?m ?m'"
    proof -
      have "touch {?n..<?n + 8} ?m ?m1"
        using nn E by (intro touch_store) simp
      moreover have "touch {?p + 8..<?p + 8 + 8} ?m1 ?m'"
        using pb E by (intro touch_store) simp
      ultimately have "touch ({?n..<?n + 8} \<union> {?p + 8..<?p + 8 + 8}) ?m ?m'"
        by (rule touch_trans)
      then show ?thesis
      proof (rule touch_mono)
        show "{?n..<?n + 8} \<union> {?p + 8..<?p + 8 + 8} \<subseteq> {LL..<LL + 8} \<union> links fl"
          using nin pin by (fastforce simp: links_def)
      qed
    qed
    ultimately show ?thesis by blast
  qed
qed

lemma insert_node_ok:
  assumes ar: "arena s LL E" and l: "linked (mem s) LL fl" and n: "nodes_ok LL E (B # fl)"
  shows "\<exists>m'. insert_node (w64 B) s = Some (s\<lparr>mem := m'\<rparr>) \<and> linked m' LL (B # fl)
     \<and> touch ({LL..<LL + 8} \<union> links (B # fl)) (mem s) m'"
proof -
  let ?m = "mem s"
  have E: "E \<le> 2 ^ 63" "LL + 32 \<le> E"
    using ar by (simp_all add: arena_def)
  have nb: "\<And>b. b \<in> set (B # fl) \<Longrightarrow> LL + 8 \<le> b \<and> b + 16 \<le> E"
    using n unfolding nodes_ok_def by blast
  have Bb: "LL + 8 \<le> B" "B + 16 \<le> E"
    using nb [of B] by simp_all
  have Bfl: "\<forall>b\<in>set fl. B + 16 \<le> b \<or> b + 16 \<le> B"
    using n by (fastforce simp: nodes_ok_def)
  have big: "\<forall>b\<in>set fl. b + 16 \<le> 2 ^ 64"
    using nb E by fastforce
  have LLoff: "\<forall>b\<in>set fl. LL + 8 \<le> b \<or> b + 16 \<le> LL"
    using nb by auto
  have dfl: "distinct fl"
    and ap: "\<forall>b\<in>set fl. \<forall>b'\<in>set fl. b = b' \<or> b + 16 \<le> b' \<or> b' + 16 \<le> b"
    using n by (auto simp: nodes_ok_def)
  note P = PUT_ok [where LL = LL and E = E] and G = GET_ok [where LL = LL and E = E]
    and LS = LL_START_w64 [where LL = LL and E = E]
  let ?h = "load64 ?m (w64 LL)"
  have hd: "?h = headp fl 0"
    using l seg_headp by (simp add: linked_def)
  show ?thesis
  proof (cases fl)
    case Nil
    let ?m1 = "store64 ?m (w64 B) 0"
    let ?m2 = "store64 ?m1 (w64 (B + 8)) 0"
    let ?m' = "store64 ?m2 (w64 LL) (w64 B)"
    have h0: "?h = 0"
      using hd Nil by (simp add: headp_def)
    have "insert_node (w64 B) s = Some (s\<lparr>mem := ?m'\<rparr>)"
      using Bb E ar h0 by (simp add: insert_node_def LS GET_PTR_def PUT_PTR_def G P PADD_w64)
    moreover have "linked ?m' LL (B # fl)"
      using Nil Bb E by (simp add: linked_def load64_store64_same load64_store64_far)
    moreover have "touch ({LL..<LL + 8} \<union> links (B # fl)) ?m ?m'"
    proof -
      have "touch {B..<B + 8} ?m ?m1"
        using Bb E by (intro touch_store) simp
      moreover have "touch {B + 8..<B + 8 + 8} ?m1 ?m2"
        using Bb E by (intro touch_store) simp
      moreover have "touch {LL..<LL + 8} ?m2 ?m'"
        using E by (intro touch_store) simp
      ultimately have "touch ({B..<B + 8} \<union> {B + 8..<B + 8 + 8} \<union> {LL..<LL + 8}) ?m ?m'"
        by (intro touch_trans)
      then show ?thesis
      proof (rule touch_mono)
        show "{B..<B + 8} \<union> {B + 8..<B + 8 + 8} \<union> {LL..<LL + 8} \<subseteq> {LL..<LL + 8} \<union> links (B # fl)"
          by (fastforce simp: links_def)
      qed
    qed
    ultimately show ?thesis by blast
  next
    case (Cons h fl')
    let ?mh = "store64 ?m (w64 h) (w64 B)"
    let ?m1 = "store64 ?mh (w64 B) 0"
    let ?m2 = "store64 ?m1 (w64 (B + 8)) (w64 h)"
    let ?m' = "store64 ?m2 (w64 LL) (w64 B)"
    have hin: "h \<in> set (B # fl)"
      using Cons by simp
    note hb = nb [OF hin]
    have hB: "B + 16 \<le> h \<or> h + 16 \<le> B"
      using Bfl Cons by simp
    have hh: "?h = w64 h"
      using hd Cons by (simp add: headp_def)
    have h0: "w64 h \<noteq> 0"
      using hb E by (simp add: w64_eq_0_iff)
    have "insert_node (w64 B) s = Some (s\<lparr>mem := ?m'\<rparr>)"
      using Bb hb E ar h0 by (simp add: insert_node_def LS GET_PTR_def PUT_PTR_def G P PADD_w64 hh)
    moreover have "linked ?m' LL (B # fl)"
    proof -
      have "seg ?m 0 fl (w64 h) 0"
        using l hh by (simp add: linked_def)
      then have "seg ?mh (w64 B) fl (w64 h) 0"
        using seg_set_prev [of ?m 0 fl "w64 h" 0 "w64 B"] Cons dfl ap big by simp
      then have "seg ?m1 (w64 B) fl (w64 h) 0"
        using Bfl Bb E big by (subst seg_store) auto
      then have "seg ?m2 (w64 B) fl (w64 h) 0"
        using Bfl Bb E big by (subst seg_store) auto
      then have "seg ?m' (w64 B) fl (w64 h) 0"
        using LLoff E big by (subst seg_store) auto
      moreover have "load64 ?m' (w64 (B + 8)) = w64 h"
        using Bb E by (simp add: load64_store64_same load64_store64_far)
      moreover have "load64 ?m' (w64 B) = 0"
        using Bb E by (simp add: load64_store64_same load64_store64_far)
      ultimately show ?thesis
        by (simp add: linked_def load64_store64_same)
    qed
    moreover have "touch ({LL..<LL + 8} \<union> links (B # fl)) ?m ?m'"
    proof -
      have "touch {h..<h + 8} ?m ?mh"
        using hb E by (intro touch_store) simp
      moreover have "touch {B..<B + 8} ?mh ?m1"
        using Bb E by (intro touch_store) simp
      moreover have "touch {B + 8..<B + 8 + 8} ?m1 ?m2"
        using Bb E by (intro touch_store) simp
      moreover have "touch {LL..<LL + 8} ?m2 ?m'"
        using E by (intro touch_store) simp
      ultimately have "touch ({h..<h + 8} \<union> {B..<B + 8} \<union> {B + 8..<B + 8 + 8} \<union> {LL..<LL + 8}) ?m ?m'"
        by (intro touch_trans)
      then show ?thesis
      proof (rule touch_mono)
        show "{h..<h + 8} \<union> {B..<B + 8} \<union> {B + 8..<B + 8 + 8} \<union> {LL..<LL + 8}
            \<subseteq> {LL..<LL + 8} \<union> links (B # fl)"
          using Cons by (fastforce simp: links_def)
      qed
    qed
    ultimately show ?thesis by blast
  qed
qed

definition geom :: "nat \<Rightarrow> nat \<Rightarrow> block list \<Rightarrow> bool" where
  "geom LL E bl = (bl \<noteq> [] \<and> hd bl = (LL + 16, 16, True) \<and> (\<forall>x\<in>set (tl bl). 32 \<le> fst (snd x))
     \<and> chain (LL + 16) bl E \<and> E \<le> 2 ^ 63)"

definition nodes_in :: "block list \<Rightarrow> nat list \<Rightarrow> bool" where
  "nodes_in bl fl = (\<forall>b\<in>set fl. \<exists>sz a. (b, sz, a) \<in> set bl \<and> 32 \<le> sz)"

definition layout :: "state \<Rightarrow> nat \<Rightarrow> nat \<Rightarrow> block list \<Rightarrow> nat list \<Rightarrow> bool" where
  "layout s LL E bl fl =
     (arena s LL E \<and> geom LL E bl \<and> tagged (mem s) bl
      \<and> load64 (mem s) (w64 (E - 8)) = PACK 0 1
      \<and> linked (mem s) LL fl \<and> distinct fl \<and> set fl = set (free_addrs bl))"

lemma free_addrs_iff: "b \<in> set (free_addrs bl) \<longleftrightarrow> (\<exists>sz. (b, sz, False) \<in> set bl)"
  by (force simp: free_addrs_def)

lemma free_addrs_append: "free_addrs (xs @ ys) = free_addrs xs @ free_addrs ys"
  by (simp add: free_addrs_def)

lemma free_addrs_Cons: "free_addrs ((b, sz, a) # bl) = (if a then free_addrs bl else b # free_addrs bl)"
  by (simp add: free_addrs_def)

lemma tagged_append: "tagged m (xs @ ys) = (tagged m xs \<and> tagged m ys)"
  by (auto simp: tagged_def)

lemma tagged_Cons: "tagged m (x # xs) = (hdr_ok m x \<and> ftr_ok m x \<and> tagged m xs)"
  by (auto simp: tagged_def)

lemma tag_bytes_append: "tag_bytes (xs @ ys) = tag_bytes xs \<union> tag_bytes ys"
  by (auto simp: tag_bytes_def)

lemma tag_bytes_Cons:
  "tag_bytes ((b, sz, a) # bl) = {b - 8..<b} \<union> {b + sz - 16..<b + sz - 8} \<union> tag_bytes bl"
  by (auto simp: tag_bytes_def)

lemma links_Cons: "links (b # fl) = {b..<b + 16} \<union> links fl"
  by (auto simp: links_def)

lemma links_mono: "set fl \<subseteq> set fl' \<Longrightarrow> links fl \<subseteq> links fl'"
  by (auto simp: links_def)

lemma size_of_PACK': "16 dvd n \<Longrightarrow> PACK (w64 n) (flag a) AND - 16 = w64 n"
  using size_of_PACK [of n a] by simp

lemma geom_mem:
  assumes "geom LL E bl" "(b, sz, a) \<in> set bl"
  shows "LL + 16 \<le> b \<and> b + sz \<le> E \<and> 16 \<le> sz \<and> 16 dvd sz \<and> E \<le> 2 ^ 63"
  using assms chain_mem [of "LL + 16" bl E b sz a] by (auto simp: geom_def)

lemma geom_E:
  assumes "geom LL E bl"
  shows "LL + 32 \<le> E \<and> E \<le> 2 ^ 63"
proof -
  from assms obtain r where "bl = (LL + 16, 16, True) # r"
    by (cases bl) (auto simp: geom_def)
  with assms have "chain (LL + 16 + 16) r E" "E \<le> 2 ^ 63"
    by (simp_all add: geom_def)
  with chain_le [OF this(1)] show ?thesis by simp
qed

lemma geom_disj:
  assumes "geom LL E bl" "(b, sz, a) \<in> set bl" "(b', sz', a') \<in> set bl"
  shows "(b, sz, a) = (b', sz', a') \<or> b + sz \<le> b' \<or> b' + sz' \<le> b"
  using assms chain_disj [of "LL + 16" bl E] by (simp add: geom_def)

lemma geom_free_big:
  assumes "geom LL E bl" "(b, sz, False) \<in> set bl"
  shows "32 \<le> sz"
proof -
  from assms have "bl \<noteq> []" "hd bl = (LL + 16, 16, True)"
    by (simp_all add: geom_def)
  with assms(2) have "(b, sz, False) \<in> set (tl bl)"
    by (cases bl) auto
  with assms(1) show ?thesis
    by (fastforce simp: geom_def)
qed

lemma free_nodes_in:
  assumes "geom LL E bl" "set fl \<subseteq> set (free_addrs bl)"
  shows "nodes_in bl fl"
  unfolding nodes_in_def
proof
  fix b assume "b \<in> set fl"
  with assms(2) have "b \<in> set (free_addrs bl)"
    by blast
  then obtain sz where "(b, sz, False) \<in> set bl"
    unfolding free_addrs_iff by blast
  with geom_free_big [OF assms(1) this] show "\<exists>sz a. (b, sz, a) \<in> set bl \<and> 32 \<le> sz"
    by blast
qed

lemma nodes_in_mem:
  assumes "geom LL E bl" "nodes_in bl fl" "b \<in> set fl"
  shows "LL + 16 \<le> b \<and> b + 32 \<le> E \<and> E \<le> 2 ^ 63"
proof -
  from assms(2,3) obtain sz a where "(b, sz, a) \<in> set bl" "32 \<le> sz"
    by (auto simp: nodes_in_def)
  with geom_mem [OF assms(1) this(1)] show ?thesis by simp
qed

lemma geom_nodes_ok:
  assumes "geom LL E bl" "nodes_in bl fl" "distinct fl"
  shows "nodes_ok LL E fl"
proof -
  have 1: "LL + 8 \<le> b \<and> b + 16 \<le> E" if "b \<in> set fl" for b
    using nodes_in_mem [OF assms(1,2) that] by simp
  have 2: "b = b' \<or> b + 16 \<le> b' \<or> b' + 16 \<le> b" if "b \<in> set fl" "b' \<in> set fl" for b b'
  proof -
    from assms(2) that(1) obtain sz a where m: "(b, sz, a) \<in> set bl" "32 \<le> sz"
      by (auto simp: nodes_in_def)
    from assms(2) that(2) obtain sz' a' where m': "(b', sz', a') \<in> set bl" "32 \<le> sz'"
      by (auto simp: nodes_in_def)
    from geom_disj [OF assms(1) m(1) m'(1)] m(2) m'(2) show ?thesis by auto
  qed
  from 1 2 assms(3) show ?thesis
    unfolding nodes_ok_def by blast
qed

lemma geom_links_off:
  assumes "geom LL E bl" "nodes_in bl fl"
  shows "({LL..<LL + 8} \<union> links fl) \<inter> tag_bytes bl = {}"
proof -
  have c: "chain (LL + 16) bl E"
    using assms by (simp add: geom_def)
  have "set fl \<subseteq> fst ` set bl"
    using assms(2) by (force simp: nodes_in_def)
  moreover have "\<forall>(b, sz, a)\<in>set bl. b \<in> set fl \<longrightarrow> 32 \<le> sz"
  proof clarify
    fix b sz a assume m: "(b, sz, a) \<in> set bl" and b: "b \<in> set fl"
    from assms(2) b obtain sz' a' where m': "(b, sz', a') \<in> set bl" "32 \<le> sz'"
      by (auto simp: nodes_in_def)
    from chain_addr_inj [OF c m m'(1)] m'(2) show "32 \<le> sz" by simp
  qed
  ultimately have "links fl \<inter> tag_bytes bl = {}"
    using c by (intro links_off_tags [where n = "LL + 16" and e = E]) auto
  moreover have "{LL..<LL + 8} \<inter> tag_bytes bl = {}"
    using tag_bytes_span [OF c] by auto
  ultimately show ?thesis by blast
qed

lemma geom_links_below:
  assumes "geom LL E bl" "nodes_in bl fl" "a \<in> {LL..<LL + 8} \<union> links fl"
  shows "a < E - 16"
proof -
  from geom_E [OF assms(1)] have "LL + 32 \<le> E" ..
  moreover have "a < E - 16" if "a \<in> links fl"
  proof -
    from that obtain b where "b \<in> set fl" "a < b + 16"
      by (auto simp: links_def)
    with nodes_in_mem [OF assms(1,2) this(1)] show ?thesis by arith
  qed
  ultimately show ?thesis using assms(3) by auto
qed

lemma tagged_touch:
  assumes "tagged m bl" "touch W m m'" "W \<inter> tag_bytes bl = {}"
    "\<forall>(b, sz, a)\<in>set bl. 8 \<le> b \<and> 16 \<le> sz \<and> b + sz \<le> 2 ^ 64"
  shows "tagged m' bl"
  unfolding tagged_def
proof
  fix x
  assume x: "x \<in> set bl"
  obtain b sz a where xe: "x = (b, sz, a)"
    by (cases x)
  from assms(4) x xe have bnd: "8 \<le> b" "16 \<le> sz" "b + sz \<le> 2 ^ 64"
    by auto
  have sub: "{b - 8..<b} \<union> {b + sz - 16..<b + sz - 8} \<subseteq> tag_bytes bl"
    using x xe by (auto simp: tag_bytes_def)
  have "load64 m' (w64 (b - 8)) = load64 m (w64 (b - 8))"
  proof (rule touch_load [OF assms(2)])
    show "b - 8 + 8 \<le> 2 ^ 64" using bnd by simp
    fix a assume "b - 8 \<le> a" "a < b - 8 + 8"
    with bnd have "a \<in> {b - 8..<b}" by simp
    with sub assms(3) show "a \<notin> W" by blast
  qed
  moreover have "load64 m' (w64 (b + sz - 16)) = load64 m (w64 (b + sz - 16))"
  proof (rule touch_load [OF assms(2)])
    show "b + sz - 16 + 8 \<le> 2 ^ 64" using bnd by simp
    fix a assume "b + sz - 16 \<le> a" "a < b + sz - 16 + 8"
    with bnd have "a \<in> {b + sz - 16..<b + sz - 8}" by simp
    with sub assms(3) show "a \<notin> W" by blast
  qed
  moreover from assms(1) x xe have "hdr_ok m (b, sz, a)" "ftr_ok m (b, sz, a)"
    by (auto simp: tagged_def)
  ultimately show "hdr_ok m' x \<and> ftr_ok m' x"
    by (simp add: xe hdr_ok_def ftr_ok_def)
qed

lemma geom_bounds:
  assumes "geom LL E bl" "set xs \<subseteq> set bl"
  shows "\<forall>(b, sz, a)\<in>set xs. 8 \<le> b \<and> 16 \<le> sz \<and> b + sz \<le> 2 ^ 64"
  using geom_mem [OF assms(1)] assms(2) by fastforce

lemma tag_bytes_mono: "set xs \<subseteq> set bl \<Longrightarrow> tag_bytes xs \<subseteq> tag_bytes bl"
  by (auto simp: tag_bytes_def)

text \<open>List operations leave the boundary tags of any chain alone whose blocks host the
  nodes.\<close>

lemma tagged_list_touch:
  assumes "geom LL E bl" "nodes_in bl fl" "touch ({LL..<LL + 8} \<union> links fl) m m'"
    "tagged m xs" "set xs \<subseteq> set bl"
  shows "tagged m' xs"
proof (rule tagged_touch [OF assms(4) assms(3) _ geom_bounds [OF assms(1,5)]])
  show "({LL..<LL + 8} \<union> links fl) \<inter> tag_bytes xs = {}"
    using geom_links_off [OF assms(1,2)] tag_bytes_mono [OF assms(5)] by blast
qed

lemma epilogue_list_touch:
  assumes "geom LL E bl" "nodes_in bl fl" "touch ({LL..<LL + 8} \<union> links fl) m m'"
  shows "load64 m' (w64 (E - 8)) = load64 m (w64 (E - 8))"
proof (rule touch_load [OF assms(3)])
  have E: "E \<le> 2 ^ 63" "32 \<le> E"
    using geom_E [OF assms(1)] by simp_all
  then show "E - 8 + 8 \<le> 2 ^ 64" by simp
  fix a assume "E - 8 \<le> a" "a < E - 8 + 8"
  with geom_links_below [OF assms(1,2), of a] show "a \<notin> {LL..<LL + 8} \<union> links fl"
    by auto
qed

text \<open>Writing a boundary tag of a block of the chain changes that tag only, and no link.\<close>

lemma hdr_store:
  assumes "geom LL E bl" "(b, sz, a) \<in> set bl" "y \<in> set bl"
  shows "hdr_ok (store64 m (w64 (b - 8)) v) y =
           (if y = (b, sz, a) then v = PACK (w64 sz) (flag a) else hdr_ok m y)"
    and "ftr_ok (store64 m (w64 (b - 8)) v) y = ftr_ok m y"
proof -
  obtain b' sz' a' where y: "y = (b', sz', a')"
    by (cases y)
  note g = geom_mem [OF assms(1,2)] geom_mem [OF assms(1) assms(3) [unfolded y]]
  note d = geom_disj [OF assms(1,2) assms(3) [unfolded y]]
  show "hdr_ok (store64 m (w64 (b - 8)) v) y =
           (if y = (b, sz, a) then v = PACK (w64 sz) (flag a) else hdr_ok m y)"
  proof (cases "y = (b, sz, a)")
    case True
    then show ?thesis
      by (auto simp: hdr_ok_def load64_store64_same)
  next
    case False
    with d y have far: "b + sz \<le> b' \<or> b' + sz' \<le> b" by auto
    with g have "load64 (store64 m (w64 (b - 8)) v) (w64 (b' - 8)) = load64 m (w64 (b' - 8))"
      by (intro load64_store64_far) auto
    moreover from far g have "b' \<noteq> b" by auto
    ultimately show ?thesis
      by (simp add: y hdr_ok_def)
  qed
  have "load64 (store64 m (w64 (b - 8)) v) (w64 (b' + sz' - 16)) = load64 m (w64 (b' + sz' - 16))"
    using g d by (intro load64_store64_far) auto
  then show "ftr_ok (store64 m (w64 (b - 8)) v) y = ftr_ok m y"
    by (simp add: y ftr_ok_def)
qed

lemma ftr_store:
  assumes "geom LL E bl" "(b, sz, a) \<in> set bl" "y \<in> set bl"
  shows "ftr_ok (store64 m (w64 (b + sz - 16)) v) y =
           (if y = (b, sz, a) then v = PACK (w64 sz) (flag a) else ftr_ok m y)"
    and "hdr_ok (store64 m (w64 (b + sz - 16)) v) y = hdr_ok m y"
proof -
  obtain b' sz' a' where y: "y = (b', sz', a')"
    by (cases y)
  note g = geom_mem [OF assms(1,2)] geom_mem [OF assms(1) assms(3) [unfolded y]]
  note d = geom_disj [OF assms(1,2) assms(3) [unfolded y]]
  show "ftr_ok (store64 m (w64 (b + sz - 16)) v) y =
           (if y = (b, sz, a) then v = PACK (w64 sz) (flag a) else ftr_ok m y)"
  proof (cases "y = (b, sz, a)")
    case True
    then show ?thesis
      by (auto simp: ftr_ok_def load64_store64_same)
  next
    case False
    with d y have far: "b + sz \<le> b' \<or> b' + sz' \<le> b" by auto
    with g have "load64 (store64 m (w64 (b + sz - 16)) v) (w64 (b' + sz' - 16))
        = load64 m (w64 (b' + sz' - 16))"
      by (intro load64_store64_far) auto
    moreover from far g have "b' \<noteq> b" by auto
    ultimately show ?thesis
      by (simp add: y ftr_ok_def)
  qed
  have "load64 (store64 m (w64 (b + sz - 16)) v) (w64 (b' - 8)) = load64 m (w64 (b' - 8))"
    using g d by (intro load64_store64_far) auto
  then show "hdr_ok (store64 m (w64 (b + sz - 16)) v) y = hdr_ok m y"
    by (simp add: y hdr_ok_def)
qed

lemma tag_store_epilogue:
  assumes "geom LL E bl" "(b, sz, a) \<in> set bl"
  shows "load64 (store64 m (w64 (b - 8)) v) (w64 (E - 8)) = load64 m (w64 (E - 8))"
    and "load64 (store64 m (w64 (b + sz - 16)) v) (w64 (E - 8)) = load64 m (w64 (E - 8))"
proof -
  note g = geom_mem [OF assms]
  show "load64 (store64 m (w64 (b - 8)) v) (w64 (E - 8)) = load64 m (w64 (E - 8))"
    using g by (intro load64_store64_far; simp; arith)
  show "load64 (store64 m (w64 (b + sz - 16)) v) (w64 (E - 8)) = load64 m (w64 (E - 8))"
    using g by (intro load64_store64_far; simp; arith)
qed

lemma linked_touch:
  assumes "touch W m m'" "W \<inter> ({LL..<LL + 8} \<union> links fl) = {}" "\<forall>b\<in>set fl. b + 16 \<le> 2 ^ 64"
    "LL + 8 \<le> 2 ^ 64"
  shows "linked m' LL fl = linked m LL fl"
proof -
  have "load64 m' (w64 LL) = load64 m (w64 LL)"
    using assms(2,4) by (intro touch_load [OF assms(1)]) auto
  moreover have "W \<inter> links fl = {}"
    using assms(2) by auto
  ultimately show ?thesis
    by (simp add: linked_def seg_touch [OF assms(1) _ assms(3)])
qed

lemma linked_tag_store:
  assumes "geom LL E bl" "nodes_in bl fl" "(b, sz, a) \<in> set bl"
  shows "linked (store64 m (w64 (b - 8)) v) LL fl = linked m LL fl"
    and "linked (store64 m (w64 (b + sz - 16)) v) LL fl = linked m LL fl"
proof -
  note g = geom_mem [OF assms(1,3)]
  have "b + 16 \<le> 2 ^ 64" if "b \<in> set fl" for b
    using nodes_in_mem [OF assms(1,2) that] by simp
  moreover have "LL + 8 \<le> 2 ^ 64"
    using g by simp
  ultimately have bnd: "\<forall>b\<in>set fl. b + 16 \<le> 2 ^ 64" "LL + 8 \<le> 2 ^ 64"
    by blast+
  have sub: "{b - 8..<b} \<union> {b + sz - 16..<b + sz - 8} \<subseteq> tag_bytes bl"
    using assms(3) by (auto simp: tag_bytes_def)
  have off: "({LL..<LL + 8} \<union> links fl) \<inter> tag_bytes bl = {}"
    by (rule geom_links_off [OF assms(1,2)])
  show "linked (store64 m (w64 (b - 8)) v) LL fl = linked m LL fl"
  proof (rule linked_touch [OF touch_store _ bnd])
    show "b - 8 + 8 \<le> 2 ^ 64" using g by simp
    show "{b - 8..<b - 8 + 8} \<inter> ({LL..<LL + 8} \<union> links fl) = {}"
      using sub off g by auto
  qed
  show "linked (store64 m (w64 (b + sz - 16)) v) LL fl = linked m LL fl"
  proof (rule linked_touch [OF touch_store _ bnd])
    show "b + sz - 16 + 8 \<le> 2 ^ 64" using g by (simp; arith)
    have "{b + sz - 16..<b + sz - 16 + 8} = {b + sz - 16..<b + sz - 8}"
      using g by auto
    then show "{b + sz - 16..<b + sz - 16 + 8} \<inter> ({LL..<LL + 8} \<union> links fl) = {}"
      using sub off by auto
  qed
qed

lemma GET_SIZE_hdr:
  assumes "arena s LL E" "hdr_ok (mem s) (b, sz, a)" "16 dvd sz" "LL + 8 \<le> b" "b \<le> E"
  shows "GET_SIZE s (w64 (b - 8)) = Some (w64 sz)"
  using assms by (simp add: GET_SIZE_def GET_ok [where LL = LL and E = E] hdr_ok_def size_of_PACK')

lemma GET_ALLOC_hdr:
  assumes "arena s LL E" "hdr_ok (mem s) (b, sz, a)" "16 dvd sz" "LL + 8 \<le> b" "b \<le> E"
  shows "GET_ALLOC s (w64 (b - 8)) = Some (flag a)"
  using assms by (simp add: GET_ALLOC_def GET_ok [where LL = LL and E = E] hdr_ok_def alloc_of_PACK)

lemma GET_SIZE_ftr:
  assumes "arena s LL E" "ftr_ok (mem s) (b, sz, a)" "16 dvd sz" "LL + 16 \<le> b + sz" "b + sz \<le> E + 8"
  shows "GET_SIZE s (w64 (b + sz - 16)) = Some (w64 sz)"
  using assms by (simp add: GET_SIZE_def GET_ok [where LL = LL and E = E] ftr_ok_def size_of_PACK')

lemma chain_total: "chain k bl e \<Longrightarrow> 16 dvd (e - k) \<and> k \<le> e"
proof (induction bl arbitrary: k)
  case Nil
  then show ?case by simp
next
  case (Cons x bl)
  obtain b sz a where x: "x = (b, sz, a)"
    by (cases x)
  from Cons.prems x have c: "16 dvd sz" "chain (k + sz) bl e"
    by simp_all
  from Cons.IH [OF c(2)] have "16 dvd (e - (k + sz))" "k + sz \<le> e"
    by simp_all
  from this(1) c(1) have "16 dvd (e - (k + sz) + sz)"
    by (rule dvd_add)
  moreover from \<open>k + sz \<le> e\<close> have "e - (k + sz) + sz = e - k"
    by simp
  ultimately show ?case
    using \<open>k + sz \<le> e\<close> by simp
qed

lemma geom_split3:
  assumes "geom LL E (pre @ mid @ post)" "pre \<noteq> []"
  obtains k1 k2 where "chain (LL + 16) pre k1" "chain k1 mid k2" "chain k2 post E"
    "LL + 32 \<le> k1" "\<forall>x\<in>set (mid @ post). 32 \<le> fst (snd x)"
proof -
  from assms(1) have c: "chain (LL + 16) (pre @ mid @ post) E"
    and h: "hd (pre @ mid @ post) = (LL + 16, 16, True)"
    and t: "\<forall>x\<in>set (tl (pre @ mid @ post)). 32 \<le> fst (snd x)"
    by (simp_all add: geom_def)
  from c obtain k1 k2 where k: "chain (LL + 16) pre k1" "chain k1 mid k2" "chain k2 post E"
    by (auto simp: chain_append)
  from assms(2) h obtain r where pre: "pre = (LL + 16, 16, True) # r"
    by (cases pre) auto
  with k(1) have "chain (LL + 16 + 16) r k1"
    by simp
  from chain_le [OF this] have "LL + 32 \<le> k1"
    by simp
  moreover from t pre have "\<forall>x\<in>set (mid @ post). 32 \<le> fst (snd x)"
    by simp
  ultimately show ?thesis
    using k that by blast
qed

lemma geom_replace:
  assumes g: "geom LL E (pre @ mid @ post)" and pre: "pre \<noteq> []"
    and k: "chain (LL + 16) pre k1" "chain k1 mid k2"
    and new: "chain k1 new k2" "\<forall>x\<in>set new. 32 \<le> fst (snd x)"
  shows "geom LL E (pre @ new @ post)"
proof -
  from g have c: "chain (LL + 16) (pre @ mid @ post) E"
    and h: "hd (pre @ mid @ post) = (LL + 16, 16, True)"
    and t: "\<forall>x\<in>set (tl (pre @ mid @ post)). 32 \<le> fst (snd x)"
    and E: "E \<le> 2 ^ 63"
    by (simp_all add: geom_def)
  from c obtain j1 j2 where j: "chain (LL + 16) pre j1" "chain j1 mid j2" "chain j2 post E"
    by (auto simp: chain_append)
  have det: "\<And>n bl e e'. chain n bl e \<Longrightarrow> chain n bl e' \<Longrightarrow> e = e'"
  proof -
    fix n bl e e' show "chain n bl e \<Longrightarrow> chain n bl e' \<Longrightarrow> e = e'"
      by (induction bl arbitrary: n) auto
  qed
  from det [OF j(1) k(1)] have "j1 = k1" .
  with det [OF _ k(2)] j(2) have "j2 = k2" by blast
  with j k new have "chain (LL + 16) (pre @ new @ post) E"
    by (auto simp: chain_append)
  moreover from pre h have "hd (pre @ new @ post) = (LL + 16, 16, True)"
    by simp
  moreover from pre t new(2) have "\<forall>x\<in>set (tl (pre @ new @ post)). 32 \<le> fst (snd x)"
    by auto
  ultimately show ?thesis
    using pre E by (simp add: geom_def)
qed

lemma geom_extend:
  assumes "geom LL E bl" "32 \<le> sz" "16 dvd sz" "E + sz \<le> 2 ^ 63"
  shows "geom LL (E + sz) (bl @ [(E, sz, a)])"
  using assms by (auto simp: geom_def chain_append)

lemma retag:
  assumes g: "geom LL E bl" and x: "(b, sz, a) \<in> set bl" and G: "set G \<subseteq> set bl"
    and tg: "tagged m G"
  shows "tagged (store64 (store64 m (w64 (b - 8)) (PACK (w64 sz) (flag a))) (w64 (b + sz - 16))
           (PACK (w64 sz) (flag a))) ((b, sz, a) # G)"
  unfolding tagged_def
proof
  fix y assume "y \<in> set ((b, sz, a) # G)"
  then have y: "y \<in> set bl" and yG: "y = (b, sz, a) \<or> hdr_ok m y \<and> ftr_ok m y"
    using x G tg by (auto simp: tagged_def)
  let ?V = "PACK (w64 sz) (flag a)"
  let ?m1 = "store64 m (w64 (b - 8)) ?V"
  let ?m2 = "store64 ?m1 (w64 (b + sz - 16)) ?V"
  have "hdr_ok ?m2 y = hdr_ok ?m1 y"
    by (rule ftr_store(2) [OF g x y])
  also have "\<dots> = (if y = (b, sz, a) then True else hdr_ok m y)"
    by (simp add: hdr_store(1) [OF g x y])
  finally have 1: "hdr_ok ?m2 y"
    using yG by auto
  have "ftr_ok ?m2 y = (if y = (b, sz, a) then True else ftr_ok ?m1 y)"
    by (simp add: ftr_store(1) [OF g x y])
  also have "ftr_ok ?m1 y = ftr_ok m y"
    by (rule hdr_store(2) [OF g x y])
  finally have 2: "ftr_ok ?m2 y"
    using yG by auto
  from 1 2 show "hdr_ok ?m2 y \<and> ftr_ok ?m2 y" ..
qed

lemma FTRP_ok:
  assumes "arena s LL E" "hdr_ok (mem s) (b, sz, a)" "16 dvd sz" "16 \<le> sz" "LL + 8 \<le> b" "b + sz \<le> E"
  shows "FTRP s (w64 b) = Some (w64 (b + sz - 16))"
proof -
  have E: "E \<le> 2 ^ 63"
    using assms(1) by (simp add: arena_def)
  have "GET_SIZE s (HDRP (w64 b)) = Some (w64 sz)"
    using assms by (simp add: HDRP_w64 GET_SIZE_hdr [where LL = LL and E = E])
  moreover have "w64 sz - 16 = w64 (sz - 16)"
    using assms(4) by (simp add: w64_sub_unat)
  moreover have "unat (w64 (sz - 16)) = sz - 16"
    using assms(6) E by (intro unat_w64) simp
  moreover have "b + (sz - 16) = b + sz - 16"
    using assms(4) by simp
  ultimately show ?thesis
    by (simp add: FTRP_def PADD_w64)
qed

lemma NEXT_BLKP_ok:
  assumes "arena s LL E" "hdr_ok (mem s) (b, sz, a)" "16 dvd sz" "LL + 8 \<le> b" "b + sz \<le> E"
  shows "NEXT_BLKP s (w64 b) = Some (w64 (b + sz))"
proof -
  have E: "E \<le> 2 ^ 63"
    using assms(1) by (simp add: arena_def)
  have "GET_SIZE s (HDRP (w64 b)) = Some (w64 sz)"
    using assms by (simp add: HDRP_w64 GET_SIZE_hdr [where LL = LL and E = E])
  moreover have "unat (w64 sz) = sz"
    using assms(5) E by (intro unat_w64) simp
  ultimately show ?thesis
    by (simp add: NEXT_BLKP_def PADD_w64)
qed

lemma PREV_BLKP_ok:
  assumes "arena s LL E" "ftr_ok (mem s) (p, psz, pa)" "16 dvd psz" "16 \<le> psz" "LL + 16 \<le> p"
    "p + psz \<le> E"
  shows "PREV_BLKP s (w64 (p + psz)) = Some (w64 p)"
proof -
  have E: "E \<le> 2 ^ 63"
    using assms(1) by (simp add: arena_def)
  have "PSUB (w64 (p + psz)) 16 = w64 (p + psz - 16)"
    using assms(4) by (simp add: PSUB_w64)
  moreover have "GET_SIZE s (w64 (p + psz - 16)) = Some (w64 psz)"
    using assms by (intro GET_SIZE_ftr [where LL = LL and E = E]) simp_all
  moreover have "unat (w64 psz) = psz"
    using assms(6) E by (intro unat_w64) simp
  ultimately show ?thesis
    by (simp add: PREV_BLKP_def PSUB_w64)
qed

lemma w64_add: "w64 a + w64 b = w64 (a + b)"
  by (simp add: w64_def)

lemma PACK_size: "16 dvd n \<Longrightarrow> PACK (w64 n) 0 AND - 16 = w64 n"
  "16 dvd n \<Longrightarrow> PACK (w64 n) 1 AND - 16 = w64 n"
  using size_of_PACK' [of n False] size_of_PACK' [of n True] by (simp_all add: flag_def)

definition nxt_of :: "nat \<Rightarrow> block list \<Rightarrow> block" where
  "nxt_of E post = (case post of [] \<Rightarrow> (E, 0, True) | x # _ \<Rightarrow> x)"

lemma coalesce_unfold:
  assumes b0: "w64 B \<noteq> 0" and hB: "HDRP (w64 B) = w64 (B - 8)"
    and F: "FTRP s (w64 B) = Some (w64 (B + sz - 16))"
    and Pv: "PREV_BLKP s (w64 B) = Some (w64 P)" and hP: "HDRP (w64 P) = w64 (P - 8)"
    and Nx: "NEXT_BLKP s (w64 B) = Some (w64 N)"
    and NF: "FTRP s (w64 N) = Some nfp"
    and AP: "GET_ALLOC s (w64 (P - 8)) = Some (flag pa)"
    and AN: "GET_ALLOC s (HDRP (w64 N)) = Some (flag na)"
  shows "coalesce (w64 B) s =
    (if \<not> na \<and> \<not> pa then do {
         s1 \<leftarrow> remove_node (w64 N) s;
         s2 \<leftarrow> remove_node (w64 B) s1;
         a \<leftarrow> GET_SIZE s2 (w64 (P - 8));
         b \<leftarrow> GET_SIZE s2 (w64 (B - 8));
         c \<leftarrow> GET_SIZE s2 nfp;
         s3 \<leftarrow> PUT (w64 (P - 8)) (PACK (a + b + c) 0) s2;
         d \<leftarrow> GET_SIZE s3 (w64 (P - 8));
         s4 \<leftarrow> PUT nfp (PACK d 0) s3;
         r \<leftarrow> PREV_BLKP s4 (w64 B);
         Some (r, s4) }
     else if \<not> pa then do {
         s1 \<leftarrow> remove_node (w64 B) s;
         a \<leftarrow> GET_SIZE s1 (w64 (P - 8));
         b \<leftarrow> GET_SIZE s1 (w64 (B - 8));
         s2 \<leftarrow> PUT (w64 (P - 8)) (PACK (a + b) 0) s1;
         d \<leftarrow> GET_SIZE s2 (w64 (P - 8));
         s3 \<leftarrow> PUT (w64 (B + sz - 16)) (PACK d 0) s2;
         r \<leftarrow> PREV_BLKP s3 (w64 B);
         Some (r, s3) }
     else if \<not> na then do {
         s1 \<leftarrow> remove_node (w64 N) s;
         b \<leftarrow> GET_SIZE s1 (w64 (B - 8));
         c \<leftarrow> GET_SIZE s1 nfp;
         s2 \<leftarrow> PUT (w64 (B - 8)) (PACK (b + c) 0) s1;
         d \<leftarrow> GET_SIZE s2 (w64 (B - 8));
         s3 \<leftarrow> PUT nfp (PACK d 0) s2;
         Some (w64 B, s3) }
     else Some (w64 B, s))"
  using b0 by (simp add: coalesce_def Let_def hB F Pv hP Nx NF AP AN flag_eq_0)

text \<open>A block of the heap that is not the prologue, with its two neighbours.\<close>

lemma nbhd:
  assumes lay: "layout s LL E bl fl" and bl: "bl = pre @ (P, psz, pa) # (B, sz, a) # post"
    and nx: "nxt_of E post = (N, nsz, na)"
  shows "P + psz = B" "N = B + sz" "LL + 16 \<le> P" "B + sz \<le> E" "16 \<le> psz" "16 dvd psz"
    "32 \<le> sz" "16 dvd sz" "16 dvd nsz" "hdr_ok (mem s) (N, nsz, na)" "E \<le> 2 ^ 63"
    "hdr_ok (mem s) (P, psz, pa)" "ftr_ok (mem s) (P, psz, pa)"
    "hdr_ok (mem s) (B, sz, a)" "ftr_ok (mem s) (B, sz, a)" "arena s LL E"
    "chain (LL + 16) pre P" "chain N post E" "\<not> na \<Longrightarrow> post \<noteq> [] \<and> hd post = (N, nsz, False) \<and> 32 \<le> nsz \<and> N + nsz \<le> E"
    "\<not> pa \<Longrightarrow> pre \<noteq> [] \<and> 32 \<le> psz"
proof -
  from lay have g: "geom LL E bl" and tg: "tagged (mem s) bl" and ar: "arena s LL E"
    and ep: "load64 (mem s) (w64 (E - 8)) = PACK 0 1"
    by (simp_all add: layout_def)
  from g have c: "chain (LL + 16) bl E" and E: "E \<le> 2 ^ 63"
    and h: "hd bl = (LL + 16, 16, True)" and t: "\<forall>x\<in>set (tl bl). 32 \<le> fst (snd x)"
    by (simp_all add: geom_def)
  from c bl obtain k where k: "chain (LL + 16) pre k" "chain k ((P, psz, pa) # (B, sz, a) # post) E"
    by (auto simp: chain_append)
  then have k': "k = P" "16 \<le> psz" "16 dvd psz" "B = P + psz" "16 \<le> sz" "16 dvd sz"
    "chain (B + sz) post E"
    by simp_all
  have mP: "(P, psz, pa) \<in> set bl" and mB: "(B, sz, a) \<in> set bl"
    using bl by simp_all
  have "(B, sz, a) \<in> set (tl bl)"
    using bl by (cases pre) simp_all
  with t have sz: "32 \<le> sz" by fastforce
  have NE: "N = B + sz \<and> 16 dvd nsz \<and> hdr_ok (mem s) (N, nsz, na)
      \<and> (\<not> na \<longrightarrow> post \<noteq> [] \<and> hd post = (N, nsz, False) \<and> 32 \<le> nsz \<and> N + nsz \<le> E)"
  proof (cases post)
    case Nil
    with nx k'(7) ep show ?thesis
      by (simp add: nxt_of_def hdr_ok_def w64_0 flag_def)
  next
    case (Cons x post')
    with nx have x: "x = (N, nsz, na)"
      by (simp add: nxt_of_def)
    with Cons k'(7) have n: "N = B + sz" "16 dvd nsz"
      by simp_all
    have m: "(N, nsz, na) \<in> set bl"
      using bl Cons x by simp
    have "(N, nsz, na) \<in> set (tl bl)"
      using bl Cons x by (cases pre) simp_all
    with t have "32 \<le> nsz" by fastforce
    with n m tg Cons x geom_mem [OF g m] show ?thesis
      by (auto simp: tagged_def)
  qed
  from NE show "N = B + sz" "16 dvd nsz" "hdr_ok (mem s) (N, nsz, na)"
    by blast+
  show "P + psz = B" "B + sz \<le> E" "16 \<le> psz" "16 dvd psz" "32 \<le> sz" "16 dvd sz"
    "E \<le> 2 ^ 63" "arena s LL E" "LL + 16 \<le> P"
    using k' sz E ar geom_mem [OF g mB] geom_mem [OF g mP] by simp_all
  show "hdr_ok (mem s) (P, psz, pa)" "ftr_ok (mem s) (P, psz, pa)"
    "hdr_ok (mem s) (B, sz, a)" "ftr_ok (mem s) (B, sz, a)"
    using tg mP mB by (auto simp: tagged_def)
  show "chain (LL + 16) pre P" "chain N post E"
    using k k' NE by simp_all
  show "\<not> na \<Longrightarrow> post \<noteq> [] \<and> hd post = (N, nsz, False) \<and> 32 \<le> nsz \<and> N + nsz \<le> E"
    using NE by simp
  show "\<not> pa \<Longrightarrow> pre \<noteq> [] \<and> 32 \<le> psz"
  proof -
    assume pa: "\<not> pa"
    have "pre \<noteq> []"
    proof
      assume "pre = []"
      with bl h pa show False by simp
    qed
    then have "(P, psz, pa) \<in> set (tl bl)"
      using bl by (cases pre) simp_all
    with t \<open>pre \<noteq> []\<close> show ?thesis by fastforce
  qed
qed

lemma coalesce_start:
  assumes lay: "layout s LL E bl fl" and bl: "bl = pre @ (P, psz, pa) # (B, sz, a) # post"
    and nx: "nxt_of E post = (N, nsz, na)"
  shows "\<exists>nfp. (16 \<le> nsz \<longrightarrow> nfp = w64 (N + nsz - 16)) \<and> coalesce (w64 B) s =
    (if \<not> na \<and> \<not> pa then do {
         s1 \<leftarrow> remove_node (w64 N) s;
         s2 \<leftarrow> remove_node (w64 B) s1;
         a \<leftarrow> GET_SIZE s2 (w64 (P - 8));
         b \<leftarrow> GET_SIZE s2 (w64 (B - 8));
         c \<leftarrow> GET_SIZE s2 nfp;
         s3 \<leftarrow> PUT (w64 (P - 8)) (PACK (a + b + c) 0) s2;
         d \<leftarrow> GET_SIZE s3 (w64 (P - 8));
         s4 \<leftarrow> PUT nfp (PACK d 0) s3;
         r \<leftarrow> PREV_BLKP s4 (w64 B);
         Some (r, s4) }
     else if \<not> pa then do {
         s1 \<leftarrow> remove_node (w64 B) s;
         a \<leftarrow> GET_SIZE s1 (w64 (P - 8));
         b \<leftarrow> GET_SIZE s1 (w64 (B - 8));
         s2 \<leftarrow> PUT (w64 (P - 8)) (PACK (a + b) 0) s1;
         d \<leftarrow> GET_SIZE s2 (w64 (P - 8));
         s3 \<leftarrow> PUT (w64 (B + sz - 16)) (PACK d 0) s2;
         r \<leftarrow> PREV_BLKP s3 (w64 B);
         Some (r, s3) }
     else if \<not> na then do {
         s1 \<leftarrow> remove_node (w64 N) s;
         b \<leftarrow> GET_SIZE s1 (w64 (B - 8));
         c \<leftarrow> GET_SIZE s1 nfp;
         s2 \<leftarrow> PUT (w64 (B - 8)) (PACK (b + c) 0) s1;
         d \<leftarrow> GET_SIZE s2 (w64 (B - 8));
         s3 \<leftarrow> PUT nfp (PACK d 0) s2;
         Some (w64 B, s3) }
     else Some (w64 B, s))"
proof -
  note n = nbhd [OF lay bl nx]
  let ?nfp = "PADD (w64 N) (w64 nsz - 16)"
  have b0: "w64 B \<noteq> 0"
    using n by (simp add: w64_eq_0_iff)
  have hB: "HDRP (w64 B) = w64 (B - 8)" and hP: "HDRP (w64 P) = w64 (P - 8)"
    and hN: "HDRP (w64 N) = w64 (N - 8)"
    using n by (simp_all add: HDRP_w64)
  have F: "FTRP s (w64 B) = Some (w64 (B + sz - 16))"
    using n by (intro FTRP_ok [where LL = LL and E = E and a = a]) simp_all
  have "PREV_BLKP s (w64 (P + psz)) = Some (w64 P)"
    using n by (intro PREV_BLKP_ok [where LL = LL and E = E and pa = pa]) simp_all
  then have Pv: "PREV_BLKP s (w64 B) = Some (w64 P)"
    using n by simp
  have "NEXT_BLKP s (w64 B) = Some (w64 (B + sz))"
    using n by (intro NEXT_BLKP_ok [where LL = LL and E = E and a = a]) simp_all
  then have Nx: "NEXT_BLKP s (w64 B) = Some (w64 N)"
    using n by simp
  have gN: "GET_SIZE s (w64 (N - 8)) = Some (w64 nsz)"
    using n by (intro GET_SIZE_hdr [where LL = LL and E = E and a = na]) simp_all
  then have NF: "FTRP s (w64 N) = Some ?nfp"
    by (simp add: FTRP_def hN)
  have AP: "GET_ALLOC s (w64 (P - 8)) = Some (flag pa)"
    using n by (intro GET_ALLOC_hdr [where LL = LL and E = E and sz = psz]) simp_all
  have AN: "GET_ALLOC s (HDRP (w64 N)) = Some (flag na)"
    unfolding hN using n by (intro GET_ALLOC_hdr [where LL = LL and E = E and sz = nsz]) simp_all
  have "?nfp = w64 (N + nsz - 16)" if "16 \<le> nsz"
  proof -
    have "w64 nsz - 16 = w64 (nsz - 16)"
      using that by (simp add: w64_sub_unat)
    moreover have "nsz \<le> 2 ^ 63"
    proof (cases post)
      case Nil
      with nx show ?thesis by (simp add: nxt_of_def)
    next
      case (Cons x post')
      with nx bl have "(N, nsz, na) \<in> set bl" by (simp add: nxt_of_def)
      with lay geom_mem [of LL E bl N nsz na] show ?thesis by (simp add: layout_def)
    qed
    then have "unat (w64 (nsz - 16)) = nsz - 16"
      by (intro unat_w64) simp
    ultimately show ?thesis
      using that by (simp add: PADD_w64)
  qed
  with coalesce_unfold [OF b0 hB F Pv hP Nx NF AP AN] show ?thesis
    by blast
qed

lemma layout_parts:
  assumes "layout s LL E bl fl"
  shows "arena s LL E" "geom LL E bl" "tagged (mem s) bl" "load64 (mem s) (w64 (E - 8)) = PACK 0 1"
    "linked (mem s) LL fl" "distinct fl" "set fl = set (free_addrs bl)" "nodes_in bl fl"
    "nodes_ok LL E fl"
proof -
  show p: "arena s LL E" "geom LL E bl" "tagged (mem s) bl" "load64 (mem s) (w64 (E - 8)) = PACK 0 1"
    "linked (mem s) LL fl" "distinct fl" "set fl = set (free_addrs bl)"
    using assms by (simp_all add: layout_def)
  show n: "nodes_in bl fl"
    using p by (intro free_nodes_in [where LL = LL and E = E]) simp_all
  show "nodes_ok LL E fl"
    using p n by (intro geom_nodes_ok [where bl = bl]) simp_all
qed

lemma touch_store2:
  "touch W m m1 \<Longrightarrow> P + 8 \<le> 2 ^ 64 \<Longrightarrow> touch (W \<union> {P..<P + 8}) m (store64 m1 (w64 P) v)"
  by (rule touch_trans [OF _ touch_store])

lemma coalesce_none:
  assumes lay: "layout s LL E bl fl" and bl: "bl = pre @ (P, psz, True) # (B, sz, a) # post"
    and nx: "nxt_of E post = (N, nsz, True)"
  shows "coalesce (w64 B) s = Some (w64 B, s)"
  using coalesce_start [OF lay bl nx] by auto

lemma free_addrs_distinct:
  assumes "chain n bl e"
  shows "distinct (free_addrs bl)"
  using chain_distinct [OF assms] unfolding free_addrs_def
  by (simp add: distinct_map_filter)

lemma coalesce_prev:
  assumes lay: "layout s LL E bl fl" and bl: "bl = pre @ (P, psz, False) # (B, sz, False) # post"
    and nx: "nxt_of E post = (N, nsz, True)"
  shows "\<exists>m'. coalesce (w64 B) s = Some (w64 P, s\<lparr>mem := m'\<rparr>)
     \<and> layout (s\<lparr>mem := m'\<rparr>) LL E (pre @ (P, psz + sz, False) # post) (remove1 B fl)
     \<and> touch ({LL..<LL + 8} \<union> links fl \<union> {P - 8..<B + sz - 8}) (mem s) m'"
proof -
  note n = nbhd [OF lay bl nx]
  note p = layout_parts [OF lay]
  let ?bl' = "pre @ (P, psz + sz, False) # post"
  let ?fl' = "remove1 B fl"
  let ?V = "PACK (w64 (psz + sz)) (flag False)"
  have pre: "pre \<noteq> []" and psz: "32 \<le> psz"
    using n(20) by simp_all
  have Bfl: "B \<in> set fl"
    using p(7) bl by (simp add: free_addrs_iff) blast
  from remove_node_ok [OF p(1) p(5) p(9) Bfl]
  obtain m1 where r1: "remove_node (w64 B) s = Some (s\<lparr>mem := m1\<rparr>)"
    and l1: "linked m1 LL ?fl'" and t1: "touch ({LL..<LL + 8} \<union> links fl) (mem s) m1"
    by blast
  have tg1: "tagged m1 bl"
    by (rule tagged_list_touch [OF p(2) p(8) t1 p(3) subset_refl])
  have ep1: "load64 m1 (w64 (E - 8)) = PACK 0 1"
    using epilogue_list_touch [OF p(2) p(8) t1] p(4) by simp
  let ?s1 = "s\<lparr>mem := m1\<rparr>"
  let ?m2 = "store64 m1 (w64 (P - 8)) ?V"
  let ?m3 = "store64 ?m2 (w64 (P + (psz + sz) - 16)) ?V"
  have ar1: "arena ?s1 LL E"
    using p(1) by simp
  have hP1: "hdr_ok m1 (P, psz, False)" and hB1: "hdr_ok m1 (B, sz, False)"
    and fP1: "ftr_ok m1 (P, psz, False)"
    using tg1 bl by (simp_all add: tagged_def)
  have a: "GET_SIZE ?s1 (w64 (P - 8)) = Some (w64 psz)"
    using n hP1 by (intro GET_SIZE_hdr [where LL = LL and E = E and a = False]) simp_all
  have b: "GET_SIZE ?s1 (w64 (B - 8)) = Some (w64 sz)"
    using n hB1 by (intro GET_SIZE_hdr [where LL = LL and E = E and a = False]) simp_all
  have dv: "16 dvd (psz + sz)"
    using n by (simp add: dvd_add)
  have p2: "PUT (w64 (P - 8)) ?V ?s1 = Some (s\<lparr>mem := ?m2\<rparr>)"
    using n p(1) by (simp add: PUT_ok [where LL = LL and E = E])
  have d: "GET_SIZE (s\<lparr>mem := ?m2\<rparr>) (w64 (P - 8)) = Some (w64 (psz + sz))"
    using n p(1) dv
    by (simp add: GET_SIZE_def GET_ok [where LL = LL and E = E] load64_store64_same size_of_PACK')
  have fa: "B + sz - 16 = P + (psz + sz) - 16"
    using n by simp
  have p3: "PUT (w64 (B + sz - 16)) ?V (s\<lparr>mem := ?m2\<rparr>) = Some (s\<lparr>mem := ?m3\<rparr>)"
    unfolding fa using n p(1) by (simp add: PUT_ok [where LL = LL and E = E])
  have "load64 ?m3 (w64 (P + psz - 16)) = load64 ?m2 (w64 (P + psz - 16))"
    using n(3,4,5,7,11) psz n(1) [symmetric] by (intro load64_store64_far; simp; arith)
  moreover have "load64 ?m2 (w64 (P + psz - 16)) = load64 m1 (w64 (P + psz - 16))"
    using n(3,4,5,7,11) psz n(1) [symmetric] by (intro load64_store64_far; simp; arith)
  ultimately have "load64 ?m3 (w64 (P + psz - 16)) = load64 m1 (w64 (P + psz - 16))"
    by simp
  with fP1 have fP3: "ftr_ok ?m3 (P, psz, False)"
    by (simp add: ftr_ok_def)
  have "PREV_BLKP (s\<lparr>mem := ?m3\<rparr>) (w64 (P + psz)) = Some (w64 P)"
    using n p(1) fP3 by (intro PREV_BLKP_ok [where LL = LL and E = E and pa = False]) simp_all
  then have pv: "PREV_BLKP (s\<lparr>mem := ?m3\<rparr>) (w64 B) = Some (w64 P)"
    using n by simp
  from coalesce_start [OF lay bl nx]
  have res: "coalesce (w64 B) s = Some (w64 P, s\<lparr>mem := ?m3\<rparr>)"
    by (simp add: r1 a b w64_add PACK_flag p2 d p3 pv)
  have g': "geom LL E ?bl'"
  proof -
    have "geom LL E (pre @ [(P, psz + sz, False)] @ post)"
    proof (rule geom_replace [where mid = "[(P, psz, False), (B, sz, False)]"])
      show "geom LL E (pre @ [(P, psz, False), (B, sz, False)] @ post)"
        using p(2) bl by simp
      show "pre \<noteq> []" by (rule pre)
      show "chain (LL + 16) pre P" by (rule n)
      show "chain P [(P, psz, False), (B, sz, False)] (B + sz)"
        using n by simp
      show "chain P [(P, psz + sz, False)] (B + sz)"
        using n dv by simp
      show "\<forall>x\<in>set [(P, psz + sz, False)]. 32 \<le> fst (snd x)"
        using psz by simp
    qed
    then show ?thesis by simp
  qed
  have x: "(P, psz + sz, False) \<in> set ?bl'"
    by simp
  have tg3: "tagged ?m3 ?bl'"
  proof -
    have "tagged m1 (pre @ post)"
      using tg1 bl by (simp add: tagged_def)
    from retag [OF g' x _ this] have "tagged ?m3 ((P, psz + sz, False) # pre @ post)"
      by auto
    then show ?thesis
      by (simp add: tagged_def)
  qed
  have ep3: "load64 ?m3 (w64 (E - 8)) = PACK 0 1"
    using tag_store_epilogue [OF g' x] ep1 by simp
  have sf: "set ?fl' = set (free_addrs ?bl')"
  proof -
    have "distinct (free_addrs bl)"
      using p(2) by (auto simp: geom_def intro: free_addrs_distinct)
    then have "B \<notin> set (free_addrs pre)" "B \<notin> set (free_addrs post)" "B \<noteq> P"
      using bl by (auto simp: free_addrs_append free_addrs_Cons)
    then show ?thesis
      using p(6,7) bl by (auto simp: free_addrs_append free_addrs_Cons)
  qed
  have ni: "nodes_in ?bl' ?fl'"
    using sf by (intro free_nodes_in [OF g']) simp
  have l3: "linked ?m3 LL ?fl'"
    using linked_tag_store [OF g' ni x] l1 by simp
  have lay': "layout (s\<lparr>mem := ?m3\<rparr>) LL E ?bl' ?fl'"
    using p(1,6) g' tg3 ep3 l3 sf by (simp add: layout_def)
  have ta: "touch ({LL..<LL + 8} \<union> links fl \<union> {P - 8..<P - 8 + 8}) (mem s) ?m2"
    using n(3,4,11) n(1) [symmetric] by (intro touch_store2 [OF t1]; simp; arith)
  have "touch ({LL..<LL + 8} \<union> links fl \<union> {P - 8..<P - 8 + 8}
      \<union> {P + (psz + sz) - 16..<P + (psz + sz) - 16 + 8}) (mem s) ?m3"
    using n(3,4,11) n(1) [symmetric] by (intro touch_store2 [OF ta]; simp; arith)
  then have "touch ({LL..<LL + 8} \<union> links fl \<union> {P - 8..<B + sz - 8}) (mem s) ?m3"
  proof (rule touch_mono)
    show "{LL..<LL + 8} \<union> links fl \<union> {P - 8..<P - 8 + 8}
      \<union> {P + (psz + sz) - 16..<P + (psz + sz) - 16 + 8}
      \<subseteq> {LL..<LL + 8} \<union> links fl \<union> {P - 8..<B + sz - 8}"
      using n(3,5,7) psz n(1) [symmetric] by auto
  qed
  with res lay' show ?thesis by blast
qed

lemma nodes_ok_remove1: "nodes_ok LL E fl \<Longrightarrow> nodes_ok LL E (remove1 b fl)"
  unfolding nodes_ok_def by (auto dest: notin_set_remove1)

lemma nodes_in_remove1: "nodes_in bl fl \<Longrightarrow> nodes_in bl (remove1 b fl)"
  unfolding nodes_in_def by (auto dest: notin_set_remove1)

lemma links_remove1: "links (remove1 b fl) \<subseteq> links fl"
  by (rule links_mono) (rule set_remove1_subset)

lemma coalesce_next:
  assumes lay: "layout s LL E bl fl"
    and bl: "bl = pre @ (P, psz, True) # (B, sz, False) # (N, nsz, False) # post"
  shows "\<exists>m'. coalesce (w64 B) s = Some (w64 B, s\<lparr>mem := m'\<rparr>)
     \<and> layout (s\<lparr>mem := m'\<rparr>) LL E (pre @ (P, psz, True) # (B, sz + nsz, False) # post)
          (remove1 N fl)
     \<and> touch ({LL..<LL + 8} \<union> links fl \<union> {B - 8..<N + nsz - 8}) (mem s) m'"
proof -
  have nx: "nxt_of E ((N, nsz, False) # post) = (N, nsz, False)"
    by (simp add: nxt_of_def)
  note n = nbhd [OF lay bl nx]
  note p = layout_parts [OF lay]
  let ?bl' = "pre @ (P, psz, True) # (B, sz + nsz, False) # post"
  let ?fl' = "remove1 N fl"
  let ?V = "PACK (w64 (sz + nsz)) (flag False)"
  have nsz: "32 \<le> nsz" "N + nsz \<le> E"
    using n(19) by simp_all
  note ar = n(3,4,7,11) nsz n(1) [symmetric] n(2)
  have mN: "(N, nsz, False) \<in> set bl"
    using bl by simp
  have Nfl: "N \<in> set fl"
    using p(7) mN by (simp add: free_addrs_iff) blast
  from remove_node_ok [OF p(1) p(5) p(9) Nfl]
  obtain m1 where r1: "remove_node (w64 N) s = Some (s\<lparr>mem := m1\<rparr>)"
    and l1: "linked m1 LL ?fl'" and t1: "touch ({LL..<LL + 8} \<union> links fl) (mem s) m1"
    by blast
  have tg1: "tagged m1 bl"
    by (rule tagged_list_touch [OF p(2) p(8) t1 p(3) subset_refl])
  have ep1: "load64 m1 (w64 (E - 8)) = PACK 0 1"
    using epilogue_list_touch [OF p(2) p(8) t1] p(4) by simp
  let ?s1 = "s\<lparr>mem := m1\<rparr>"
  let ?m2 = "store64 m1 (w64 (B - 8)) ?V"
  let ?m3 = "store64 ?m2 (w64 (B + (sz + nsz) - 16)) ?V"
  have hB1: "hdr_ok m1 (B, sz, False)" and fN1: "ftr_ok m1 (N, nsz, False)"
    using tg1 bl by (simp_all add: tagged_def)
  have b: "GET_SIZE ?s1 (w64 (B - 8)) = Some (w64 sz)"
    using n hB1 by (intro GET_SIZE_hdr [where LL = LL and E = E and a = False]) simp_all
  have c: "GET_SIZE ?s1 (w64 (N + nsz - 16)) = Some (w64 nsz)"
    using n nsz fN1 p(1) by (intro GET_SIZE_ftr [where LL = LL and E = E and a = False]) simp_all
  have dv: "16 dvd (sz + nsz)"
    using n by (simp add: dvd_add)
  have p2: "PUT (w64 (B - 8)) ?V ?s1 = Some (s\<lparr>mem := ?m2\<rparr>)"
    using ar p(1) by (simp add: PUT_ok [where LL = LL and E = E])
  have d: "GET_SIZE (s\<lparr>mem := ?m2\<rparr>) (w64 (B - 8)) = Some (w64 (sz + nsz))"
    using ar p(1) dv
    by (simp add: GET_SIZE_def GET_ok [where LL = LL and E = E] load64_store64_same size_of_PACK')
  have fa: "N + nsz - 16 = B + (sz + nsz) - 16"
    using ar by simp
  have p3: "PUT (w64 (N + nsz - 16)) ?V (s\<lparr>mem := ?m2\<rparr>) = Some (s\<lparr>mem := ?m3\<rparr>)"
    unfolding fa using ar p(1) by (simp add: PUT_ok [where LL = LL and E = E])
  from coalesce_start [OF lay bl nx] nsz
  have res: "coalesce (w64 B) s = Some (w64 B, s\<lparr>mem := ?m3\<rparr>)"
    by (auto simp: r1 b c w64_add PACK_flag p2 d p3)
  have g': "geom LL E ?bl'"
  proof -
    have "geom LL E ((pre @ [(P, psz, True)]) @ [(B, sz + nsz, False)] @ post)"
    proof (rule geom_replace [where mid = "[(B, sz, False), (N, nsz, False)]"])
      show "geom LL E ((pre @ [(P, psz, True)]) @ [(B, sz, False), (N, nsz, False)] @ post)"
        using p(2) bl by simp
      show "pre @ [(P, psz, True)] \<noteq> []" by simp
      show "chain (LL + 16) (pre @ [(P, psz, True)]) B"
        using n by (auto simp: chain_append)
      show "chain B [(B, sz, False), (N, nsz, False)] (N + nsz)"
        using n nsz p(2) mN geom_mem [of LL E bl N nsz False] by simp
      show "chain B [(B, sz + nsz, False)] (N + nsz)"
        using n dv by simp
      show "\<forall>x\<in>set [(B, sz + nsz, False)]. 32 \<le> fst (snd x)"
        using n(7) by simp
    qed
    then show ?thesis by simp
  qed
  have x: "(B, sz + nsz, False) \<in> set ?bl'"
    by simp
  have tg3: "tagged ?m3 ?bl'"
  proof -
    have "tagged m1 (pre @ (P, psz, True) # post)"
      using tg1 bl by (simp add: tagged_def)
    from retag [OF g' x _ this] have "tagged ?m3 ((B, sz + nsz, False) # pre @ (P, psz, True) # post)"
      by auto
    then show ?thesis
      by (simp add: tagged_def)
  qed
  have ep3: "load64 ?m3 (w64 (E - 8)) = PACK 0 1"
    using tag_store_epilogue [OF g' x] ep1 by simp
  have sf: "set ?fl' = set (free_addrs ?bl')"
  proof -
    have "distinct (free_addrs bl)"
      using p(2) by (auto simp: geom_def intro: free_addrs_distinct)
    then have "N \<notin> set (free_addrs pre)" "N \<notin> set (free_addrs post)" "B \<noteq> N"
      using bl by (auto simp: free_addrs_append free_addrs_Cons)
    then show ?thesis
      using p(6,7) bl by (auto simp: free_addrs_append free_addrs_Cons)
  qed
  have ni: "nodes_in ?bl' ?fl'"
    using sf by (intro free_nodes_in [OF g']) simp
  have l3: "linked ?m3 LL ?fl'"
    using linked_tag_store [OF g' ni x] l1 by simp
  have lay': "layout (s\<lparr>mem := ?m3\<rparr>) LL E ?bl' ?fl'"
    using p(1,6) g' tg3 ep3 l3 sf by (simp add: layout_def)
  have ta: "touch ({LL..<LL + 8} \<union> links fl \<union> {B - 8..<B - 8 + 8}) (mem s) ?m2"
    using ar by (intro touch_store2 [OF t1]; simp; arith)
  have "touch ({LL..<LL + 8} \<union> links fl \<union> {B - 8..<B - 8 + 8}
      \<union> {B + (sz + nsz) - 16..<B + (sz + nsz) - 16 + 8}) (mem s) ?m3"
    using ar by (intro touch_store2 [OF ta]; simp; arith)
  then have "touch ({LL..<LL + 8} \<union> links fl \<union> {B - 8..<N + nsz - 8}) (mem s) ?m3"
  proof (rule touch_mono)
    show "{LL..<LL + 8} \<union> links fl \<union> {B - 8..<B - 8 + 8}
      \<union> {B + (sz + nsz) - 16..<B + (sz + nsz) - 16 + 8}
      \<subseteq> {LL..<LL + 8} \<union> links fl \<union> {B - 8..<N + nsz - 8}"
      using ar by auto
  qed
  with res lay' show ?thesis by blast
qed

lemma coalesce_both:
  assumes lay: "layout s LL E bl fl"
    and bl: "bl = pre @ (P, psz, False) # (B, sz, False) # (N, nsz, False) # post"
  shows "\<exists>m'. coalesce (w64 B) s = Some (w64 P, s\<lparr>mem := m'\<rparr>)
     \<and> layout (s\<lparr>mem := m'\<rparr>) LL E (pre @ (P, psz + sz + nsz, False) # post)
          (remove1 B (remove1 N fl))
     \<and> touch ({LL..<LL + 8} \<union> links fl \<union> {P - 8..<N + nsz - 8}) (mem s) m'
     \<and> load64 m' (w64 (P - 8)) = PACK (w64 (psz + sz + nsz)) 0
     \<and> load64 m' (w64 (N + nsz - 16)) = PACK (w64 (psz + sz + nsz)) 0"
proof -
  have nx: "nxt_of E ((N, nsz, False) # post) = (N, nsz, False)"
    by (simp add: nxt_of_def)
  note n = nbhd [OF lay bl nx]
  note p = layout_parts [OF lay]
  let ?bl' = "pre @ (P, psz + sz + nsz, False) # post"
  let ?fl1 = "remove1 N fl"
  let ?fl' = "remove1 B ?fl1"
  let ?V = "PACK (w64 (psz + sz + nsz)) (flag False)"
  have nsz: "32 \<le> nsz" "N + nsz \<le> E"
    using n(19) by simp_all
  have pre: "pre \<noteq> []" and psz: "32 \<le> psz"
    using n(20) by simp_all
  note ar = n(3,4,7,11) nsz psz n(1) [symmetric] n(2)
  have mN: "(N, nsz, False) \<in> set bl"
    using bl by simp
  have Nfl: "N \<in> set fl"
    using p(7) mN by (simp add: free_addrs_iff) blast
  have "B \<in> set fl"
    using p(7) bl by (simp add: free_addrs_iff) blast
  moreover have "B \<noteq> N"
    using ar by simp
  ultimately have Bfl: "B \<in> set ?fl1"
    by simp
  from remove_node_ok [OF p(1) p(5) p(9) Nfl]
  obtain m0 where r0: "remove_node (w64 N) s = Some (s\<lparr>mem := m0\<rparr>)"
    and l0: "linked m0 LL ?fl1" and t0: "touch ({LL..<LL + 8} \<union> links fl) (mem s) m0"
    by blast
  let ?s0 = "s\<lparr>mem := m0\<rparr>"
  have ar0: "arena ?s0 LL E"
    using p(1) by simp
  from remove_node_ok [OF ar0 _ nodes_ok_remove1 [OF p(9)] Bfl] l0
  obtain m1 where r1: "remove_node (w64 B) ?s0 = Some (s\<lparr>mem := m1\<rparr>)"
    and l1: "linked m1 LL ?fl'" and t01: "touch ({LL..<LL + 8} \<union> links ?fl1) m0 m1"
    by auto
  have t1: "touch ({LL..<LL + 8} \<union> links fl) (mem s) m1"
  proof (rule touch_mono [OF touch_trans [OF t0 t01]])
    show "{LL..<LL + 8} \<union> links fl \<union> ({LL..<LL + 8} \<union> links ?fl1) \<subseteq> {LL..<LL + 8} \<union> links fl"
      using links_remove1 [of N fl] by auto
  qed
  have tg1: "tagged m1 bl"
    by (rule tagged_list_touch [OF p(2) p(8) t1 p(3) subset_refl])
  have ep1: "load64 m1 (w64 (E - 8)) = PACK 0 1"
    using epilogue_list_touch [OF p(2) p(8) t1] p(4) by simp
  let ?s1 = "s\<lparr>mem := m1\<rparr>"
  let ?m2 = "store64 m1 (w64 (P - 8)) ?V"
  let ?m3 = "store64 ?m2 (w64 (P + (psz + sz + nsz) - 16)) ?V"
  have hP1: "hdr_ok m1 (P, psz, False)" and hB1: "hdr_ok m1 (B, sz, False)"
    and fP1: "ftr_ok m1 (P, psz, False)" and fN1: "ftr_ok m1 (N, nsz, False)"
    using tg1 bl by (simp_all add: tagged_def)
  have a: "GET_SIZE ?s1 (w64 (P - 8)) = Some (w64 psz)"
    using n hP1 by (intro GET_SIZE_hdr [where LL = LL and E = E and a = False]) simp_all
  have b: "GET_SIZE ?s1 (w64 (B - 8)) = Some (w64 sz)"
    using n hB1 by (intro GET_SIZE_hdr [where LL = LL and E = E and a = False]) simp_all
  have c: "GET_SIZE ?s1 (w64 (N + nsz - 16)) = Some (w64 nsz)"
    using n nsz fN1 p(1) by (intro GET_SIZE_ftr [where LL = LL and E = E and a = False]) simp_all
  have dv: "16 dvd (psz + sz + nsz)"
    using n by (simp add: dvd_add)
  have p2: "PUT (w64 (P - 8)) ?V ?s1 = Some (s\<lparr>mem := ?m2\<rparr>)"
    using ar p(1) by (simp add: PUT_ok [where LL = LL and E = E])
  have d: "GET_SIZE (s\<lparr>mem := ?m2\<rparr>) (w64 (P - 8)) = Some (w64 (psz + sz + nsz))"
    using ar p(1) dv
    by (simp add: GET_SIZE_def GET_ok [where LL = LL and E = E] load64_store64_same size_of_PACK')
  have fa: "N + nsz - 16 = P + (psz + sz + nsz) - 16"
    using ar by simp
  have p3: "PUT (w64 (N + nsz - 16)) ?V (s\<lparr>mem := ?m2\<rparr>) = Some (s\<lparr>mem := ?m3\<rparr>)"
    unfolding fa using ar p(1) by (simp add: PUT_ok [where LL = LL and E = E])
  have "load64 ?m3 (w64 (P + psz - 16)) = load64 ?m2 (w64 (P + psz - 16))"
    using ar by (intro load64_store64_far; simp; arith)
  moreover have "load64 ?m2 (w64 (P + psz - 16)) = load64 m1 (w64 (P + psz - 16))"
    using ar by (intro load64_store64_far; simp; arith)
  ultimately have "load64 ?m3 (w64 (P + psz - 16)) = load64 m1 (w64 (P + psz - 16))"
    by simp
  with fP1 have fP3: "ftr_ok ?m3 (P, psz, False)"
    by (simp add: ftr_ok_def)
  have "PREV_BLKP (s\<lparr>mem := ?m3\<rparr>) (w64 (P + psz)) = Some (w64 P)"
    using n p(1) fP3 by (intro PREV_BLKP_ok [where LL = LL and E = E and pa = False]) simp_all
  then have pv: "PREV_BLKP (s\<lparr>mem := ?m3\<rparr>) (w64 B) = Some (w64 P)"
    using n by simp
  from coalesce_start [OF lay bl nx] nsz
  have res: "coalesce (w64 B) s = Some (w64 P, s\<lparr>mem := ?m3\<rparr>)"
    by (auto simp: r0 r1 a b c w64_add PACK_flag p2 d p3 pv)
  have g': "geom LL E ?bl'"
  proof -
    have "geom LL E (pre @ [(P, psz + sz + nsz, False)] @ post)"
    proof (rule geom_replace [where mid = "[(P, psz, False), (B, sz, False), (N, nsz, False)]"])
      show "geom LL E (pre @ [(P, psz, False), (B, sz, False), (N, nsz, False)] @ post)"
        using p(2) bl by simp
      show "pre \<noteq> []" by (rule pre)
      show "chain (LL + 16) pre P" by (rule n)
      show "chain P [(P, psz, False), (B, sz, False), (N, nsz, False)] (N + nsz)"
        using n nsz p(2) mN geom_mem [of LL E bl N nsz False] by simp
      show "chain P [(P, psz + sz + nsz, False)] (N + nsz)"
        using n dv by simp
      show "\<forall>x\<in>set [(P, psz + sz + nsz, False)]. 32 \<le> fst (snd x)"
        using psz by simp
    qed
    then show ?thesis by simp
  qed
  have x: "(P, psz + sz + nsz, False) \<in> set ?bl'"
    by simp
  have tg3: "tagged ?m3 ?bl'"
  proof -
    have "tagged m1 (pre @ post)"
      using tg1 bl by (simp add: tagged_def)
    from retag [OF g' x _ this] have "tagged ?m3 ((P, psz + sz + nsz, False) # pre @ post)"
      by auto
    then show ?thesis
      by (simp add: tagged_def)
  qed
  have ep3: "load64 ?m3 (w64 (E - 8)) = PACK 0 1"
    using tag_store_epilogue [OF g' x] ep1 by simp
  have sf: "set ?fl' = set (free_addrs ?bl')"
  proof -
    have "distinct (free_addrs bl)"
      using p(2) by (auto simp: geom_def intro: free_addrs_distinct)
    then have "N \<notin> set (free_addrs pre)" "N \<notin> set (free_addrs post)" "B \<noteq> N" "P \<noteq> N"
      "B \<notin> set (free_addrs pre)" "B \<notin> set (free_addrs post)" "B \<noteq> P"
      using bl by (auto simp: free_addrs_append free_addrs_Cons)
    then show ?thesis
      using p(6,7) bl by (auto simp: free_addrs_append free_addrs_Cons)
  qed
  have ni: "nodes_in ?bl' ?fl'"
    using sf by (intro free_nodes_in [OF g']) simp
  have l3: "linked ?m3 LL ?fl'"
    using linked_tag_store [OF g' ni x] l1 by simp
  have lay': "layout (s\<lparr>mem := ?m3\<rparr>) LL E ?bl' ?fl'"
    using p(1,6) g' tg3 ep3 l3 sf by (simp add: layout_def)
  have ta: "touch ({LL..<LL + 8} \<union> links fl \<union> {P - 8..<P - 8 + 8}) (mem s) ?m2"
    using ar by (intro touch_store2 [OF t1]; simp; arith)
  have "touch ({LL..<LL + 8} \<union> links fl \<union> {P - 8..<P - 8 + 8}
      \<union> {P + (psz + sz + nsz) - 16..<P + (psz + sz + nsz) - 16 + 8}) (mem s) ?m3"
    using ar by (intro touch_store2 [OF ta]; simp; arith)
  then have "touch ({LL..<LL + 8} \<union> links fl \<union> {P - 8..<N + nsz - 8}) (mem s) ?m3"
  proof (rule touch_mono)
    show "{LL..<LL + 8} \<union> links fl \<union> {P - 8..<P - 8 + 8}
      \<union> {P + (psz + sz + nsz) - 16..<P + (psz + sz + nsz) - 16 + 8}
      \<subseteq> {LL..<LL + 8} \<union> links fl \<union> {P - 8..<N + nsz - 8}"
      using ar by auto
  qed
  moreover have "load64 ?m3 (w64 (P - 8)) = PACK (w64 (psz + sz + nsz)) 0"
    using tg3 by (simp add: tagged_def hdr_ok_def PACK_flag)
  moreover have "load64 ?m3 (w64 (N + nsz - 16)) = PACK (w64 (psz + sz + nsz)) 0"
    unfolding fa by (simp add: load64_store64_same PACK_flag)
  ultimately show ?thesis
    using res lay' by blast
qed

fun no_adj :: "block list \<Rightarrow> bool" where
  "no_adj (x # y # r) = ((snd (snd x) \<or> snd (snd y)) \<and> no_adj (y # r))"
| "no_adj [x] = True"
| "no_adj [] = True"

definition allocd :: "block list \<Rightarrow> block list" where
  "allocd bl = filter (\<lambda>x. snd (snd x)) bl"

lemma no_adj_Cons:
  "no_adj (x # ys) = (no_adj ys \<and> (ys = [] \<or> snd (snd x) \<or> snd (snd (hd ys))))"
  by (cases ys) auto

lemma no_adj_append:
  "no_adj (xs @ ys) =
     (no_adj xs \<and> no_adj ys \<and> (xs = [] \<or> ys = [] \<or> snd (snd (last xs)) \<or> snd (snd (hd ys))))"
proof (induction xs)
  case Nil
  then show ?case by simp
next
  case (Cons x xs)
  show ?case
  proof (cases "xs = []")
    case True
    then show ?thesis by (auto simp: no_adj_Cons)
  next
    case False
    then have "hd (xs @ ys) = hd xs" by simp
    with False Cons.IH show ?thesis
      by (auto simp: no_adj_Cons [of x "xs @ ys"] no_adj_Cons [of x xs])
  qed
qed

lemma allocd_append: "allocd (xs @ ys) = allocd xs @ allocd ys"
  by (simp add: allocd_def)

lemma allocd_Cons: "allocd ((b, sz, a) # bl) = (if a then (b, sz, a) # allocd bl else allocd bl)"
  by (simp add: allocd_def)

lemma allocd_set: "x \<in> set (allocd bl) \<longleftrightarrow> x \<in> set bl \<and> snd (snd x)"
  by (auto simp: allocd_def)

text \<open>The effect of \<^verbatim>\<open>coalesce\<close> on a free, list-resident block \<open>B\<close>, whatever its
  neighbours are.\<close>

lemma coalesce_ok:
  assumes lay: "layout s LL E bl fl" and bl: "bl = pre @ (P, psz, pa) # (B, sz, False) # post"
  shows "\<exists>m' r rsz bl' fl'. coalesce (w64 B) s = Some (w64 r, s\<lparr>mem := m'\<rparr>)
     \<and> layout (s\<lparr>mem := m'\<rparr>) LL E bl' fl'
     \<and> allocd bl' = allocd bl
     \<and> (r, rsz, False) \<in> set bl' \<and> r \<le> B \<and> B + sz \<le> r + rsz
     \<and> (no_adj (pre @ (P, psz, pa) # (B, sz, True) # post) \<longrightarrow> no_adj bl')
     \<and> touch ({LL..<LL + 8} \<union> links fl \<union> {r - 8..<r + rsz - 8}) (mem s) m'
     \<and> set fl' \<subseteq> set fl"
proof -
  obtain N nsz na where nx: "nxt_of E post = (N, nsz, na)"
    by (cases "nxt_of E post")
  note n = nbhd [OF lay bl nx]
  consider (none) "pa" "na" | (prev) "\<not> pa" "na" | (nxt) "pa" "\<not> na" | (both) "\<not> pa" "\<not> na"
    by blast
  then show ?thesis
  proof cases
    case none
    with coalesce_none [OF lay, of pre P psz B sz False post N nsz] bl nx
    have "coalesce (w64 B) s = Some (w64 B, s\<lparr>mem := mem s\<rparr>)"
      by simp
    moreover have "layout (s\<lparr>mem := mem s\<rparr>) LL E bl fl"
      using lay by simp
    moreover have "no_adj (pre @ (P, psz, pa) # (B, sz, True) # post) \<longrightarrow> no_adj bl"
    proof -
      have "post = [] \<or> snd (snd (hd post))"
        using nx none by (cases post) (auto simp: nxt_of_def)
      then show ?thesis
        using none by (auto simp: bl no_adj_append no_adj_Cons)
    qed
    moreover have "touch ({LL..<LL + 8} \<union> links fl \<union> {B - 8..<B + sz - 8}) (mem s) (mem s)"
      by (rule touch_refl)
    moreover have "(B, sz, False) \<in> set bl"
      by (simp add: bl)
    ultimately show ?thesis
      by (intro exI [of _ "mem s"] exI [of _ B] exI [of _ sz] exI [of _ bl] exI [of _ fl]) simp
  next
    case prev
    from coalesce_prev [OF lay, of pre P psz B sz post N nsz] bl nx prev
    obtain m' where m': "coalesce (w64 B) s = Some (w64 P, s\<lparr>mem := m'\<rparr>)"
      "layout (s\<lparr>mem := m'\<rparr>) LL E (pre @ (P, psz + sz, False) # post) (remove1 B fl)"
      "touch ({LL..<LL + 8} \<union> links fl \<union> {P - 8..<B + sz - 8}) (mem s) m'"
      by auto
    let ?bl' = "pre @ (P, psz + sz, False) # post"
    have "allocd ?bl' = allocd bl"
      using prev by (simp add: bl allocd_append allocd_Cons)
    moreover have "no_adj (pre @ (P, psz, pa) # (B, sz, True) # post) \<longrightarrow> no_adj ?bl'"
    proof -
      have "post = [] \<or> snd (snd (hd post))"
        using nx prev by (cases post) (auto simp: nxt_of_def)
      then show ?thesis
        using prev by (auto simp: no_adj_append no_adj_Cons)
    qed
    moreover have "(P, psz + sz, False) \<in> set ?bl'" "P \<le> B" "B + sz \<le> P + (psz + sz)"
      using n(1) by simp_all
    moreover have "touch ({LL..<LL + 8} \<union> links fl \<union> {P - 8..<P + (psz + sz) - 8}) (mem s) m'"
    proof -
      have "B + sz = P + (psz + sz)" using n(1) by simp
      with m'(3) show ?thesis by simp
    qed
    moreover have "set (remove1 B fl) \<subseteq> set fl"
      by (rule set_remove1_subset)
    ultimately show ?thesis
      using m'(1,2) by blast
  next
    case nxt
    from n(19) nxt obtain post' where post: "post = (N, nsz, False) # post'"
      by (cases post) auto
    from coalesce_next [OF lay, of pre P psz B sz N nsz post'] bl post nxt
    obtain m' where m': "coalesce (w64 B) s = Some (w64 B, s\<lparr>mem := m'\<rparr>)"
      "layout (s\<lparr>mem := m'\<rparr>) LL E (pre @ (P, psz, True) # (B, sz + nsz, False) # post')
          (remove1 N fl)"
      "touch ({LL..<LL + 8} \<union> links fl \<union> {B - 8..<N + nsz - 8}) (mem s) m'"
      by auto
    let ?bl' = "pre @ (P, psz, True) # (B, sz + nsz, False) # post'"
    have "allocd ?bl' = allocd bl"
      using nxt by (simp add: bl post allocd_append allocd_Cons)
    moreover have "no_adj (pre @ (P, psz, pa) # (B, sz, True) # post) \<longrightarrow> no_adj ?bl'"
      using nxt by (auto simp: post no_adj_append no_adj_Cons)
    moreover have "(B, sz + nsz, False) \<in> set ?bl'" "B \<le> B" "B + sz \<le> B + (sz + nsz)"
      by simp_all
    moreover have "touch ({LL..<LL + 8} \<union> links fl \<union> {B - 8..<B + (sz + nsz) - 8}) (mem s) m'"
    proof -
      have "N + nsz = B + (sz + nsz)" using n(2) by simp
      with m'(3) show ?thesis by simp
    qed
    moreover have "set (remove1 N fl) \<subseteq> set fl"
      by (rule set_remove1_subset)
    ultimately show ?thesis
      using m'(1,2) by blast
  next
    case both
    from n(19) both obtain post' where post: "post = (N, nsz, False) # post'"
      by (cases post) auto
    from coalesce_both [OF lay, of pre P psz B sz N nsz post'] bl post both
    obtain m' where m': "coalesce (w64 B) s = Some (w64 P, s\<lparr>mem := m'\<rparr>)"
      "layout (s\<lparr>mem := m'\<rparr>) LL E (pre @ (P, psz + sz + nsz, False) # post')
          (remove1 B (remove1 N fl))"
      "touch ({LL..<LL + 8} \<union> links fl \<union> {P - 8..<N + nsz - 8}) (mem s) m'"
      by auto
    let ?bl' = "pre @ (P, psz + sz + nsz, False) # post'"
    have "allocd ?bl' = allocd bl"
      using both by (simp add: bl post allocd_append allocd_Cons)
    moreover have "no_adj (pre @ (P, psz, pa) # (B, sz, True) # post) \<longrightarrow> no_adj ?bl'"
      using both by (auto simp: post no_adj_append no_adj_Cons)
    moreover have "(P, psz + sz + nsz, False) \<in> set ?bl'" "P \<le> B" "B + sz \<le> P + (psz + sz + nsz)"
      using n(1) by simp_all
    moreover have "touch ({LL..<LL + 8} \<union> links fl \<union> {P - 8..<P + (psz + sz + nsz) - 8}) (mem s) m'"
    proof -
      have "N + nsz = P + (psz + sz + nsz)" using n(1,2) by simp
      with m'(3) show ?thesis by simp
    qed
    moreover have "set (remove1 B (remove1 N fl)) \<subseteq> set fl"
      using set_remove1_subset [of B "remove1 N fl"] set_remove1_subset [of N fl] by blast
    ultimately show ?thesis
      using m'(1,2) by blast
  qed
qed

lemma mm_free_ok:
  assumes lay: "layout s LL E bl fl" and bl: "bl = pre @ (P, psz, pa) # (B, sz, True) # post"
  shows "\<exists>m' r rsz bl' fl'. mm_free (w64 B) s = Some (s\<lparr>mem := m'\<rparr>)
     \<and> layout (s\<lparr>mem := m'\<rparr>) LL E bl' fl'
     \<and> allocd bl' = allocd (pre @ [(P, psz, pa)]) @ allocd post
     \<and> (r, rsz, False) \<in> set bl' \<and> r \<le> B \<and> B + sz \<le> r + rsz
     \<and> (no_adj bl \<longrightarrow> no_adj bl')
     \<and> touch ({LL..<LL + 8} \<union> links fl \<union> {r - 8..<r + rsz - 8}) (mem s) m'"
proof -
  obtain N nsz na where nx: "nxt_of E post = (N, nsz, na)"
    by (cases "nxt_of E post")
  note n = nbhd [OF lay bl nx]
  note p = layout_parts [OF lay]
  note ar = n(3,4,7,11) n(1) [symmetric]
  let ?blF = "pre @ (P, psz, pa) # (B, sz, False) # post"
  let ?V = "PACK (w64 sz) (flag False)"
  let ?m1 = "store64 (mem s) (w64 (B - 8)) ?V"
  let ?m2 = "store64 ?m1 (w64 (B + sz - 16)) ?V"
  have F: "FTRP s (w64 B) = Some (w64 (B + sz - 16))"
    using n by (intro FTRP_ok [where LL = LL and E = E and a = True]) simp_all
  have hs: "GET_SIZE s (HDRP (w64 B)) = Some (w64 sz)"
    using n by (simp add: HDRP_w64 GET_SIZE_hdr [where LL = LL and E = E and a = True])
  have p1: "PUT (HDRP (w64 B)) ?V s = Some (s\<lparr>mem := ?m1\<rparr>)"
    using ar p(1) by (simp add: HDRP_w64 PUT_ok [where LL = LL and E = E])
  have "load64 ?m1 (w64 (B + sz - 16)) = load64 (mem s) (w64 (B + sz - 16))"
    using ar by (intro load64_store64_far; simp; arith)
  then have "ftr_ok ?m1 (B, sz, True)"
    using n(15) by (simp add: ftr_ok_def)
  then have fs: "GET_SIZE (s\<lparr>mem := ?m1\<rparr>) (w64 (B + sz - 16)) = Some (w64 sz)"
    using n p(1) by (intro GET_SIZE_ftr [where LL = LL and E = E and a = True]) simp_all
  have p2: "PUT (w64 (B + sz - 16)) ?V (s\<lparr>mem := ?m1\<rparr>) = Some (s\<lparr>mem := ?m2\<rparr>)"
    using ar p(1) by (simp add: PUT_ok [where LL = LL and E = E])
  have gF: "geom LL E ?blF"
  proof -
    have "geom LL E ((pre @ [(P, psz, pa)]) @ [(B, sz, False)] @ post)"
    proof (rule geom_replace [where mid = "[(B, sz, True)]"])
      show "geom LL E ((pre @ [(P, psz, pa)]) @ [(B, sz, True)] @ post)"
        using p(2) bl by simp
      show "pre @ [(P, psz, pa)] \<noteq> []" by simp
      show "chain (LL + 16) (pre @ [(P, psz, pa)]) B"
        using n by (auto simp: chain_append)
      show "chain B [(B, sz, True)] (B + sz)" "chain B [(B, sz, False)] (B + sz)"
        using n by simp_all
      show "\<forall>x\<in>set [(B, sz, False)]. 32 \<le> fst (snd x)"
        using n(7) by simp
    qed
    then show ?thesis by simp
  qed
  have x: "(B, sz, False) \<in> set ?blF"
    by simp
  have tg2: "tagged ?m2 ?blF"
  proof -
    have "tagged (mem s) (pre @ (P, psz, pa) # post)"
      using p(3) bl by (simp add: tagged_def)
    from retag [OF gF x _ this] have "tagged ?m2 ((B, sz, False) # pre @ (P, psz, pa) # post)"
      by auto
    then show ?thesis
      by (simp add: tagged_def)
  qed
  have ep2: "load64 ?m2 (w64 (E - 8)) = PACK 0 1"
    using tag_store_epilogue [OF gF x] p(4) by simp
  have d: "distinct (map fst bl)"
    using p(2) by (auto simp: geom_def intro: chain_distinct)
  have Bfl: "B \<notin> set fl"
  proof
    assume "B \<in> set fl"
    with p(7) obtain z where "(B, z, False) \<in> set bl"
      by (auto simp: free_addrs_iff)
    moreover have "(B, sz, True) \<in> set bl"
      by (simp add: bl)
    ultimately show False
      using p(2) chain_addr_inj [of "LL + 16" bl E B z False sz True] by (simp add: geom_def)
  qed
  have sfF: "set (B # fl) = set (free_addrs ?blF)"
    using p(7) by (auto simp: bl free_addrs_append free_addrs_Cons)
  have niF: "nodes_in ?blF (B # fl)"
    using sfF by (intro free_nodes_in [OF gF]) simp
  have ni2: "nodes_in ?blF fl"
    using niF by (simp add: nodes_in_def)
  have l2: "linked ?m2 LL fl"
    using linked_tag_store [OF gF ni2 x] p(5) by simp
  have no: "nodes_ok LL E (B # fl)"
    using p(6) Bfl by (intro geom_nodes_ok [OF gF niF]) simp
  let ?s2 = "s\<lparr>mem := ?m2\<rparr>"
  have ar2: "arena ?s2 LL E"
    using p(1) by simp
  from insert_node_ok [OF ar2 _ no] l2
  obtain m3 where i3: "insert_node (w64 B) ?s2 = Some (s\<lparr>mem := m3\<rparr>)"
    and l3: "linked m3 LL (B # fl)" and t3: "touch ({LL..<LL + 8} \<union> links (B # fl)) ?m2 m3"
    by auto
  have tg3: "tagged m3 ?blF"
    by (rule tagged_list_touch [OF gF niF t3 tg2 subset_refl])
  have ep3: "load64 m3 (w64 (E - 8)) = PACK 0 1"
    using epilogue_list_touch [OF gF niF t3] ep2 by simp
  let ?s3 = "s\<lparr>mem := m3\<rparr>"
  have lay3: "layout ?s3 LL E ?blF (B # fl)"
    using p(1,6) gF tg3 ep3 l3 sfF Bfl by (simp add: layout_def)
  from coalesce_ok [OF lay3 refl]
  obtain m' r rsz bl' fl' where c: "coalesce (w64 B) ?s3 = Some (w64 r, s\<lparr>mem := m'\<rparr>)"
    "layout (s\<lparr>mem := m'\<rparr>) LL E bl' fl'" "allocd bl' = allocd ?blF"
    "(r, rsz, False) \<in> set bl'" "r \<le> B" "B + sz \<le> r + rsz"
    "no_adj (pre @ (P, psz, pa) # (B, sz, True) # post) \<longrightarrow> no_adj bl'"
    "touch ({LL..<LL + 8} \<union> links (B # fl) \<union> {r - 8..<r + rsz - 8}) m3 m'"
    by auto
  have res: "mm_free (w64 B) s = Some (s\<lparr>mem := m'\<rparr>)"
    by (simp add: mm_free_def Let_def F hs PACK_flag p1 fs p2 i3 c(1))
  have al: "allocd bl' = allocd (pre @ [(P, psz, pa)]) @ allocd post"
    using c(3) by (simp add: allocd_def)
  have t: "touch ({LL..<LL + 8} \<union> links fl \<union> {r - 8..<r + rsz - 8}) (mem s) m'"
  proof -
    have ta: "touch ({} \<union> {B - 8..<B - 8 + 8}) (mem s) ?m1"
      using ar by (intro touch_store2 [OF touch_refl]; simp; arith)
    have tb: "touch ({} \<union> {B - 8..<B - 8 + 8} \<union> {B + sz - 16..<B + sz - 16 + 8}) (mem s) ?m2"
      using ar by (intro touch_store2 [OF ta]; simp; arith)
    have "touch ({} \<union> {B - 8..<B - 8 + 8} \<union> {B + sz - 16..<B + sz - 16 + 8}
        \<union> ({LL..<LL + 8} \<union> links (B # fl))
        \<union> ({LL..<LL + 8} \<union> links (B # fl) \<union> {r - 8..<r + rsz - 8})) (mem s) m'"
      by (rule touch_trans [OF touch_trans [OF tb t3] c(8)])
    then show ?thesis
    proof (rule touch_mono)
      show "{} \<union> {B - 8..<B - 8 + 8} \<union> {B + sz - 16..<B + sz - 16 + 8}
        \<union> ({LL..<LL + 8} \<union> links (B # fl))
        \<union> ({LL..<LL + 8} \<union> links (B # fl) \<union> {r - 8..<r + rsz - 8})
        \<subseteq> {LL..<LL + 8} \<union> links fl \<union> {r - 8..<r + rsz - 8}"
        using ar c(5,6) by (auto simp: links_Cons)
    qed
  qed
  from res c(2) al c(4,5,6) c(7) t show ?thesis
    unfolding bl by blast
qed

lemma w64_diff: "A \<le> n \<Longrightarrow> n < 2 ^ 64 \<Longrightarrow> w64 n - w64 A = w64 (n - A)"
  by (simp add: w64_sub_unat unat_w64)

lemma nodes_in_flag:
  "nodes_in (pre @ (B, sz, a) # post) fl \<Longrightarrow> nodes_in (pre @ (B, sz, a') # post) fl"
  unfolding nodes_in_def by (auto; blast)

lemma block_addr_fresh:
  assumes g: "geom LL E (pre @ (B, sz, a) # post)"
  shows "B \<notin> set (free_addrs pre)" "B \<notin> set (free_addrs post)"
proof -
  from g have "chain (LL + 16) (pre @ (B, sz, a) # post) E"
    by (simp add: geom_def)
  then have "distinct (map fst (pre @ (B, sz, a) # post))"
    by (rule chain_distinct)
  then have "B \<notin> fst ` set pre" "B \<notin> fst ` set post"
    by auto
  then show "B \<notin> set (free_addrs pre)" "B \<notin> set (free_addrs post)"
    by (auto simp: free_addrs_def)
qed

lemma place_whole:
  assumes lay: "layout s LL E bl fl" and bl: "bl = pre @ (P, psz, pa) # (B, sz, False) # post"
    and A: "A \<le> sz" "sz - A < 32"
  shows "\<exists>m'. place (w64 B) (w64 A) s = Some (s\<lparr>mem := m'\<rparr>)
     \<and> layout (s\<lparr>mem := m'\<rparr>) LL E (pre @ (P, psz, pa) # (B, sz, True) # post) (remove1 B fl)
     \<and> touch ({LL..<LL + 8} \<union> links fl \<union> {B - 8..<B + sz - 8}) (mem s) m'"
proof -
  obtain N nsz na where nx: "nxt_of E post = (N, nsz, na)"
    by (cases "nxt_of E post")
  note n = nbhd [OF lay bl nx]
  note p = layout_parts [OF lay]
  note ar = n(3,4,7,11) n(1) [symmetric]
  let ?blT = "pre @ (P, psz, pa) # (B, sz, True) # post"
  let ?V = "PACK (w64 sz) (flag True)"
  let ?m1 = "store64 (mem s) (w64 (B - 8)) ?V"
  let ?m2 = "store64 ?m1 (w64 (B + sz - 16)) ?V"
  have hs: "GET_SIZE s (HDRP (w64 B)) = Some (w64 sz)"
    using n by (simp add: HDRP_w64 GET_SIZE_hdr [where LL = LL and E = E and a = False])
  have szb: "sz < 2 ^ 64"
    using ar by (simp; arith)
  have rem: "w64 sz - w64 A = w64 (sz - A)"
    using A(1) szb by (rule w64_diff)
  have lt: "w64 (sz - A) < 2 * 16"
    using A(2) szb by (simp add: w64_less_iff)
  have p1: "PUT (HDRP (w64 B)) ?V s = Some (s\<lparr>mem := ?m1\<rparr>)"
    using ar p(1) by (simp add: HDRP_w64 PUT_ok [where LL = LL and E = E])
  have "hdr_ok ?m1 (B, sz, True)"
    by (simp add: hdr_ok_def load64_store64_same)
  then have F: "FTRP (s\<lparr>mem := ?m1\<rparr>) (w64 B) = Some (w64 (B + sz - 16))"
    using n p(1) by (intro FTRP_ok [where LL = LL and E = E and a = True]) simp_all
  have "load64 ?m1 (w64 (B + sz - 16)) = load64 (mem s) (w64 (B + sz - 16))"
    using ar by (intro load64_store64_far; simp; arith)
  then have "ftr_ok ?m1 (B, sz, False)"
    using n(15) by (simp add: ftr_ok_def)
  then have fs: "GET_SIZE (s\<lparr>mem := ?m1\<rparr>) (w64 (B + sz - 16)) = Some (w64 sz)"
    using n p(1) by (intro GET_SIZE_ftr [where LL = LL and E = E and a = False]) simp_all
  have p2: "PUT (w64 (B + sz - 16)) ?V (s\<lparr>mem := ?m1\<rparr>) = Some (s\<lparr>mem := ?m2\<rparr>)"
    using ar p(1) by (simp add: PUT_ok [where LL = LL and E = E])
  have gT: "geom LL E ?blT"
  proof -
    have "geom LL E ((pre @ [(P, psz, pa)]) @ [(B, sz, True)] @ post)"
    proof (rule geom_replace [where mid = "[(B, sz, False)]"])
      show "geom LL E ((pre @ [(P, psz, pa)]) @ [(B, sz, False)] @ post)"
        using p(2) bl by simp
      show "pre @ [(P, psz, pa)] \<noteq> []" by simp
      show "chain (LL + 16) (pre @ [(P, psz, pa)]) B"
        using n by (auto simp: chain_append)
      show "chain B [(B, sz, False)] (B + sz)" "chain B [(B, sz, True)] (B + sz)"
        using n by simp_all
      show "\<forall>x\<in>set [(B, sz, True)]. 32 \<le> fst (snd x)"
        using n(7) by simp
    qed
    then show ?thesis by simp
  qed
  have x: "(B, sz, True) \<in> set ?blT"
    by simp
  have tg2: "tagged ?m2 ?blT"
  proof -
    have "tagged (mem s) (pre @ (P, psz, pa) # post)"
      using p(3) bl by (simp add: tagged_def)
    from retag [OF gT x _ this] have "tagged ?m2 ((B, sz, True) # pre @ (P, psz, pa) # post)"
      by auto
    then show ?thesis
      by (simp add: tagged_def)
  qed
  have ep2: "load64 ?m2 (w64 (E - 8)) = PACK 0 1"
    using tag_store_epilogue [OF gT x] p(4) by simp
  have Bfl: "B \<in> set fl"
    using p(7) by (simp add: bl free_addrs_append free_addrs_Cons)
  have niT: "nodes_in ?blT fl"
    using p(8) nodes_in_flag [of "pre @ [(P, psz, pa)]" B sz False post fl True] by (simp add: bl)
  have l2: "linked ?m2 LL fl"
    using linked_tag_store [OF gT niT x] p(5) by simp
  let ?s2 = "s\<lparr>mem := ?m2\<rparr>"
  have ar2: "arena ?s2 LL E"
    using p(1) by simp
  from remove_node_ok [OF ar2 _ p(9) Bfl] l2
  obtain m3 where r3: "remove_node (w64 B) ?s2 = Some (s\<lparr>mem := m3\<rparr>)"
    and l3: "linked m3 LL (remove1 B fl)" and t3: "touch ({LL..<LL + 8} \<union> links fl) ?m2 m3"
    by auto
  have tg3: "tagged m3 ?blT"
    by (rule tagged_list_touch [OF gT niT t3 tg2 subset_refl])
  have ep3: "load64 m3 (w64 (E - 8)) = PACK 0 1"
    using epilogue_list_touch [OF gT niT t3] ep2 by simp
  have fr: "B \<notin> set (free_addrs (pre @ [(P, psz, pa)]))" "B \<notin> set (free_addrs post)"
    using block_addr_fresh [of LL E "pre @ [(P, psz, pa)]" B sz False post] p(2) by (simp_all add: bl)
  have sf: "set (remove1 B fl) = set (free_addrs ?blT)"
  proof -
    have "set fl = set (free_addrs (pre @ [(P, psz, pa)])) \<union> {B} \<union> set (free_addrs post)"
      using p(7) by (auto simp: bl free_addrs_def)
    moreover have "set (free_addrs ?blT)
        = set (free_addrs (pre @ [(P, psz, pa)])) \<union> set (free_addrs post)"
      by (simp add: free_addrs_def)
    ultimately show ?thesis
      using fr p(6) by auto
  qed
  have lay3: "layout (s\<lparr>mem := m3\<rparr>) LL E ?blT (remove1 B fl)"
    using p(1,6) gT tg3 ep3 l3 sf by (simp add: layout_def)
  have res: "place (w64 B) (w64 A) s = Some (s\<lparr>mem := m3\<rparr>)"
    using lt by (simp add: place_def Let_def hs rem PACK_flag p1 F fs p2 r3)
  have t: "touch ({LL..<LL + 8} \<union> links fl \<union> {B - 8..<B + sz - 8}) (mem s) m3"
  proof -
    have ta: "touch ({} \<union> {B - 8..<B - 8 + 8}) (mem s) ?m1"
      using ar by (intro touch_store2 [OF touch_refl]; simp; arith)
    have tb: "touch ({} \<union> {B - 8..<B - 8 + 8} \<union> {B + sz - 16..<B + sz - 16 + 8}) (mem s) ?m2"
      using ar by (intro touch_store2 [OF ta]; simp; arith)
    have "touch ({} \<union> {B - 8..<B - 8 + 8} \<union> {B + sz - 16..<B + sz - 16 + 8}
        \<union> ({LL..<LL + 8} \<union> links fl)) (mem s) m3"
      by (rule touch_trans [OF tb t3])
    then show ?thesis
    proof (rule touch_mono)
      show "{} \<union> {B - 8..<B - 8 + 8} \<union> {B + sz - 16..<B + sz - 16 + 8}
        \<union> ({LL..<LL + 8} \<union> links fl)
        \<subseteq> {LL..<LL + 8} \<union> links fl \<union> {B - 8..<B + sz - 8}"
        using ar by auto
    qed
  qed
  from res lay3 t show ?thesis
    by blast
qed

lemma place_split_pre:
  assumes lay: "layout s LL E bl fl" and bl: "bl = pre @ (P, psz, pa) # (B, sz, False) # post"
    and A: "32 \<le> A" "16 dvd A" "A + 32 \<le> sz"
  shows "\<exists>m6. place (w64 B) (w64 A) s
        = do { (r, s7) \<leftarrow> coalesce (w64 (B + A)) (s\<lparr>mem := m6\<rparr>); Some s7 }
     \<and> layout (s\<lparr>mem := m6\<rparr>) LL E
          (pre @ (P, psz, pa) # (B, A, True) # (B + A, sz - A, False) # post)
          ((B + A) # remove1 B fl)
     \<and> touch ({LL..<LL + 8} \<union> links fl \<union> {B - 8..<B + sz - 8}) (mem s) m6"
proof -
  obtain N nsz na where nx: "nxt_of E post = (N, nsz, na)"
    by (cases "nxt_of E post")
  note n = nbhd [OF lay bl nx]
  note p = layout_parts [OF lay]
  note ar = n(3,4,7,11) n(1) [symmetric] A(1,3)
  let ?bl2 = "pre @ (P, psz, pa) # (B, A, True) # (B + A, sz - A, False) # post"
  let ?V1 = "PACK (w64 A) (flag True)"
  let ?V2 = "PACK (w64 (sz - A)) (flag False)"
  let ?m1 = "store64 (mem s) (w64 (B - 8)) ?V1"
  let ?m2 = "store64 ?m1 (w64 (B + A - 16)) ?V1"
  have hs: "GET_SIZE s (HDRP (w64 B)) = Some (w64 sz)"
    using n by (simp add: HDRP_w64 GET_SIZE_hdr [where LL = LL and E = E and a = False])
  have "sz \<le> E" "(2::nat) ^ 63 < 2 ^ 64"
    using n(4) by simp_all
  then have szb: "sz < 2 ^ 64" "A < 2 ^ 64"
    using n(11) A(3) by simp_all
  have rem: "w64 sz - w64 A = w64 (sz - A)"
    using A(3) szb by (intro w64_diff) simp_all
  have ge: "\<not> w64 (sz - A) < 2 * 16"
    using A(3) szb by (simp add: w64_less_iff)
  have a2: "PADD (w64 B) (w64 A - 16) = w64 (B + A - 16)"
  proof -
    have "w64 A - 16 = w64 (A - 16)"
      using A(1) by (simp add: w64_sub_unat)
    moreover have "B + (A - 16) = B + A - 16"
      using A(1) by simp
    ultimately show ?thesis
      by (simp add: PADD_def w64_add)
  qed
  have a4: "PADD (w64 B) (w64 A - 8) = w64 (B + A - 8)"
  proof -
    have "w64 A - 8 = w64 (A - 8)"
      using A(1) by (simp add: w64_sub_unat)
    moreover have "B + (A - 8) = B + A - 8"
      using A(1) by simp
    ultimately show ?thesis
      by (simp add: PADD_def w64_add)
  qed
  have a5: "PADD (w64 B) (w64 A + w64 (sz - A) - 16) = w64 (B + A + (sz - A) - 16)"
  proof -
    have "w64 A + w64 (sz - A) - 16 = w64 (A + (sz - A) - 16)"
      using A(1) by (simp add: w64_sub_unat w64_add)
    moreover have "B + (A + (sz - A) - 16) = B + A + (sz - A) - 16"
      using A(1) by simp
    ultimately show ?thesis
      by (simp add: PADD_def w64_add)
  qed
  have a6: "PADD (w64 B) (w64 A) = w64 (B + A)"
    by (simp add: PADD_def w64_add)
  have p1: "PUT (HDRP (w64 B)) ?V1 s = Some (s\<lparr>mem := ?m1\<rparr>)"
    using ar p(1) by (simp add: HDRP_w64 PUT_ok [where LL = LL and E = E])
  have p2: "PUT (w64 (B + A - 16)) ?V1 (s\<lparr>mem := ?m1\<rparr>) = Some (s\<lparr>mem := ?m2\<rparr>)"
    using ar p(1) by (simp add: PUT_ok [where LL = LL and E = E])
  have g2: "geom LL E ?bl2"
  proof -
    have "geom LL E ((pre @ [(P, psz, pa)]) @ [(B, A, True), (B + A, sz - A, False)] @ post)"
    proof (rule geom_replace [where mid = "[(B, sz, False)]"])
      show "geom LL E ((pre @ [(P, psz, pa)]) @ [(B, sz, False)] @ post)"
        using p(2) bl by simp
      show "pre @ [(P, psz, pa)] \<noteq> []" by simp
      show "chain (LL + 16) (pre @ [(P, psz, pa)]) B"
        using n by (auto simp: chain_append)
      show "chain B [(B, sz, False)] (B + sz)"
        using n by simp
      have "16 dvd sz - A"
        using n(8) A(2) by (rule dvd_diff_nat)
      then show "chain B [(B, A, True), (B + A, sz - A, False)] (B + sz)"
        using A by simp
      show "\<forall>x\<in>set [(B, A, True), (B + A, sz - A, False)]. 32 \<le> fst (snd x)"
        using A by simp
    qed
    then show ?thesis by simp
  qed
  have x1: "(B, A, True) \<in> set ?bl2" and x2: "(B + A, sz - A, False) \<in> set ?bl2"
    by simp_all
  have tg0: "tagged (mem s) (pre @ (P, psz, pa) # post)"
    using p(3) bl by (simp add: tagged_def)
  have tg2: "tagged ?m2 ((B, A, True) # pre @ (P, psz, pa) # post)"
    using retag [OF g2 x1 _ tg0] by auto
  have ep2: "load64 ?m2 (w64 (E - 8)) = PACK 0 1"
    using tag_store_epilogue [OF g2 x1] p(4) by simp
  have Bfl: "B \<in> set fl"
    using p(7) by (simp add: bl free_addrs_append free_addrs_Cons)
  have fr: "B \<notin> set (free_addrs (pre @ [(P, psz, pa)]))" "B \<notin> set (free_addrs post)"
    using block_addr_fresh [of LL E "pre @ [(P, psz, pa)]" B sz False post] p(2) by (simp_all add: bl)
  have sfl: "set fl = set (free_addrs (pre @ [(P, psz, pa)])) \<union> {B} \<union> set (free_addrs post)"
    using p(7) by (auto simp: bl free_addrs_def)
  have ni2: "nodes_in ?bl2 fl"
    unfolding nodes_in_def
  proof
    fix b assume b: "b \<in> set fl"
    show "\<exists>z a. (b, z, a) \<in> set ?bl2 \<and> 32 \<le> z"
    proof (cases "b = B")
      case True
      then show ?thesis using A(1) by auto
    next
      case False
      from b p(8) obtain z a where z: "(b, z, a) \<in> set bl" "32 \<le> z"
        by (auto simp: nodes_in_def)
      with False have "(b, z, a) \<in> set ?bl2"
        by (auto simp: bl)
      with z(2) show ?thesis by blast
    qed
  qed
  have l2: "linked ?m2 LL fl"
    using linked_tag_store [OF g2 ni2 x1] p(5) by simp
  let ?s2 = "s\<lparr>mem := ?m2\<rparr>"
  have ar2: "arena ?s2 LL E"
    using p(1) by simp
  from remove_node_ok [OF ar2 _ p(9) Bfl] l2
  obtain m3 where r3: "remove_node (w64 B) ?s2 = Some (s\<lparr>mem := m3\<rparr>)"
    and l3: "linked m3 LL (remove1 B fl)" and t3: "touch ({LL..<LL + 8} \<union> links fl) ?m2 m3"
    by auto
  have tg3: "tagged m3 ((B, A, True) # pre @ (P, psz, pa) # post)"
    by (rule tagged_list_touch [OF g2 ni2 t3 tg2]) auto
  have ep3: "load64 m3 (w64 (E - 8)) = PACK 0 1"
    using epilogue_list_touch [OF g2 ni2 t3] ep2 by simp
  let ?m4 = "store64 m3 (w64 (B + A - 8)) ?V2"
  let ?m5 = "store64 ?m4 (w64 (B + A + (sz - A) - 16)) ?V2"
  have p4: "PUT (w64 (B + A - 8)) ?V2 (s\<lparr>mem := m3\<rparr>) = Some (s\<lparr>mem := ?m4\<rparr>)"
    using ar p(1) by (simp add: PUT_ok [where LL = LL and E = E])
  have p5: "PUT (w64 (B + A + (sz - A) - 16)) ?V2 (s\<lparr>mem := ?m4\<rparr>) = Some (s\<lparr>mem := ?m5\<rparr>)"
    using ar p(1) by (simp add: PUT_ok [where LL = LL and E = E])
  have tg5: "tagged ?m5 ?bl2"
  proof -
    from retag [OF g2 x2 _ tg3]
    have "tagged ?m5 ((B + A, sz - A, False) # (B, A, True) # pre @ (P, psz, pa) # post)"
      by auto
    then show ?thesis
      by (simp add: tagged_def)
  qed
  have ep5: "load64 ?m5 (w64 (E - 8)) = PACK 0 1"
    using tag_store_epilogue [OF g2 x2] ep3 by simp
  have ni3: "nodes_in ?bl2 (remove1 B fl)"
    using ni2 by (rule nodes_in_remove1)
  have l5: "linked ?m5 LL (remove1 B fl)"
    using linked_tag_store [OF g2 ni3 x2] l3 by simp
  have fr2: "B + A \<notin> set fl"
  proof
    assume "B + A \<in> set fl"
    with p(7) obtain z where z: "(B + A, z, False) \<in> set bl"
      by (auto simp: free_addrs_iff)
    have "(B, sz, False) \<in> set bl"
      by (simp add: bl)
    from geom_disj [OF p(2) this z] geom_mem [OF p(2) z] show False
      using A by auto
  qed
  have sf5: "set ((B + A) # remove1 B fl) = set (free_addrs ?bl2)"
  proof -
    have "set (free_addrs ?bl2)
        = set (free_addrs (pre @ [(P, psz, pa)])) \<union> {B + A} \<union> set (free_addrs post)"
      by (auto simp: free_addrs_def)
    then show ?thesis
      using sfl fr p(6) by auto
  qed
  have ni5: "nodes_in ?bl2 ((B + A) # remove1 B fl)"
    using sf5 by (intro free_nodes_in [OF g2]) simp
  have d5: "distinct ((B + A) # remove1 B fl)"
    using p(6) fr2 by (auto dest: notin_set_remove1)
  have no5: "nodes_ok LL E ((B + A) # remove1 B fl)"
    by (rule geom_nodes_ok [OF g2 ni5 d5])
  let ?s5 = "s\<lparr>mem := ?m5\<rparr>"
  have ar5: "arena ?s5 LL E"
    using p(1) by simp
  from insert_node_ok [OF ar5 _ no5] l5
  obtain m6 where i6: "insert_node (w64 (B + A)) ?s5 = Some (s\<lparr>mem := m6\<rparr>)"
    and l6: "linked m6 LL ((B + A) # remove1 B fl)"
    and t6: "touch ({LL..<LL + 8} \<union> links ((B + A) # remove1 B fl)) ?m5 m6"
    by auto
  have tg6: "tagged m6 ?bl2"
    by (rule tagged_list_touch [OF g2 ni5 t6 tg5 subset_refl])
  have ep6: "load64 m6 (w64 (E - 8)) = PACK 0 1"
    using epilogue_list_touch [OF g2 ni5 t6] ep5 by simp
  have lay6: "layout (s\<lparr>mem := m6\<rparr>) LL E ?bl2 ((B + A) # remove1 B fl)"
    using p(1) g2 tg6 ep6 l6 sf5 d5 by (simp add: layout_def)
  have res: "place (w64 B) (w64 A) s
      = do { (r, s7) \<leftarrow> coalesce (w64 (B + A)) (s\<lparr>mem := m6\<rparr>); Some s7 }"
    using ge by (simp add: place_def Let_def hs rem PACK_flag p1 a2 p2 r3 a4 p4 a5 p5 a6 i6)
  have t: "touch ({LL..<LL + 8} \<union> links fl \<union> {B - 8..<B + sz - 8}) (mem s) m6"
  proof -
    have ta: "touch ({} \<union> {B - 8..<B - 8 + 8}) (mem s) ?m1"
      using ar by (intro touch_store2 [OF touch_refl]; simp; arith)
    have tb: "touch ({} \<union> {B - 8..<B - 8 + 8} \<union> {B + A - 16..<B + A - 16 + 8}) (mem s) ?m2"
      using ar by (intro touch_store2 [OF ta]; simp; arith)
    let ?W3 = "{} \<union> {B - 8..<B - 8 + 8} \<union> {B + A - 16..<B + A - 16 + 8}
        \<union> ({LL..<LL + 8} \<union> links fl)"
    have tc: "touch ?W3 (mem s) m3"
      by (rule touch_trans [OF tb t3])
    have td: "touch (?W3 \<union> {B + A - 8..<B + A - 8 + 8}) (mem s) ?m4"
      using ar by (intro touch_store2 [OF tc]; simp; arith)
    have te: "touch (?W3 \<union> {B + A - 8..<B + A - 8 + 8}
        \<union> {B + A + (sz - A) - 16..<B + A + (sz - A) - 16 + 8}) (mem s) ?m5"
      using ar by (intro touch_store2 [OF td]; simp; arith)
    have "touch (?W3 \<union> {B + A - 8..<B + A - 8 + 8}
        \<union> {B + A + (sz - A) - 16..<B + A + (sz - A) - 16 + 8}
        \<union> ({LL..<LL + 8} \<union> links ((B + A) # remove1 B fl))) (mem s) m6"
      by (rule touch_trans [OF te t6])
    then show ?thesis
    proof (rule touch_mono)
      have "links (remove1 B fl) \<subseteq> links fl"
        by (rule links_remove1)
      then show "?W3 \<union> {B + A - 8..<B + A - 8 + 8}
        \<union> {B + A + (sz - A) - 16..<B + A + (sz - A) - 16 + 8}
        \<union> ({LL..<LL + 8} \<union> links ((B + A) # remove1 B fl))
        \<subseteq> {LL..<LL + 8} \<union> links fl \<union> {B - 8..<B + sz - 8}"
        using ar by (auto simp: links_Cons)
    qed
  qed
  from res lay6 t show ?thesis
    by blast
qed

text \<open>\<open>kept al m m'\<close>: the payload bytes of every block of \<open>al\<close> are the same in \<open>m\<close> and
  \<open>m'\<close>.  The payload of a block \<open>(b, sz, a)\<close> is \<open>[b, b + sz - 16)\<close>.\<close>

definition kept :: "block list \<Rightarrow> (addr \<Rightarrow> byte) \<Rightarrow> (addr \<Rightarrow> byte) \<Rightarrow> bool" where
  "kept al m m' = (\<forall>(b, sz, a)\<in>set al. \<forall>i. b \<le> i \<and> i < b + sz - 16 \<longrightarrow> m' (w64 i) = m (w64 i))"

lemma kept_refl: "kept al m m"
  by (simp add: kept_def)

lemma kept_trans: "kept al m m1 \<Longrightarrow> kept al m1 m2 \<Longrightarrow> kept al m m2"
  unfolding kept_def by fastforce

lemma kept_mono: "kept al m m' \<Longrightarrow> set al' \<subseteq> set al \<Longrightarrow> kept al' m m'"
  unfolding kept_def by blast

lemma allocd_sub: "set (allocd bl) \<subseteq> set bl"
  by (simp add: allocd_def)

lemma allocd_mem: "(b, sz, a) \<in> set (allocd bl) \<Longrightarrow> (b, sz, True) \<in> set bl"
  by (auto simp: allocd_def)

lemma kept_touch:
  assumes t: "touch W m m'" and g: "geom LL E bl" and al: "set al \<subseteq> set bl"
    and W: "\<forall>(b, sz, a)\<in>set al. {b..<b + sz - 16} \<inter> W = {}"
  shows "kept al m m'"
  unfolding kept_def
proof (intro ballI, clarify)
  fix b sz a i assume x: "(b, sz, a) \<in> set al" and i: "b \<le> i" "i < b + sz - 16"
  from x al have "(b, sz, a) \<in> set bl"
    by blast
  from geom_mem [OF g this] i have "i < 2 ^ 63"
    by (simp; arith)
  then have i64: "i < 2 ^ 64"
    by (rule less_trans) simp
  from W x have "{b..<b + sz - 16} \<inter> W = {}"
    by fast
  moreover from i have "i \<in> {b..<b + sz - 16}"
    by simp
  ultimately have "i \<notin> W"
    by blast
  with t i64 show "m' (w64 i) = m (w64 i)"
    by (simp add: touch_def)
qed

lemma pay_links:
  assumes g: "geom LL E bl" and fl: "set fl \<subseteq> set (free_addrs bl)" and x: "(b, sz, True) \<in> set bl"
  shows "{b..<b + sz - 16} \<inter> ({LL..<LL + 8} \<union> links fl) = {}"
proof -
  note xb = geom_mem [OF g x]
  have A: "{b..<b + sz - 16} \<inter> {f..<f + 16} = {}" if f: "f \<in> set fl" for f
  proof -
    from f fl have "f \<in> set (free_addrs bl)"
      by blast
    then obtain z where z: "(f, z, False) \<in> set bl"
      unfolding free_addrs_iff by blast
    note zb = geom_mem [OF g z] geom_free_big [OF g z]
    from geom_disj [OF g x z] xb zb show ?thesis
      by auto
  qed
  have B: "{b..<b + sz - 16} \<inter> {LL..<LL + 8} = {}"
    using xb by auto
  show ?thesis
    unfolding links_def using A B by blast
qed

lemma pay_block:
  assumes g: "geom LL E bl" and x: "(b, sz, True) \<in> set bl" and r: "(r, rsz, False) \<in> set bl"
  shows "{b..<b + sz - 16} \<inter> {r - 8..<r + rsz - 8} = {}"
  using geom_disj [OF g x r] geom_mem [OF g x] geom_mem [OF g r] by auto

lemma kept_op:
  assumes t: "touch ({LL..<LL + 8} \<union> links fl \<union> R) m m'" and g: "geom LL E bl"
    and fl: "set fl \<subseteq> set (free_addrs bl)" and al: "set al \<subseteq> set (allocd bl)"
    and R: "\<forall>(b, sz, a)\<in>set al. {b..<b + sz - 16} \<inter> R = {}"
  shows "kept al m m'"
proof (rule kept_touch [OF t g])
  show "set al \<subseteq> set bl"
    using al allocd_sub by blast
  show "\<forall>(b, sz, a)\<in>set al. {b..<b + sz - 16} \<inter> ({LL..<LL + 8} \<union> links fl \<union> R) = {}"
  proof -
    have "{b..<b + sz - 16} \<inter> ({LL..<LL + 8} \<union> links fl \<union> R) = {}"
      if x: "(b, sz, a) \<in> set al" for b sz a
    proof -
      from x al have "(b, sz, True) \<in> set bl"
        by (blast dest: allocd_mem)
      moreover from x R have "{b..<b + sz - 16} \<inter> R = {}"
        by fast
      ultimately show ?thesis
        using pay_links [OF g fl] by blast
    qed
    then show ?thesis
      by blast
  qed
qed

lemma no_adj_flag: "no_adj (pre @ (B, sz, a) # post) \<Longrightarrow> no_adj (pre @ (B, sz', True) # post)"
  by (auto simp: no_adj_append no_adj_Cons)

lemma no_adj_split:
  "no_adj (pre @ (B, sz, a) # post) \<Longrightarrow> no_adj (pre @ (B, sz', True) # (B', sz'', True) # post)"
  by (auto simp: no_adj_append no_adj_Cons)

lemma allocd_fresh:
  assumes g: "geom LL E (pre @ (B, sz, a) # post)"
  shows "B \<notin> fst ` set (allocd pre)" "B \<notin> fst ` set (allocd post)"
proof -
  from g have "chain (LL + 16) (pre @ (B, sz, a) # post) E"
    by (simp add: geom_def)
  then have "distinct (map fst (pre @ (B, sz, a) # post))"
    by (rule chain_distinct)
  then have "B \<notin> fst ` set pre" "B \<notin> fst ` set post"
    by auto
  then show "B \<notin> fst ` set (allocd pre)" "B \<notin> fst ` set (allocd post)"
    by (auto simp: allocd_def)
qed

text \<open>\<^verbatim>\<open>place\<close> on a free block whose successor is allocated: the exact block list and
  free list of the result.\<close>

lemma place_exact:
  assumes lay: "layout s LL E bl fl" and bl: "bl = pre @ (P, psz, pa) # (B, sz, False) # post"
    and A: "32 \<le> A" "16 dvd A" "A \<le> sz" and nx: "nxt_of E post = (N, nsz, True)"
  shows "\<exists>m'. place (w64 B) (w64 A) s = Some (s\<lparr>mem := m'\<rparr>)
     \<and> (if sz - A < 32
        then layout (s\<lparr>mem := m'\<rparr>) LL E (pre @ (P, psz, pa) # (B, sz, True) # post) (remove1 B fl)
        else layout (s\<lparr>mem := m'\<rparr>) LL E
               (pre @ (P, psz, pa) # (B, A, True) # (B + A, sz - A, False) # post)
               ((B + A) # remove1 B fl))"
proof (cases "sz - A < 32")
  case True
  with place_whole [OF lay bl A(3)] show ?thesis
    by auto
next
  case False
  then have "A + 32 \<le> sz"
    by simp
  from place_split_pre [OF lay bl A(1,2) this]
  obtain m6 where m6: "place (w64 B) (w64 A) s
        = do { (r, s7) \<leftarrow> coalesce (w64 (B + A)) (s\<lparr>mem := m6\<rparr>); Some s7 }"
    "layout (s\<lparr>mem := m6\<rparr>) LL E
          (pre @ (P, psz, pa) # (B, A, True) # (B + A, sz - A, False) # post)
          ((B + A) # remove1 B fl)"
    by blast
  have "coalesce (w64 (B + A)) (s\<lparr>mem := m6\<rparr>) = Some (w64 (B + A), s\<lparr>mem := m6\<rparr>)"
    by (rule coalesce_none [OF m6(2) _ nx, where pre = "pre @ [(P, psz, pa)]" and P = B
          and psz = A and B = "B + A" and sz = "sz - A" and a = False]) simp
  with m6 False show ?thesis
    by auto
qed

text \<open>\<^verbatim>\<open>place\<close> on any free block of a well-formed heap.\<close>

lemma place_ok:
  assumes lay: "layout s LL E bl fl" and bl: "bl = pre @ (P, psz, pa) # (B, sz, False) # post"
    and A: "32 \<le> A" "16 dvd A" "A \<le> sz"
  shows "\<exists>m' asz bl' fl'. place (w64 B) (w64 A) s = Some (s\<lparr>mem := m'\<rparr>)
     \<and> layout (s\<lparr>mem := m'\<rparr>) LL E bl' fl'
     \<and> allocd bl' = allocd (pre @ [(P, psz, pa)]) @ (B, asz, True) # allocd post
     \<and> A \<le> asz \<and> (no_adj bl \<longrightarrow> no_adj bl')
     \<and> kept (allocd bl) (mem s) m'"
proof (cases "sz - A < 32")
  case True
  note p = layout_parts [OF lay]
  from place_whole [OF lay bl A(3) True]
  obtain m' where m': "place (w64 B) (w64 A) s = Some (s\<lparr>mem := m'\<rparr>)"
    "layout (s\<lparr>mem := m'\<rparr>) LL E (pre @ (P, psz, pa) # (B, sz, True) # post) (remove1 B fl)"
    "touch ({LL..<LL + 8} \<union> links fl \<union> {B - 8..<B + sz - 8}) (mem s) m'"
    by blast
  have x: "(B, sz, False) \<in> set bl"
    by (simp add: bl)
  have k: "kept (allocd bl) (mem s) m'"
  proof (rule kept_op [OF m'(3) p(2) _ subset_refl])
    show "set fl \<subseteq> set (free_addrs bl)"
      using p(7) by simp
    show "\<forall>(b, z, a)\<in>set (allocd bl). {b..<b + z - 16} \<inter> {B - 8..<B + sz - 8} = {}"
      using pay_block [OF p(2) _ x] by (blast dest: allocd_mem)
  qed
  have al: "allocd (pre @ (P, psz, pa) # (B, sz, True) # post)
      = allocd (pre @ [(P, psz, pa)]) @ (B, sz, True) # allocd post"
    by (simp add: allocd_def)
  have na: "no_adj bl \<longrightarrow> no_adj (pre @ (P, psz, pa) # (B, sz, True) # post)"
    using no_adj_flag [of "pre @ [(P, psz, pa)]" B sz False post sz] by (simp add: bl)
  from m'(1,2) al A(3) na k show ?thesis
    by blast
next
  case False
  note p = layout_parts [OF lay]
  let ?bl2 = "pre @ (P, psz, pa) # (B, A, True) # (B + A, sz - A, False) # post"
  from False have "A + 32 \<le> sz"
    by simp
  from place_split_pre [OF lay bl A(1,2) this]
  obtain m6 where m6: "place (w64 B) (w64 A) s
        = do { (r, s7) \<leftarrow> coalesce (w64 (B + A)) (s\<lparr>mem := m6\<rparr>); Some s7 }"
    "layout (s\<lparr>mem := m6\<rparr>) LL E ?bl2 ((B + A) # remove1 B fl)"
    "touch ({LL..<LL + 8} \<union> links fl \<union> {B - 8..<B + sz - 8}) (mem s) m6"
    by blast
  from coalesce_ok [OF m6(2), of "pre @ [(P, psz, pa)]" B A True "B + A" "sz - A" post]
  obtain m' r rsz bl' fl' where c:
    "coalesce (w64 (B + A)) (s\<lparr>mem := m6\<rparr>) = Some (w64 r, s\<lparr>mem := m'\<rparr>)"
    "layout (s\<lparr>mem := m'\<rparr>) LL E bl' fl'" "allocd bl' = allocd ?bl2"
    "(r, rsz, False) \<in> set bl'"
    "no_adj (pre @ (P, psz, pa) # (B, A, True) # (B + A, sz - A, True) # post) \<longrightarrow> no_adj bl'"
    "touch ({LL..<LL + 8} \<union> links ((B + A) # remove1 B fl) \<union> {r - 8..<r + rsz - 8}) m6 m'"
    by auto
  have res: "place (w64 B) (w64 A) s = Some (s\<lparr>mem := m'\<rparr>)"
    by (simp add: m6(1) c(1))
  have al: "allocd bl' = allocd (pre @ [(P, psz, pa)]) @ (B, A, True) # allocd post"
    using c(3) by (simp add: allocd_def)
  have alsub: "set (allocd bl) \<subseteq> set (allocd bl')"
    unfolding al by (auto simp: bl allocd_def)
  have na: "no_adj bl \<longrightarrow> no_adj bl'"
    using c(5) no_adj_split [of "pre @ [(P, psz, pa)]" B sz False post A "B + A" "sz - A"]
    by (simp add: bl)
  have x: "(B, sz, False) \<in> set bl"
    by (simp add: bl)
  note p' = layout_parts [OF c(2)]
  have t: "touch ({LL..<LL + 8} \<union> links fl \<union> ({B - 8..<B + sz - 8} \<union> {r - 8..<r + rsz - 8}))
      (mem s) m'"
  proof (rule touch_mono [OF touch_trans [OF m6(3) c(6)]])
    have "links (remove1 B fl) \<subseteq> links fl"
      by (rule links_remove1)
    moreover have "32 \<le> sz" "16 \<le> A"
      using geom_free_big [OF p(2) x] A by simp_all
    ultimately show "{LL..<LL + 8} \<union> links fl \<union> {B - 8..<B + sz - 8}
        \<union> ({LL..<LL + 8} \<union> links ((B + A) # remove1 B fl) \<union> {r - 8..<r + rsz - 8})
        \<subseteq> {LL..<LL + 8} \<union> links fl \<union> ({B - 8..<B + sz - 8} \<union> {r - 8..<r + rsz - 8})"
      using \<open>A + 32 \<le> sz\<close> by (auto simp: links_Cons)
  qed
  have k: "kept (allocd bl) (mem s) m'"
  proof (rule kept_op [OF t p(2) _ subset_refl])
    show "set fl \<subseteq> set (free_addrs bl)"
      using p(7) by simp
    show "\<forall>(b, z, a)\<in>set (allocd bl).
        {b..<b + z - 16} \<inter> ({B - 8..<B + sz - 8} \<union> {r - 8..<r + rsz - 8}) = {}"
    proof -
      have "{b..<b + z - 16} \<inter> ({B - 8..<B + sz - 8} \<union> {r - 8..<r + rsz - 8}) = {}"
        if y: "(b, z, a) \<in> set (allocd bl)" for b z a
      proof -
      from y have y1: "(b, z, True) \<in> set bl"
        by (rule allocd_mem)
      from y alsub have "(b, z, a) \<in> set (allocd bl')"
        by blast
      then have y2: "(b, z, True) \<in> set bl'"
        by (rule allocd_mem)
      from pay_block [OF p(2) y1 x] pay_block [OF p'(2) y2 c(4)] show ?thesis
        by blast
      qed
      then show ?thesis
        by blast
    qed
  qed
  from res c(2) al na k show ?thesis
    by blast
qed

lemma block_split:
  assumes g: "geom LL E bl" and x: "x \<in> set bl" and nx: "x \<noteq> (LL + 16, 16, True)"
  shows "\<exists>pre p post. bl = pre @ p # x # post"
proof -
  from x obtain xs ys where s: "bl = xs @ x # ys"
    by (auto dest: split_list)
  with g nx have "xs \<noteq> []"
    by (auto simp: geom_def)
  then have "xs = butlast xs @ [last xs]"
    by simp
  with s have "bl = butlast xs @ last xs # x # ys"
    by (metis append.assoc append_Cons append_Nil)
  then show ?thesis
    by blast
qed

lemma free_split:
  assumes g: "geom LL E bl" and x: "(B, sz, False) \<in> set bl"
  shows "\<exists>pre P psz pa post. bl = pre @ (P, psz, pa) # (B, sz, False) # post"
proof -
  from block_split [OF g x] obtain pre p post where "bl = pre @ p # (B, sz, False) # post"
    by auto
  then show ?thesis
    by (cases p) blast
qed

text \<open>The scan of \<^verbatim>\<open>find_fit\<close> over a well-formed free list ends, with \<^verbatim>\<open>NULL\<close> or with
  a free block that is large enough.\<close>

lemma find_fit_loop_ok:
  assumes lay: "layout s LL E bl fl"
  shows "seg (mem s) prev xs cur 0 \<Longrightarrow> set xs \<subseteq> set (free_addrs bl) \<Longrightarrow>
    \<exists>r. find_fit_loop s k cur = Some r
      \<and> (r = 0 \<or> (\<exists>B sz. r = w64 B \<and> (B, sz, False) \<in> set bl \<and> unat k \<le> sz))"
proof (induction xs arbitrary: prev cur)
  case Nil
  then show ?case
    by (simp add: find_fit_loop.simps)
next
  case (Cons b xs)
  note p = layout_parts [OF lay]
  from Cons.prems have cur: "cur = w64 b"
    and sg: "seg (mem s) (w64 b) xs (load64 (mem s) (w64 (b + 8))) 0"
    and sub: "set xs \<subseteq> set (free_addrs bl)" and b: "b \<in> set (free_addrs bl)"
    by simp_all
  from b obtain z where z: "(b, z, False) \<in> set bl"
    unfolding free_addrs_iff by blast
  note zb = geom_mem [OF p(2) z] geom_free_big [OF p(2) z]
  have tg: "hdr_ok (mem s) (b, z, False)"
    using p(3) z by (auto simp: tagged_def)
  have b64: "b < 2 ^ 64" "z < 2 ^ 64"
  proof -
    have "(2::nat) ^ 63 < 2 ^ 64" by simp
    moreover have "b < 2 ^ 63" "z < 2 ^ 63"
      using zb by simp_all
    ultimately show "b < 2 ^ 64" "z < 2 ^ 64"
      by simp_all
  qed
  have nz: "w64 b \<noteq> 0"
    using zb b64 by (simp add: w64_eq_0_iff)
  have hs: "GET_SIZE s (HDRP (w64 b)) = Some (w64 z)"
    using zb tg p(1) by (simp add: HDRP_w64 GET_SIZE_hdr [where LL = LL and E = E and a = False])
  have cmp: "(k \<le> w64 z) = (unat k \<le> z)"
    using b64 by (simp add: w64_le_iff)
  have gp: "GET_PTR s (PADD (w64 b) 8) = Some (load64 (mem s) (w64 (b + 8)))"
    using zb p(1) by (simp add: GET_PTR_def PADD_w64 GET_ok [where LL = LL and E = E])
  show ?case
  proof (cases "unat k \<le> z")
    case True
    then have "find_fit_loop s k cur = Some (w64 b)"
      using nz by (subst find_fit_loop.simps) (simp add: cur hs cmp)
    with z True show ?thesis
      by blast
  next
    case False
    then have "find_fit_loop s k cur = find_fit_loop s k (load64 (mem s) (w64 (b + 8)))"
      using nz by (subst find_fit_loop.simps) (simp add: cur hs cmp gp)
    with Cons.IH [OF sg sub] show ?thesis
      by simp
  qed
qed

lemma find_fit_ok:
  assumes lay: "layout s LL E bl fl"
  shows "\<exists>r. find_fit k s = Some r
      \<and> (r = 0 \<or> (\<exists>B sz. r = w64 B \<and> (B, sz, False) \<in> set bl \<and> unat k \<le> sz))"
proof -
  note p = layout_parts [OF lay]
  have g: "GET_PTR s (LL_START s) = Some (load64 (mem s) (w64 LL))"
    using p(1) by (simp add: GET_PTR_def LL_START_w64 [OF p(1)] GET_ok [where LL = LL and E = E]
        arena_def)
  have "seg (mem s) 0 fl (load64 (mem s) (w64 LL)) 0"
    using p(5) by (simp add: linked_def)
  from find_fit_loop_ok [OF lay this, of k] p(7) show ?thesis
    by (simp add: find_fit_def g)
qed

lemma sint_w64: "n < 2 ^ 63 \<Longrightarrow> \<not> sint (w64 n) < 0"
proof -
  assume n: "n < 2 ^ 63"
  have "bit (w64 n) 63 = bit n 63"
    by (simp add: w64_def bit_of_nat_iff)
  also have "\<dots> = False"
    using n by (simp add: bit_iff_odd)
  finally show ?thesis
    using bit_last_iff [of "w64 n"] by simp
qed

lemma nodes_in_append: "nodes_in bl fl \<Longrightarrow> nodes_in (bl @ ys) fl"
  unfolding nodes_in_def by (auto; blast)

lemma no_adj_snoc: "no_adj bl \<Longrightarrow> no_adj (bl @ [(B, sz, True)])"
  by (auto simp: no_adj_append)

text \<open>\<^verbatim>\<open>extend_heap\<close> on a well-formed heap, for a request of \<open>SZ\<close> bytes: when the memory
  system has no room the heap is left as it was; otherwise the new space becomes a free
  block, merged with a free last block.\<close>

lemma extend_heap_ok:
  assumes lay: "layout s LL E bl fl" and mx: "unat (mem_max_addr s) \<le> 2 ^ 63"
    and sz: "(if words mod 2 = 1 then words * WSIZE + WSIZE else words * WSIZE) = w64 SZ"
      "32 \<le> SZ" "16 dvd SZ" "SZ < 2 ^ 64"
  shows "if E + SZ \<le> unat (mem_max_addr s)
    then \<exists>m' r rsz bl' fl'.
       extend_heap words s = Some (w64 r, s\<lparr>mem_brk := w64 (E + SZ), mem := m'\<rparr>)
     \<and> layout (s\<lparr>mem_brk := w64 (E + SZ), mem := m'\<rparr>) LL (E + SZ) bl' fl'
     \<and> allocd bl' = allocd bl \<and> (r, rsz, False) \<in> set bl' \<and> SZ \<le> rsz
     \<and> (no_adj bl \<longrightarrow> no_adj bl') \<and> kept (allocd bl) (mem s) m'
    else extend_heap words s = Some (0, s)"
proof (cases "E + SZ \<le> unat (mem_max_addr s)")
  case False
  note p = layout_parts [OF lay]
  have "unat (mem_brk s) = E"
    using p(1) by (simp add: arena_def)
  with False have "mem_sbrk (w64 SZ) s = (None, s)"
    using sz(4) by (simp add: mem_sbrk_def unat_w64)
  with False show ?thesis
    using sz(1) by (simp add: extend_heap_def Let_def)
next
  case True
  note p = layout_parts [OF lay]
  let ?E = "E + SZ"
  let ?s1 = "s\<lparr>mem_brk := w64 ?E\<rparr>"
  let ?bl1 = "bl @ [(E, SZ, False)]"
  let ?V = "PACK (w64 SZ) (flag False)"
  let ?m2 = "store64 (mem s) (w64 (E - 8)) ?V"
  let ?m3 = "store64 ?m2 (w64 (E + SZ - 16)) ?V"
  let ?m4 = "store64 ?m3 (w64 (E + SZ - 8)) (PACK 0 1)"
  have E: "unat (mem_brk s) = E" "LL + 32 \<le> E"
    using p(1) by (simp_all add: arena_def)
  have E63: "?E \<le> 2 ^ 63"
    using True mx by simp
  have lt63: "E < 2 ^ 63"
    using E63 sz(2) by simp
  have p64: "(2::nat) ^ 63 < 2 ^ 64"
    by simp
  have E64: "?E < 2 ^ 64"
    using E63 p64 by simp
  have brk: "mem_brk s = w64 E"
    using E(1) w64_unat [of "mem_brk s"] by simp
  have sb: "mem_sbrk (w64 SZ) s = (Some (w64 E), ?s1)"
    using True sz(4) E(1) by (simp add: mem_sbrk_def unat_w64 brk w64_add)
  have ar1: "arena ?s1 LL ?E"
    using p(1) E63 E64 by (simp add: arena_def unat_w64)
  note ar = E(2) E63 sz(2)
  have g1: "geom LL ?E ?bl1"
    using p(2) sz(2,3) E63 by (rule geom_extend)
  have x: "(E, SZ, False) \<in> set ?bl1"
    by simp
  have p2: "PUT (HDRP (w64 E)) ?V ?s1 = Some (?s1\<lparr>mem := ?m2\<rparr>)"
    using ar ar1 by (simp add: HDRP_w64 PUT_ok [where LL = LL and E = ?E])
  have "hdr_ok ?m2 (E, SZ, False)"
    by (simp add: hdr_ok_def load64_store64_same)
  then have F: "FTRP (?s1\<lparr>mem := ?m2\<rparr>) (w64 E) = Some (w64 (E + SZ - 16))"
    using ar ar1 sz(3) by (intro FTRP_ok [where LL = LL and E = ?E and a = False]) simp_all
  have p3: "PUT (w64 (E + SZ - 16)) ?V (?s1\<lparr>mem := ?m2\<rparr>) = Some (?s1\<lparr>mem := ?m3\<rparr>)"
    using ar ar1 by (simp add: PUT_ok [where LL = LL and E = ?E])
  have tg3: "tagged ?m3 ((E, SZ, False) # bl)"
    using retag [OF g1 x _ p(3)] by auto
  then have "hdr_ok ?m3 (E, SZ, False)"
    by (simp add: tagged_Cons)
  then have N: "NEXT_BLKP (?s1\<lparr>mem := ?m3\<rparr>) (w64 E) = Some (w64 (E + SZ))"
    using ar ar1 sz(3) by (intro NEXT_BLKP_ok [where LL = LL and E = ?E and a = False]) simp_all
  have p4: "PUT (HDRP (w64 (E + SZ))) (PACK 0 1) (?s1\<lparr>mem := ?m3\<rparr>) = Some (?s1\<lparr>mem := ?m4\<rparr>)"
    using ar ar1 by (simp add: HDRP_w64 PUT_ok [where LL = LL and E = ?E])
  have t4: "touch {E + SZ - 8..<E + SZ - 8 + 8} ?m3 ?m4"
    using ar by (intro touch_store; simp; arith)
  have c1: "chain (LL + 16) ?bl1 ?E"
    using g1 by (simp add: geom_def)
  have tb: "tag_bytes ?bl1 \<subseteq> {LL + 16 - 8..<?E - 8}"
    using c1 by (rule tag_bytes_span) simp
  have tg4: "tagged ?m4 ?bl1"
  proof (rule tagged_touch [OF _ t4])
    show "tagged ?m3 ?bl1"
      using tg3 by (simp add: tagged_def)
    show "{E + SZ - 8..<E + SZ - 8 + 8} \<inter> tag_bytes ?bl1 = {}"
      using tb by auto
    show "\<forall>(b, sz, a)\<in>set ?bl1. 8 \<le> b \<and> 16 \<le> sz \<and> b + sz \<le> 2 ^ 64"
      by (rule geom_bounds [OF g1 subset_refl])
  qed
  have ep4: "load64 ?m4 (w64 (?E - 8)) = PACK 0 1"
    by (simp add: load64_store64_same)
  have ni1: "nodes_in ?bl1 fl"
    using p(8) by (rule nodes_in_append)
  have l3: "linked ?m3 LL fl"
    using linked_tag_store [OF g1 ni1 x] p(5) by simp
  have l4: "linked ?m4 LL fl"
  proof -
    have "linked ?m4 LL fl = linked ?m3 LL fl"
    proof (rule linked_touch [OF t4])
      show "{E + SZ - 8..<E + SZ - 8 + 8} \<inter> ({LL..<LL + 8} \<union> links fl) = {}"
        using geom_links_below [OF g1 ni1] by fastforce
      show "\<forall>b\<in>set fl. b + 16 \<le> 2 ^ 64"
        using p(9) E63 p64 by (fastforce simp: nodes_ok_def)
      show "LL + 8 \<le> 2 ^ 64"
        using ar p64 by simp
    qed
    with l3 show ?thesis by simp
  qed
  have Efl: "E \<notin> set fl"
  proof
    assume "E \<in> set fl"
    with p(7) obtain z where z: "(E, z, False) \<in> set bl"
      by (auto simp: free_addrs_iff)
    from geom_mem [OF p(2) z] show False
      by auto
  qed
  have sf: "set (E # fl) = set (free_addrs ?bl1)"
    using p(7) by (simp add: free_addrs_def)
  have ni1': "nodes_in ?bl1 (E # fl)"
    using sf by (intro free_nodes_in [OF g1]) simp
  have d: "distinct (E # fl)"
    using p(6) Efl by simp
  have no: "nodes_ok LL ?E (E # fl)"
    by (rule geom_nodes_ok [OF g1 ni1' d])
  let ?s4 = "s\<lparr>mem_brk := w64 ?E, mem := ?m4\<rparr>"
  have ar4: "arena ?s4 LL ?E"
    using ar1 by simp
  from insert_node_ok [OF ar4 _ no] l4
  obtain m5 where i5: "insert_node (w64 E) ?s4 = Some (?s4\<lparr>mem := m5\<rparr>)"
    and l5: "linked m5 LL (E # fl)" and t5: "touch ({LL..<LL + 8} \<union> links (E # fl)) ?m4 m5"
    by auto
  have tg5: "tagged m5 ?bl1"
    by (rule tagged_list_touch [OF g1 ni1' t5 tg4 subset_refl])
  have ep5: "load64 m5 (w64 (?E - 8)) = PACK 0 1"
    using epilogue_list_touch [OF g1 ni1' t5] ep4 by simp
  let ?s5 = "s\<lparr>mem_brk := w64 ?E, mem := m5\<rparr>"
  have lay5: "layout ?s5 LL ?E ?bl1 (E # fl)"
    using ar1 g1 tg5 ep5 l5 sf d by (simp add: layout_def)
  have blne: "bl \<noteq> []"
    using p(2) by (simp add: geom_def)
  obtain P psz pa where lst: "last bl = (P, psz, pa)"
    by (cases "last bl")
  have bls: "bl = butlast bl @ [(P, psz, pa)]"
    using blne lst by (metis append_butlast_last_id)
  have bl1: "?bl1 = butlast bl @ (P, psz, pa) # (E, SZ, False) # []"
    using bls by (metis append.assoc append_Cons append_Nil)
  from coalesce_ok [OF lay5 bl1]
  obtain m' r rsz bl' fl' where c: "coalesce (w64 E) ?s5 = Some (w64 r, ?s5\<lparr>mem := m'\<rparr>)"
    "layout (?s5\<lparr>mem := m'\<rparr>) LL ?E bl' fl'" "allocd bl' = allocd ?bl1"
    "(r, rsz, False) \<in> set bl'" "r \<le> E" "E + SZ \<le> r + rsz"
    "no_adj (butlast bl @ (P, psz, pa) # (E, SZ, True) # []) \<longrightarrow> no_adj bl'"
    "touch ({LL..<LL + 8} \<union> links (E # fl) \<union> {r - 8..<r + rsz - 8}) m5 m'"
    by auto
  have res: "extend_heap words s = Some (w64 r, s\<lparr>mem_brk := w64 ?E, mem := m'\<rparr>)"
    using lt63 sz(1) c(1)
    by (simp add: extend_heap_def Let_def sb sint_w64 PACK_flag p2 F p3 N p4 [unfolded PACK_flag] i5 [unfolded PACK_flag])
  have lay': "layout (s\<lparr>mem_brk := w64 ?E, mem := m'\<rparr>) LL ?E bl' fl'"
    using c(2) by simp
  have al: "allocd bl' = allocd bl"
    using c(3) by (simp add: allocd_def)
  have rs: "SZ \<le> rsz"
    using c(5,6) by simp
  have na: "no_adj bl \<longrightarrow> no_adj bl'"
  proof
    assume "no_adj bl"
    then have "no_adj (bl @ [(E, SZ, True)])"
      by (rule no_adj_snoc)
    moreover have "bl @ [(E, SZ, True)] = butlast bl @ (P, psz, pa) # (E, SZ, True) # []"
      using bls by (metis append.assoc append_Cons append_Nil)
    ultimately show "no_adj bl'"
      using c(7) by simp
  qed
  note p' = layout_parts [OF lay']
  have t: "touch ({LL..<LL + 8} \<union> links fl \<union> ({E - 8..<E + SZ} \<union> {r - 8..<r + rsz - 8}))
      (mem s) m'"
  proof -
    have ta: "touch ({} \<union> {E - 8..<E - 8 + 8}) (mem s) ?m2"
      using ar by (intro touch_store2 [OF touch_refl]; simp; arith)
    have tb: "touch ({} \<union> {E - 8..<E - 8 + 8} \<union> {E + SZ - 16..<E + SZ - 16 + 8}) (mem s) ?m3"
      using ar by (intro touch_store2 [OF ta]; simp; arith)
    have tc: "touch ({} \<union> {E - 8..<E - 8 + 8} \<union> {E + SZ - 16..<E + SZ - 16 + 8}
        \<union> {E + SZ - 8..<E + SZ - 8 + 8}) (mem s) ?m4"
      using ar by (intro touch_store2 [OF tb]; simp; arith)
    show ?thesis
    proof (rule touch_mono [OF touch_trans [OF touch_trans [OF tc t5] c(8)]])
      show "{} \<union> {E - 8..<E - 8 + 8} \<union> {E + SZ - 16..<E + SZ - 16 + 8}
        \<union> {E + SZ - 8..<E + SZ - 8 + 8} \<union> ({LL..<LL + 8} \<union> links (E # fl))
        \<union> ({LL..<LL + 8} \<union> links (E # fl) \<union> {r - 8..<r + rsz - 8})
        \<subseteq> {LL..<LL + 8} \<union> links fl \<union> ({E - 8..<E + SZ} \<union> {r - 8..<r + rsz - 8})"
        using ar by (auto simp: links_Cons)
    qed
  qed
  have k: "kept (allocd bl) (mem s) m'"
  proof (rule kept_op [OF t p(2) _ subset_refl])
    show "set fl \<subseteq> set (free_addrs bl)"
      using p(7) by simp
    show "\<forall>(b, z, a)\<in>set (allocd bl).
        {b..<b + z - 16} \<inter> ({E - 8..<E + SZ} \<union> {r - 8..<r + rsz - 8}) = {}"
    proof -
      have "{b..<b + z - 16} \<inter> ({E - 8..<E + SZ} \<union> {r - 8..<r + rsz - 8}) = {}"
        if y: "(b, z, a) \<in> set (allocd bl)" for b z a
      proof -
        from y have y1: "(b, z, True) \<in> set bl"
          by (rule allocd_mem)
        from y al have "(b, z, a) \<in> set (allocd bl')"
          by simp
        then have y2: "(b, z, True) \<in> set bl'"
          by (rule allocd_mem)
        have "{b..<b + z - 16} \<inter> {E - 8..<E + SZ} = {}"
          using geom_mem [OF p(2) y1] by auto
        with pay_block [OF p'(2) y2 c(4)] show ?thesis
          by blast
      qed
      then show ?thesis
        by blast
    qed
  qed
  from res lay' al c(4) rs na k have "\<exists>m' r rsz bl' fl'.
       extend_heap words s = Some (w64 r, s\<lparr>mem_brk := w64 (E + SZ), mem := m'\<rparr>)
     \<and> layout (s\<lparr>mem_brk := w64 (E + SZ), mem := m'\<rparr>) LL (E + SZ) bl' fl'
     \<and> allocd bl' = allocd bl \<and> (r, rsz, False) \<in> set bl' \<and> SZ \<le> rsz
     \<and> (no_adj bl \<longrightarrow> no_adj bl') \<and> kept (allocd bl) (mem s) m'"
    by blast
  with True show ?thesis
    by simp
qed

lemma w64_div: "n < 2 ^ 64 \<Longrightarrow> w64 n div 8 = w64 (n div 8)"
proof -
  assume n: "n < 2 ^ 64"
  have "unat (w64 n div 8) = unat (w64 (n div 8))"
    using n by (simp add: unat_div unat_w64 less_imp_diff_less div_le_dividend
        le_less_trans [OF div_le_dividend])
  then show ?thesis
    by (rule word_unat_eq_iff [THEN iffD2])
qed

lemma w64_max: "a < 2 ^ 64 \<Longrightarrow> b < 2 ^ 64 \<Longrightarrow> max (w64 a) (w64 b) = w64 (max a b)"
  by (simp add: max_def word_le_nat_alt unat_w64)

lemma ext_words:
  assumes "16 dvd SZ" "SZ < 2 ^ 64"
  shows "(if (w64 SZ div 8) mod 2 = 1 then w64 SZ div 8 * WSIZE + WSIZE else w64 SZ div 8 * WSIZE)
     = w64 SZ"
proof -
  from assms(1) obtain k where k: "SZ = 16 * k"
    by (auto simp: dvd_def)
  have d: "w64 SZ div 8 = w64 (2 * k)"
    using assms(2) k by (simp add: w64_div)
  have "unat (w64 (2 * k) mod 2) = 0"
    using assms(2) k by (simp add: unat_mod unat_w64)
  then have m: "w64 (2 * k) mod 2 \<noteq> 1"
    by (metis unat_1 zero_neq_one)
  have "w64 (2 * k) * 8 = w64 (16 * k)"
    by (simp add: w64_def)
  with d m k show ?thesis
    by simp
qed


lemma block_nonnull:
  assumes g: "geom LL E bl" and x: "(B, sz, a) \<in> set bl"
  shows "w64 B \<noteq> 0" "B < 2 ^ 64"
proof -
  have "(2::nat) ^ 63 < 2 ^ 64"
    by simp
  with geom_mem [OF g x] show b: "B < 2 ^ 64"
    by simp
  from geom_mem [OF g x] have "B \<noteq> 0"
    by auto
  with b show "w64 B \<noteq> 0"
    by (simp add: w64_eq_0_iff)
qed

text \<open>\<^verbatim>\<open>mm_free\<close> on an allocated block of a well-formed heap.\<close>

lemma mm_free_kept:
  assumes lay: "layout s LL E bl fl" and bl: "bl = pre @ (P, psz, pa) # (B, sz, True) # post"
  shows "\<exists>m' bl' fl'. mm_free (w64 B) s = Some (s\<lparr>mem := m'\<rparr>)
     \<and> layout (s\<lparr>mem := m'\<rparr>) LL E bl' fl'
     \<and> allocd bl' = allocd (pre @ [(P, psz, pa)]) @ allocd post
     \<and> (no_adj bl \<longrightarrow> no_adj bl')
     \<and> kept (allocd bl') (mem s) m'"
proof -
  note p = layout_parts [OF lay]
  from mm_free_ok [OF lay bl]
  obtain m' r rsz bl' fl' where f: "mm_free (w64 B) s = Some (s\<lparr>mem := m'\<rparr>)"
    "layout (s\<lparr>mem := m'\<rparr>) LL E bl' fl'"
    "allocd bl' = allocd (pre @ [(P, psz, pa)]) @ allocd post"
    "(r, rsz, False) \<in> set bl'" "no_adj bl \<longrightarrow> no_adj bl'"
    "touch ({LL..<LL + 8} \<union> links fl \<union> {r - 8..<r + rsz - 8}) (mem s) m'"
    by blast
  note p' = layout_parts [OF f(2)]
  have k: "kept (allocd bl') (mem s) m'"
  proof (rule kept_op [OF f(6) p(2)])
    show "set fl \<subseteq> set (free_addrs bl)"
      using p(7) by simp
    show "set (allocd bl') \<subseteq> set (allocd bl)"
      unfolding f(3) by (auto simp: bl allocd_def)
    show "\<forall>(b, z, a)\<in>set (allocd bl'). {b..<b + z - 16} \<inter> {r - 8..<r + rsz - 8} = {}"
      using pay_block [OF p'(2) _ f(4)] by (blast dest: allocd_mem)
  qed
  from f(1,2,3,5) k show ?thesis
    by blast
qed

text \<open>\<^verbatim>\<open>mm_malloc\<close> on a well-formed heap, for a request of at most \<open>2 ^ 64 - 32\<close>
  bytes: it returns; either it returns \<^verbatim>\<open>NULL\<close> and leaves the heap as it was, or it
  returns the address of a new allocated block whose payload holds the request.\<close>

lemma mm_malloc_ok:
  assumes lay: "layout s LL E bl fl" and mx: "unat (mem_max_addr s) \<le> 2 ^ 63"
    and n: "0 < unat n" "unat n \<le> 2 ^ 64 - 32"
  shows "\<exists>p s'. mm_malloc n s = Some (p, s') \<and> (p = 0 \<and> s' = s
     \<or> (\<exists>B asz E' bl' fl' m'. p = w64 B \<and> p \<noteq> 0 \<and> s' = s\<lparr>mem_brk := w64 E', mem := m'\<rparr>
         \<and> E \<le> E' \<and> E' \<le> E + unat n + 4127
         \<and> layout s' LL E' bl' fl'
         \<and> set (allocd bl') = insert (B, asz, True) (set (allocd bl))
         \<and> B \<notin> fst ` set (allocd bl) \<and> unat n + 16 \<le> asz
         \<and> (no_adj bl \<longrightarrow> no_adj bl') \<and> kept (allocd bl) (mem s) m'))
     \<and> (E + unat n + 4127 \<le> unat (mem_max_addr s) \<longrightarrow> p \<noteq> 0)"
proof -
  note p = layout_parts [OF lay]
  define A where "A = unat (adjust_size n)"
  have A: "A = (if unat n \<le> 16 then 32 else 16 * ((unat n + 31) div 16))"
    unfolding A_def using n(2) by (rule unat_adjust_size)
  have A32: "32 \<le> A" and A16: "16 dvd A" and An: "unat n + 16 \<le> A"
    using round_up_16(1) [of "unat n"] by (auto simp: A)
  have Aub: "A \<le> unat n + 31"
    using n(1) by (simp add: A)
  have A64: "A < 2 ^ 64"
    unfolding A_def using unsigned_less [of "adjust_size n", where 'a = nat] by simp
  have as: "adjust_size n = w64 A"
    by (simp add: A_def w64_unat)
  have n0: "\<not> n \<le> 0"
    using n(1) by (simp add: word_le_nat_alt)
  have brk: "mem_brk s = w64 E"
    using p(1) w64_unat [of "mem_brk s"] by (simp add: arena_def)
  from find_fit_ok [OF lay, of "w64 A"]
  obtain r where ff: "find_fit (w64 A) s = Some r"
    and r: "r = 0 \<or> (\<exists>B sz. r = w64 B \<and> (B, sz, False) \<in> set bl \<and> unat (w64 A) \<le> sz)"
    by blast
  show ?thesis
  proof (cases "r = 0")
    case False
    with r obtain B sz where B: "r = w64 B" "(B, sz, False) \<in> set bl" "A \<le> sz"
      using A64 by (auto simp: unat_w64)
    from free_split [OF p(2) B(2)]
    obtain pre P psz pa post where bl: "bl = pre @ (P, psz, pa) # (B, sz, False) # post"
      by blast
    from place_ok [OF lay bl A32 A16 B(3)]
    obtain m' asz bl' fl' where pl: "place (w64 B) (w64 A) s = Some (s\<lparr>mem := m'\<rparr>)"
      "layout (s\<lparr>mem := m'\<rparr>) LL E bl' fl'"
      "allocd bl' = allocd (pre @ [(P, psz, pa)]) @ (B, asz, True) # allocd post"
      "A \<le> asz" "no_adj bl \<longrightarrow> no_adj bl'" "kept (allocd bl) (mem s) m'"
      by blast
    have st: "s\<lparr>mem := m'\<rparr> = s\<lparr>mem_brk := w64 E, mem := m'\<rparr>"
      using brk by simp
    have res: "mm_malloc n s = Some (w64 B, s\<lparr>mem_brk := w64 E, mem := m'\<rparr>)"
      using n0 False B(1) by (simp add: mm_malloc_def Let_def as ff pl(1) st)
    have al: "allocd bl = allocd (pre @ [(P, psz, pa)]) @ allocd post"
      by (simp add: bl allocd_def)
    have sa: "set (allocd bl') = insert (B, asz, True) (set (allocd bl))"
      unfolding pl(3) al by auto
    have fr: "B \<notin> fst ` set (allocd bl)"
      using allocd_fresh [of LL E "pre @ [(P, psz, pa)]" B sz False post] p(2)
      unfolding al by (auto simp: bl)
    have "unat n + 16 \<le> asz"
      using An pl(4) by simp
    moreover have "E \<le> E" "E \<le> E + unat n + 4127"
      by simp_all
    moreover have "w64 B \<noteq> 0"
      using False B(1) by simp
    ultimately show ?thesis
      using res pl(2) [unfolded st] sa fr pl(5,6) by blast
  next
    case True
    define SZ where "SZ = max A 4096"
    have SZ: "32 \<le> SZ" "16 dvd SZ" "SZ < 2 ^ 64" "A \<le> SZ"
      using A32 A16 A64 by (auto simp: SZ_def max_def)
    have SZub: "E + SZ \<le> E + unat n + 4127"
      using Aub by (simp add: SZ_def)
    have mxw: "max (w64 A) CHUNKSIZE = w64 SZ"
      using w64_max [of A 4096] A64 by (simp add: SZ_def w64_def)
    note ew = ext_words [OF SZ(2,3)]
    show ?thesis
    proof (cases "E + SZ \<le> unat (mem_max_addr s)")
      case False
      with extend_heap_ok [OF lay mx ew SZ(1,2,3)]
      have "extend_heap (w64 SZ div 8) s = Some (0, s)"
        by simp
      then have "mm_malloc n s = Some (0, s)"
        using n0 True by (simp add: mm_malloc_def Let_def as ff mxw)
      moreover have "\<not> E + unat n + 4127 \<le> unat (mem_max_addr s)"
        using False SZub by simp
      ultimately show ?thesis
        by simp
    next
      case ok: True
      with extend_heap_ok [OF lay mx ew SZ(1,2,3)]
      obtain m1 r1 rsz bl1 fl1 where e:
        "extend_heap (w64 SZ div 8) s = Some (w64 r1, s\<lparr>mem_brk := w64 (E + SZ), mem := m1\<rparr>)"
        "layout (s\<lparr>mem_brk := w64 (E + SZ), mem := m1\<rparr>) LL (E + SZ) bl1 fl1"
        "allocd bl1 = allocd bl" "(r1, rsz, False) \<in> set bl1" "SZ \<le> rsz"
        "no_adj bl \<longrightarrow> no_adj bl1" "kept (allocd bl) (mem s) m1"
        by auto
      let ?s1 = "s\<lparr>mem_brk := w64 (E + SZ), mem := m1\<rparr>"
      note p1 = layout_parts [OF e(2)]
      have nz: "w64 r1 \<noteq> 0"
        by (rule block_nonnull [OF p1(2) e(4)])
      from free_split [OF p1(2) e(4)]
      obtain pre P psz pa post where bl: "bl1 = pre @ (P, psz, pa) # (r1, rsz, False) # post"
        by blast
      have "A \<le> rsz"
        using SZ(4) e(5) by simp
      from place_ok [OF e(2) bl A32 A16 this]
      obtain m' asz bl' fl' where pl: "place (w64 r1) (w64 A) ?s1 = Some (?s1\<lparr>mem := m'\<rparr>)"
        "layout (?s1\<lparr>mem := m'\<rparr>) LL (E + SZ) bl' fl'"
        "allocd bl' = allocd (pre @ [(P, psz, pa)]) @ (r1, asz, True) # allocd post"
        "A \<le> asz" "no_adj bl1 \<longrightarrow> no_adj bl'" "kept (allocd bl1) (mem ?s1) m'"
        by blast
      have res: "mm_malloc n s = Some (w64 r1, s\<lparr>mem_brk := w64 (E + SZ), mem := m'\<rparr>)"
        using n0 True nz by (simp add: mm_malloc_def Let_def as ff mxw e(1) pl(1))
      have al: "allocd bl = allocd (pre @ [(P, psz, pa)]) @ allocd post"
        unfolding e(3) [symmetric] by (simp add: bl allocd_def)
      have sa: "set (allocd bl') = insert (r1, asz, True) (set (allocd bl))"
        unfolding pl(3) al by auto
      have fr: "r1 \<notin> fst ` set (allocd bl)"
        using allocd_fresh [of LL "E + SZ" "pre @ [(P, psz, pa)]" r1 rsz False post] p1(2)
        unfolding al by (auto simp: bl)
      have k: "kept (allocd bl) (mem s) m'"
        using e(7) pl(6) unfolding e(3) by (simp add: kept_trans)
      have "unat n + 16 \<le> asz"
        using An pl(4) by simp
      moreover have "layout (s\<lparr>mem_brk := w64 (E + SZ), mem := m'\<rparr>) LL (E + SZ) bl' fl'"
        using pl(2) by simp
      moreover have "no_adj bl \<longrightarrow> no_adj bl'"
        using e(6) pl(5) by simp
      moreover have "E \<le> E + SZ"
        by simp
      ultimately show ?thesis
        using res sa fr k nz SZub by blast
    qed
  qed
qed

text \<open>Modelled from the spec: the memory system before \<^verbatim>\<open>mm_init\<close>.  The arena is
  empty, it starts at a nonzero address aligned to the double word, and it ends below
  \<open>2 ^ 63\<close>.\<close>

definition fresh :: "state \<Rightarrow> bool" where
  "fresh s = (mem_brk s = mem_start_brk s \<and> 0 < unat (mem_start_brk s)
     \<and> 16 dvd unat (mem_start_brk s) \<and> unat (mem_max_addr s) \<le> 2 ^ 63)"

lemma PUT_raw:
  "unat (mem_start_brk s) \<le> X \<Longrightarrow> X + 8 \<le> unat (mem_brk s) \<Longrightarrow>
     PUT (w64 X) v s = Some (s\<lparr>mem := store64 (mem s) (w64 X) v\<rparr>)"
proof -
  assume a: "unat (mem_start_brk s) \<le> X" "X + 8 \<le> unat (mem_brk s)"
  have "unat (mem_brk s) < 2 ^ 64"
    using unsigned_less [of "mem_brk s", where 'a = nat] by simp
  with a have "X < 2 ^ 64"
    by simp
  with a show ?thesis
    by (simp add: PUT_def valid_def unat_w64)
qed

lemma mm_init_ok:
  assumes f: "fresh s"
  shows "\<exists>r s'. mm_init s = Some (r, s') \<and>
    (if unat (mem_start_brk s) + 4128 \<le> unat (mem_max_addr s)
     then r = 0 \<and> (\<exists>bl fl.
            layout s' (unat (mem_start_brk s)) (unat (mem_start_brk s) + 4128) bl fl
          \<and> allocd bl = [(unat (mem_start_brk s) + 16, 16, True)] \<and> no_adj bl
          \<and> mem_start_brk s' = mem_start_brk s \<and> mem_max_addr s' = mem_max_addr s)
     else r = - 1)"
proof -
  define LL where "LL = unat (mem_start_brk s)"
  have brk: "mem_brk s = w64 LL" "unat (mem_brk s) = LL" and LL0: "0 < LL"
    and mx: "unat (mem_max_addr s) \<le> 2 ^ 63"
    using f by (simp_all add: fresh_def LL_def w64_unat)
  have p64: "(2::nat) ^ 63 < 2 ^ 64"
    by simp
  have uLL: "unat (w64 LL) = LL"
    using brk by simp
  show ?thesis
  proof (cases "LL + 32 \<le> unat (mem_max_addr s)")
    case False
    then have "mem_sbrk 32 s = (None, s)"
      by (simp add: mem_sbrk_def brk uLL)
    with False show ?thesis
      by (simp add: mm_init_def LL_def)
  next
    case True
    let ?E = "LL + 32"
    have L63: "?E \<le> 2 ^ 63"
      using True mx by simp
    then have L64: "?E < 2 ^ 64" "LL < 2 ^ 64"
      using p64 by simp_all
    let ?s0 = "s\<lparr>mem_brk := w64 ?E\<rparr>"
    have sb: "mem_sbrk 32 s = (Some (w64 LL), ?s0)"
      using True by (simp add: mem_sbrk_def brk uLL w64_add_unat)
    have nz: "w64 LL \<noteq> 0"
      using LL0 L64 by (simp add: w64_eq_0_iff)
    let ?s1 = "s\<lparr>mem_brk := w64 ?E, heap_start := w64 LL\<rparr>"
    let ?m1 = "store64 (mem s) (w64 LL) 0"
    let ?m2 = "store64 ?m1 (w64 (LL + 8)) (PACK OVERHEAD 1)"
    let ?m3 = "store64 ?m2 (w64 (LL + 16)) (PACK OVERHEAD 1)"
    let ?m4 = "store64 ?m3 (w64 (LL + 24)) (PACK 0 1)"
    have ub: "unat (mem_brk ?s1) = ?E" "unat (mem_start_brk ?s1) = LL"
      using L64 by (simp_all add: unat_w64 LL_def)
    have p1: "PUT_PTR (w64 LL) 0 ?s1 = Some (?s1\<lparr>mem := ?m1\<rparr>)"
      using PUT_raw [of ?s1 LL] ub by (simp add: PUT_PTR_def)
    have p2: "PUT (w64 (LL + 8)) (PACK OVERHEAD 1) (?s1\<lparr>mem := ?m1\<rparr>)
        = Some (?s1\<lparr>mem := ?m2\<rparr>)"
      using PUT_raw [of "?s1\<lparr>mem := ?m1\<rparr>" "LL + 8"] ub by simp
    have p3: "PUT (w64 (LL + 16)) (PACK OVERHEAD 1) (?s1\<lparr>mem := ?m2\<rparr>)
        = Some (?s1\<lparr>mem := ?m3\<rparr>)"
      using PUT_raw [of "?s1\<lparr>mem := ?m2\<rparr>" "LL + 16"] ub by simp
    have p4: "PUT (w64 (LL + 24)) (PACK 0 1) (?s1\<lparr>mem := ?m3\<rparr>)
        = Some (?s1\<lparr>mem := ?m4\<rparr>)"
      using PUT_raw [of "?s1\<lparr>mem := ?m3\<rparr>" "LL + 24"] ub by simp
    let ?s6 = "s\<lparr>mem_brk := w64 ?E, mem := ?m4, heap_start := w64 (LL + 16)\<rparr>"
    let ?bl = "[(LL + 16, 16, True)]"
    have ar6: "arena ?s6 LL ?E"
      using L63 L64 by (simp add: arena_def unat_w64 LL_def)
    have g6: "geom LL ?E ?bl"
      using L63 by (simp add: geom_def)
    have h: "load64 ?m4 (w64 (LL + 8)) = PACK OVERHEAD 1"
    proof -
      have "load64 ?m4 (w64 (LL + 8)) = load64 ?m3 (w64 (LL + 8))"
        using L64 by (intro load64_store64_far) simp_all
      also have "\<dots> = load64 ?m2 (w64 (LL + 8))"
        using L64 by (intro load64_store64_far) simp_all
      finally show ?thesis
        by (simp add: load64_store64_same)
    qed
    have ft: "load64 ?m4 (w64 (LL + 16)) = PACK OVERHEAD 1"
    proof -
      have "load64 ?m4 (w64 (LL + 16)) = load64 ?m3 (w64 (LL + 16))"
        using L64 by (intro load64_store64_far) simp_all
      then show ?thesis
        by (simp add: load64_store64_same)
    qed
    have ep: "load64 ?m4 (w64 (LL + 24)) = PACK 0 1"
      by (simp add: load64_store64_same)
    have hd: "load64 ?m4 (w64 LL) = 0"
    proof -
      have "load64 ?m4 (w64 LL) = load64 ?m3 (w64 LL)"
        using L64 by (intro load64_store64_far) simp_all
      also have "\<dots> = load64 ?m2 (w64 LL)"
        using L64 by (intro load64_store64_far) simp_all
      also have "\<dots> = load64 ?m1 (w64 LL)"
        using L64 by (intro load64_store64_far) simp_all
      finally show ?thesis
        by (simp add: load64_store64_same)
    qed
    have w16: "w64 16 = 16"
      by (simp add: w64_def)
    have e: "LL + 16 - 8 = LL + 8" "LL + 16 + 16 - 16 = LL + 16"
      by simp_all
    have "hdr_ok ?m4 (LL + 16, 16, True)"
      unfolding hdr_ok_def prod.case e w16 flag_def using h by simp
    moreover have "ftr_ok ?m4 (LL + 16, 16, True)"
      unfolding ftr_ok_def prod.case e w16 flag_def using ft by simp
    ultimately have tg6: "tagged ?m4 ?bl"
      by (simp add: tagged_def)
    have e2: "LL + 32 - 8 = LL + 24"
      by simp
    have lay6: "layout ?s6 LL ?E ?bl []"
      unfolding layout_def e2 using ar6 g6 tg6 ep hd by (simp add: linked_def free_addrs_def)
    have mx6: "unat (mem_max_addr ?s6) \<le> 2 ^ 63"
      using mx by simp
    have ew: "(if (512 :: 64 word) mod 2 = 1 then 512 * WSIZE + WSIZE else 512 * WSIZE)
        = w64 4096"
      by (simp add: w64_def)
    note eh = extend_heap_ok [OF lay6 mx6 ew]
    have pre: "mm_init s = do {
        (bp, s7) \<leftarrow> extend_heap 512 ?s6;
        if bp = NULL then Some (- 1, s7) else Some (0, s7) }"
      using nz by (simp add: mm_init_def sb Let_def PADD_w64 p1 p2 p3 p4)
    show ?thesis
    proof (cases "?E + 4096 \<le> unat (mem_max_addr s)")
      case False
      with eh have "extend_heap 512 ?s6 = Some (0, ?s6)"
        by simp
      with False show ?thesis
        by (simp add: pre LL_def)
    next
      case ok: True
      with eh obtain m' r rsz bl' fl' where e:
        "extend_heap 512 ?s6
           = Some (w64 r, ?s6\<lparr>mem_brk := w64 (?E + 4096), mem := m'\<rparr>)"
        "layout (?s6\<lparr>mem_brk := w64 (?E + 4096), mem := m'\<rparr>) LL (?E + 4096) bl' fl'"
        "allocd bl' = allocd ?bl" "(r, rsz, False) \<in> set bl'" "no_adj ?bl \<longrightarrow> no_adj bl'"
        by auto
      note p' = layout_parts [OF e(2)]
      let ?s' = "?s6\<lparr>mem_brk := w64 (?E + 4096), mem := m'\<rparr>"
      have nz: "w64 r \<noteq> 0"
        by (rule block_nonnull [OF p'(2) e(4)])
      have res: "mm_init s = Some (0, ?s')"
        using nz by (simp add: pre e(1))
      have al: "allocd bl' = [(LL + 16, 16, True)]"
        using e(3) by (simp add: allocd_def)
      have na: "no_adj bl'"
        using e(5) by simp
      have l': "layout ?s' LL (LL + 4128) bl' fl'"
        using e(2) by (simp add: add.commute [of LL 4128])
      have fr: "mem_start_brk ?s' = mem_start_brk s" "mem_max_addr ?s' = mem_max_addr s"
        by simp_all
      have "\<exists>bl fl. layout ?s' LL (LL + 4128) bl fl
          \<and> allocd bl = [(LL + 16, 16, True)] \<and> no_adj bl
          \<and> mem_start_brk ?s' = mem_start_brk s \<and> mem_max_addr ?s' = mem_max_addr s"
        using l' al na fr by blast
      moreover have "LL + 4128 \<le> unat (mem_max_addr s)"
        using ok by simp
      ultimately have "\<exists>r s'. mm_init s = Some (r, s') \<and>
        (if LL + 4128 \<le> unat (mem_max_addr s)
         then r = 0 \<and> (\<exists>bl fl. layout s' LL (LL + 4128) bl fl
              \<and> allocd bl = [(LL + 16, 16, True)] \<and> no_adj bl
              \<and> mem_start_brk s' = mem_start_brk s \<and> mem_max_addr s' = mem_max_addr s)
         else r = - 1)"
        using res by (simp only: if_True) blast
      then show ?thesis
        unfolding LL_def .
    qed
  qed
qed

declare copy_loop.simps [simp del]

lemma mm_free_set:
  assumes lay: "layout s LL E bl fl" and x: "(B, sz, True) \<in> set bl" and nx: "B \<noteq> LL + 16"
  shows "\<exists>m' bl' fl'. mm_free (w64 B) s = Some (s\<lparr>mem := m'\<rparr>)
     \<and> layout (s\<lparr>mem := m'\<rparr>) LL E bl' fl'
     \<and> set (allocd bl') = set (allocd bl) - {(B, sz, True)}
     \<and> (no_adj bl \<longrightarrow> no_adj bl')
     \<and> kept (allocd bl') (mem s) m'"
proof -
  note p = layout_parts [OF lay]
  from nx have "(B, sz, True) \<noteq> (LL + 16, 16, True)"
    by simp
  from block_split [OF p(2) x this]
  obtain pre q post where "bl = pre @ q # (B, sz, True) # post"
    by blast
  then obtain P psz pa where bl: "bl = pre @ (P, psz, pa) # (B, sz, True) # post"
    by (cases q) auto
  from mm_free_kept [OF lay bl]
  obtain m' bl' fl' where f: "mm_free (w64 B) s = Some (s\<lparr>mem := m'\<rparr>)"
    "layout (s\<lparr>mem := m'\<rparr>) LL E bl' fl'"
    "allocd bl' = allocd (pre @ [(P, psz, pa)]) @ allocd post"
    "no_adj bl \<longrightarrow> no_adj bl'" "kept (allocd bl') (mem s) m'"
    by blast
  have fr: "B \<notin> fst ` set (allocd (pre @ [(P, psz, pa)]))" "B \<notin> fst ` set (allocd post)"
    using allocd_fresh [of LL E "pre @ [(P, psz, pa)]" B sz True post] p(2) by (simp_all add: bl)
  then have "(B, sz, True) \<notin> set (allocd (pre @ [(P, psz, pa)]))"
    "(B, sz, True) \<notin> set (allocd post)"
    by force+
  moreover have "allocd bl = allocd (pre @ [(P, psz, pa)]) @ (B, sz, True) # allocd post"
    by (simp add: bl allocd_def)
  ultimately have "set (allocd bl') = set (allocd bl) - {(B, sz, True)}"
    unfolding f(3) by auto
  with f(1,2,4,5) show ?thesis
    by blast
qed

lemma pay_off_tags:
  assumes g: "geom LL E bl" and x: "(Q, asz, a) \<in> set bl"
  shows "{Q..<Q + asz - 16} \<inter> tag_bytes bl = {}"
proof -
  note xb = geom_mem [OF g x]
  have "{Q..<Q + asz - 16} \<inter> ({b - 8..<b} \<union> {b + z - 16..<b + z - 8}) = {}"
    if y: "(b, z, c) \<in> set bl" for b z c
    using geom_disj [OF g x y] xb geom_mem [OF g y] by auto
  then show ?thesis
    unfolding tag_bytes_def by blast
qed

text \<open>Writing into the payload of an allocated block leaves the heap well formed.\<close>

lemma layout_touch_payload:
  assumes lay: "layout s LL E bl fl" and x: "(Q, asz, True) \<in> set bl"
    and t: "touch W (mem s) m'" and W: "W \<subseteq> {Q..<Q + asz - 16}"
  shows "layout (s\<lparr>mem := m'\<rparr>) LL E bl fl"
proof -
  note p = layout_parts [OF lay]
  note xb = geom_mem [OF p(2) x]
  have p64: "(2::nat) ^ 63 < 2 ^ 64"
    by simp
  have tg: "tagged m' bl"
  proof (rule tagged_touch [OF p(3) t])
    show "W \<inter> tag_bytes bl = {}"
      using pay_off_tags [OF p(2) x] W by blast
    show "\<forall>(b, sz, a)\<in>set bl. 8 \<le> b \<and> 16 \<le> sz \<and> b + sz \<le> 2 ^ 64"
      by (rule geom_bounds [OF p(2) subset_refl])
  qed
  have "linked m' LL fl = linked (mem s) LL fl"
  proof (rule linked_touch [OF t])
    have "set fl \<subseteq> set (free_addrs bl)"
      using p(7) by simp
    from pay_links [OF p(2) this x] W show "W \<inter> ({LL..<LL + 8} \<union> links fl) = {}"
      by blast
    show "\<forall>b\<in>set fl. b + 16 \<le> 2 ^ 64"
      using p(9) xb p64 by (fastforce simp: nodes_ok_def)
    show "LL + 8 \<le> 2 ^ 64"
      using xb p64 by simp
  qed
  then have l: "linked m' LL fl"
    using p(5) by simp
  have "load64 m' (w64 (E - 8)) = load64 (mem s) (w64 (E - 8))"
  proof (rule touch_load [OF t])
    show "E - 8 + 8 \<le> 2 ^ 64"
      using xb p64 by simp
    fix a assume a: "E - 8 \<le> a" "a < E - 8 + 8"
    show "a \<notin> W"
    proof
      assume "a \<in> W"
      with W have "a < Q + asz - 16"
        by auto
      with a xb show False
        by arith
    qed
  qed
  then have ep: "load64 m' (w64 (E - 8)) = PACK 0 1"
    using p(4) by simp
  show ?thesis
    using p(1,2,6,7) tg l ep by (simp add: layout_def)
qed

text \<open>The copy loop of \<^verbatim>\<open>mm_realloc\<close> between two ranges of the arena that do not
  overlap.\<close>

lemma copy_loop_ok:
  assumes b: "Q + n \<le> B \<or> B + n \<le> Q" "B + n \<le> 2 ^ 63" "Q + n \<le> 2 ^ 63"
  shows "i \<le> n \<Longrightarrow> unat (mem_start_brk s) \<le> B \<Longrightarrow> unat (mem_start_brk s) \<le> Q \<Longrightarrow>
      B + n \<le> unat (mem_brk s) \<Longrightarrow> Q + n \<le> unat (mem_brk s) \<Longrightarrow>
    \<exists>m'. copy_loop (w64 Q) (w64 B) (w64 n) (w64 i) s = Some (s\<lparr>mem := m'\<rparr>)
      \<and> (\<forall>j. i \<le> j \<and> j < n \<longrightarrow> m' (w64 (Q + j)) = mem s (w64 (B + j)))
      \<and> touch {Q + i..<Q + n} (mem s) m'"
proof (induction "n - i" arbitrary: i s)
  case 0
  then have "i = n"
    by simp
  then have "copy_loop (w64 Q) (w64 B) (w64 n) (w64 i) s = Some s"
    by (subst copy_loop.simps) simp
  then have "copy_loop (w64 Q) (w64 B) (w64 n) (w64 i) s = Some (s\<lparr>mem := mem s\<rparr>)"
    by simp
  with \<open>i = n\<close> show ?case
    using touch_refl by fastforce
next
  case (Suc k)
  have p64: "(2::nat) ^ 63 < 2 ^ 64"
    by simp
  from Suc.hyps have lt: "i < n"
    by simp
  have n64: "n < 2 ^ 64" "i < 2 ^ 64" "B + i < 2 ^ 64" "Q + i < 2 ^ 64"
    using b lt p64 by simp_all
  have c: "w64 i < w64 n"
    using lt n64 by (simp add: w64_less_iff unat_w64)
  have vB: "valid s (w64 B + w64 i) 1"
    using Suc.prems lt n64 by (simp add: valid_def w64_add unat_w64)
  have vQ: "valid s (w64 Q + w64 i) 1"
    using Suc.prems lt n64 by (simp add: valid_def w64_add unat_w64)
  have e1: "w64 i + 1 = w64 (i + 1)"
    by (simp add: w64_def)
  let ?s1 = "s\<lparr>mem := (mem s)(w64 (Q + i) := mem s (w64 (B + i)))\<rparr>"
  have st: "copy_loop (w64 Q) (w64 B) (w64 n) (w64 i) s
      = copy_loop (w64 Q) (w64 B) (w64 n) (w64 (i + 1)) ?s1"
    using c vB vQ by (subst copy_loop.simps) (simp add: w64_add e1)
  have k: "k = n - (i + 1)" "i + 1 \<le> n"
    using Suc.hyps by simp_all
  have "unat (mem_start_brk ?s1) \<le> B" "unat (mem_start_brk ?s1) \<le> Q"
    "B + n \<le> unat (mem_brk ?s1)" "Q + n \<le> unat (mem_brk ?s1)"
    using Suc.prems by simp_all
  from Suc.hyps(1) [OF k this]
  obtain m' where m': "copy_loop (w64 Q) (w64 B) (w64 n) (w64 (i + 1)) ?s1 = Some (?s1\<lparr>mem := m'\<rparr>)"
    "\<forall>j. i + 1 \<le> j \<and> j < n \<longrightarrow> m' (w64 (Q + j)) = mem ?s1 (w64 (B + j))"
    "touch {Q + (i + 1)..<Q + n} (mem ?s1) m'"
    by fastforce
  have ne: "w64 (B + j) \<noteq> w64 (Q + i)" if "j < n" for j
  proof -
    have "B + j < 2 ^ 64"
      using b that p64 by simp
    moreover have "B + j \<noteq> Q + i"
      using b(1) that lt by auto
    ultimately show ?thesis
      using n64 by (simp add: w64_eq_iff)
  qed
  have t1: "touch {Q + i} (mem s) (mem ?s1)"
    using n64 by (auto simp: touch_def w64_eq_iff)
  have cp: "m' (w64 (Q + j)) = mem s (w64 (B + j))" if j: "i \<le> j" "j < n" for j
  proof (cases "j = i")
    case True
    have "m' (w64 (Q + i)) = mem ?s1 (w64 (Q + i))"
      using m'(3) n64 by (simp add: touch_def)
    with True show ?thesis
      by simp
  next
    case False
    with j m'(2) have "m' (w64 (Q + j)) = mem ?s1 (w64 (B + j))"
      by simp
    with ne [OF j(2)] show ?thesis
      by simp
  qed
  have "touch ({Q + i} \<union> {Q + (i + 1)..<Q + n}) (mem s) m'"
    by (rule touch_trans [OF t1 m'(3)])
  then have t: "touch {Q + i..<Q + n} (mem s) m'"
    by (rule touch_mono) (use lt in auto)
  from st m'(1) cp t show ?case
    by auto
qed

lemma kept_at:
  "kept al m m' \<Longrightarrow> (b, sz, a) \<in> set al \<Longrightarrow> j < sz - 16 \<Longrightarrow> m' (w64 (b + j)) = m (w64 (b + j))"
  unfolding kept_def by fastforce

text \<open>\<^verbatim>\<open>mm_realloc\<close> on a live block of a well-formed heap, for a positive request of
  at most \<open>2 ^ 64 - 32\<close> bytes.  When the allocation inside fails, the copy loop writes
  through the \<^verbatim>\<open>NULL\<close> result, which is outside the arena.\<close>

lemma mm_realloc_ok:
  assumes lay: "layout s LL E bl fl" and mx: "unat (mem_max_addr s) \<le> 2 ^ 63"
    and st: "0 < unat (mem_start_brk s)"
    and x: "(B, sz, True) \<in> set bl" and nx: "B \<noteq> LL + 16"
    and n: "0 < unat n" "unat n \<le> 2 ^ 64 - 32"
  shows "\<exists>q s1. mm_malloc n s = Some (q, s1) \<and>
    mm_realloc (w64 B) n s = do {
        s2 \<leftarrow> copy_loop q (w64 B) (w64 (min (unat n) sz)) 0 s1;
        s3 \<leftarrow> mm_free (w64 B) s2;
        Some (q, s3) } \<and>
    (E + unat n + 4127 \<le> unat (mem_max_addr s) \<longrightarrow> q \<noteq> 0) \<and>
    (if q = 0 then mm_realloc (w64 B) n s = None
     else \<exists>Q asz E' bl' fl' m'. q = w64 Q \<and> E \<le> E' \<and> E' \<le> E + unat n + 4127
       \<and> mm_realloc (w64 B) n s = Some (w64 Q, s\<lparr>mem_brk := w64 E', mem := m'\<rparr>)
       \<and> layout (s\<lparr>mem_brk := w64 E', mem := m'\<rparr>) LL E' bl' fl'
       \<and> set (allocd bl') = insert (Q, asz, True) (set (allocd bl) - {(B, sz, True)})
       \<and> Q \<notin> fst ` set (allocd bl) \<and> unat n + 16 \<le> asz
       \<and> (no_adj bl \<longrightarrow> no_adj bl')
       \<and> kept (removeAll (B, sz, True) (allocd bl)) (mem s) m'
       \<and> (\<forall>j. j < min (unat n) (sz - 16) \<longrightarrow> m' (w64 (Q + j)) = mem s (w64 (B + j)))
       \<and> (\<forall>j. j < min (unat n) sz \<longrightarrow> m' (w64 (Q + j)) = mem s1 (w64 (B + j))))"
proof -
  note p = layout_parts [OF lay]
  note xb = geom_mem [OF p(2) x]
  have p64: "(2::nat) ^ 63 < 2 ^ 64"
    by simp
  have sz64: "sz < 2 ^ 64"
    using xb p64 by simp
  have Bnz: "w64 B \<noteq> 0"
    by (rule block_nonnull [OF p(2) x])
  have n0: "n \<noteq> 0"
    using n(1) by auto
  have tg: "hdr_ok (mem s) (B, sz, True)"
    using p(3) x by (auto simp: tagged_def)
  have hs: "GET_SIZE s (HDRP (w64 B)) = Some (w64 sz)"
    using xb tg p(1) by (simp add: HDRP_w64 GET_SIZE_hdr [where LL = LL and E = E and a = True])
  define k where "k = min (unat n) sz"
  have old: "(if n \<le> w64 sz then n else w64 sz) = w64 k"
    using sz64 by (simp add: w64_le_iff k_def min_def w64_unat)
  have k: "0 < k" "k \<le> sz" "k \<le> unat n"
    using n(1) xb by (simp_all add: k_def)
  have k64: "k < 2 ^ 64"
    using k(2) sz64 by simp
  from mm_malloc_ok [OF lay mx n]
  obtain q s1 where ml: "mm_malloc n s = Some (q, s1)"
    and c: "q = 0 \<and> s1 = s
     \<or> (\<exists>Q asz E' bl' fl' m'. q = w64 Q \<and> q \<noteq> 0 \<and> s1 = s\<lparr>mem_brk := w64 E', mem := m'\<rparr>
         \<and> E \<le> E' \<and> E' \<le> E + unat n + 4127
         \<and> layout s1 LL E' bl' fl'
         \<and> set (allocd bl') = insert (Q, asz, True) (set (allocd bl))
         \<and> Q \<notin> fst ` set (allocd bl) \<and> unat n + 16 \<le> asz
         \<and> (no_adj bl \<longrightarrow> no_adj bl') \<and> kept (allocd bl) (mem s) m')"
    and room: "E + unat n + 4127 \<le> unat (mem_max_addr s) \<longrightarrow> q \<noteq> 0"
    by blast
  have eq: "mm_realloc (w64 B) n s = do {
        s2 \<leftarrow> copy_loop q (w64 B) (w64 k) 0 s1;
        s3 \<leftarrow> mm_free (w64 B) s2;
        Some (q, s3) }"
    using Bnz n0 by (simp add: mm_realloc_def hs Let_def old ml)
  show ?thesis
  proof (cases "q = 0")
    case True
    have "(0 :: 64 word) < w64 k"
      using k k64 by (simp add: word_less_nat_alt unat_w64)
    moreover have "\<not> valid s1 (0 + 0) 1"
      using True c st by (auto simp: valid_def)
    ultimately have "copy_loop 0 (w64 B) (w64 k) 0 s1 = None"
      by (subst copy_loop.simps) simp
    with True have "mm_realloc (w64 B) n s = None"
      by (simp add: eq)
    with ml eq True room show ?thesis
      unfolding k_def by auto
  next
    case False
    with c obtain Q asz E' bl1 fl1 m1 where m: "q = w64 Q"
      "s1 = s\<lparr>mem_brk := w64 E', mem := m1\<rparr>" "layout s1 LL E' bl1 fl1"
      "E \<le> E'" "E' \<le> E + unat n + 4127"
      "set (allocd bl1) = insert (Q, asz, True) (set (allocd bl))"
      "Q \<notin> fst ` set (allocd bl)" "unat n + 16 \<le> asz"
      "no_adj bl \<longrightarrow> no_adj bl1" "kept (allocd bl) (mem s) m1"
      by blast
    note p1 = layout_parts [OF m(3)]
    have xa: "(B, sz, True) \<in> set (allocd bl)"
      using x by (simp add: allocd_set)
    have xB1: "(B, sz, True) \<in> set bl1" and xQ1: "(Q, asz, True) \<in> set bl1"
      using m(6) xa allocd_sub [of bl1] by auto
    have QB: "Q \<noteq> B"
      using m(7) xa by force
    note qb = geom_mem [OF p1(2) xQ1]
    note bb = geom_mem [OF p1(2) xB1]
    have dj: "B + sz \<le> Q \<or> Q + asz \<le> B"
      using geom_disj [OF p1(2) xB1 xQ1] QB by auto
    have ar1: "unat (mem_start_brk s1) \<le> LL" "E' = unat (mem_brk s1)"
      using p1(1) by (simp_all add: arena_def)
    have kq: "k + 16 \<le> asz"
      using k(3) m(8) by simp
    have "\<exists>m'. copy_loop (w64 Q) (w64 B) (w64 k) (w64 0) s1 = Some (s1\<lparr>mem := m'\<rparr>)
      \<and> (\<forall>j. 0 \<le> j \<and> j < k \<longrightarrow> m' (w64 (Q + j)) = mem s1 (w64 (B + j)))
      \<and> touch {Q + 0..<Q + k} (mem s1) m'"
    proof (rule copy_loop_ok)
      show "Q + k \<le> B \<or> B + k \<le> Q"
        using dj k(2) kq by auto
      show "B + k \<le> 2 ^ 63" "Q + k \<le> 2 ^ 63"
        using bb qb k(2) kq by simp_all
      show "0 \<le> k" by simp
      show "unat (mem_start_brk s1) \<le> B" "unat (mem_start_brk s1) \<le> Q"
        using ar1 bb qb by simp_all
      show "B + k \<le> unat (mem_brk s1)" "Q + k \<le> unat (mem_brk s1)"
        using ar1 bb qb k(2) kq by simp_all
    qed
    then obtain m2 where cp: "copy_loop (w64 Q) (w64 B) (w64 k) 0 s1 = Some (s1\<lparr>mem := m2\<rparr>)"
      "\<forall>j. j < k \<longrightarrow> m2 (w64 (Q + j)) = m1 (w64 (B + j))"
      "touch {Q..<Q + k} m1 m2"
      using m(2) by (auto simp: w64_0)
    have t2: "touch {Q..<Q + k} (mem s1) m2"
      using cp(3) m(2) by simp
    have lay2: "layout (s1\<lparr>mem := m2\<rparr>) LL E' bl1 fl1"
      by (rule layout_touch_payload [OF m(3) xQ1 t2]) (use kq in auto)
    from mm_free_set [OF lay2 xB1 nx]
    obtain m3 bl3 fl3 where f: "mm_free (w64 B) (s1\<lparr>mem := m2\<rparr>) = Some (s1\<lparr>mem := m3\<rparr>)"
      "layout (s1\<lparr>mem := m3\<rparr>) LL E' bl3 fl3"
      "set (allocd bl3) = set (allocd bl1) - {(B, sz, True)}"
      "no_adj bl1 \<longrightarrow> no_adj bl3" "kept (allocd bl3) m2 m3"
      by auto
    have fin: "s1\<lparr>mem := m3\<rparr> = s\<lparr>mem_brk := w64 E', mem := m3\<rparr>"
      by (simp add: m(2))
    have res: "mm_realloc (w64 B) n s = Some (w64 Q, s\<lparr>mem_brk := w64 E', mem := m3\<rparr>)"
      by (simp add: eq m(1) [symmetric] cp(1) [folded m(1)] f(1) fin)
    have sa: "set (allocd bl3) = insert (Q, asz, True) (set (allocd bl) - {(B, sz, True)})"
      using f(3) m(6) QB by auto
    let ?others = "removeAll (B, sz, True) (allocd bl)"
    have k1: "kept ?others (mem s) m1"
      by (rule kept_mono [OF m(10)]) auto
    have k2: "kept ?others m1 m2"
    proof (rule kept_touch [OF cp(3) p1(2)])
      show "set ?others \<subseteq> set bl1"
        using m(6) allocd_sub [of bl1] by auto
      show "\<forall>(b, z, a)\<in>set ?others. {b..<b + z - 16} \<inter> {Q..<Q + k} = {}"
      proof -
        have "{b..<b + z - 16} \<inter> {Q..<Q + k} = {}" if y: "(b, z, a) \<in> set ?others" for b z a
        proof -
          from y have ya: "(b, z, a) \<in> set (allocd bl)"
            by simp
          then have "(b, z, a) \<in> set bl1"
            using m(6) allocd_sub [of bl1] by auto
          moreover from ya m(7) have "b \<noteq> Q"
            by force
          ultimately show ?thesis
            using geom_disj [OF p1(2) _ xQ1, of b z a] qb kq by auto
        qed
        then show ?thesis
          by blast
      qed
    qed
    have k3: "kept ?others m2 m3"
      by (rule kept_mono [OF f(5)]) (use sa in auto)
    have ko: "kept ?others (mem s) m3"
      by (rule kept_trans [OF kept_trans [OF k1 k2] k3])
    have ct: "m3 (w64 (Q + j)) = mem s (w64 (B + j))" if j: "j < min (unat n) (sz - 16)" for j
    proof -
      have "(Q, asz, True) \<in> set (allocd bl3)"
        using sa by simp
      moreover have "j < asz - 16"
        using j m(8) by (simp; arith)
      ultimately have "m3 (w64 (Q + j)) = m2 (w64 (Q + j))"
        by (rule kept_at [OF f(5)])
      also have "\<dots> = m1 (w64 (B + j))"
      proof -
        have "j < k"
          using j by (simp add: k_def; arith)
        with cp(2) show ?thesis
          by simp
      qed
      also have "\<dots> = mem s (w64 (B + j))"
        by (rule kept_at [OF m(10) xa]) (use j in simp)
      finally show ?thesis .
    qed
    have ct2: "m3 (w64 (Q + j)) = mem s1 (w64 (B + j))" if j: "j < min (unat n) sz" for j
    proof -
      have jk: "j < k"
        using j by (simp add: k_def)
      have "(Q, asz, True) \<in> set (allocd bl3)"
        using sa by simp
      moreover have "j < asz - 16"
        using jk kq by (simp; arith)
      ultimately have "m3 (w64 (Q + j)) = m2 (w64 (Q + j))"
        by (rule kept_at [OF f(5)])
      also have "\<dots> = m1 (w64 (B + j))"
        using cp(2) jk by simp
      finally show ?thesis
        by (simp add: m(2))
    qed
    have na: "no_adj bl \<longrightarrow> no_adj bl3"
      using m(9) f(4) by simp
    have "\<exists>Q asz E' bl' fl' m'. q = w64 Q \<and> E \<le> E' \<and> E' \<le> E + unat n + 4127
       \<and> mm_realloc (w64 B) n s = Some (w64 Q, s\<lparr>mem_brk := w64 E', mem := m'\<rparr>)
       \<and> layout (s\<lparr>mem_brk := w64 E', mem := m'\<rparr>) LL E' bl' fl'
       \<and> set (allocd bl') = insert (Q, asz, True) (set (allocd bl) - {(B, sz, True)})
       \<and> Q \<notin> fst ` set (allocd bl) \<and> unat n + 16 \<le> asz
       \<and> (no_adj bl \<longrightarrow> no_adj bl')
       \<and> kept (removeAll (B, sz, True) (allocd bl)) (mem s) m'
       \<and> (\<forall>j. j < min (unat n) (sz - 16) \<longrightarrow> m' (w64 (Q + j)) = mem s (w64 (B + j)))
       \<and> (\<forall>j. j < min (unat n) sz \<longrightarrow> m' (w64 (Q + j)) = mem s1 (w64 (B + j)))"
      using m(1) res f(2) [unfolded fin] sa m(7,8) m(4,5) na ko ct ct2 by blast
    with ml eq False room show ?thesis
      unfolding k_def by auto
  qed
qed

lemma GET_ALLOC_ftr:
  assumes "arena s LL E" "ftr_ok (mem s) (b, sz, a)" "16 dvd sz" "LL + 16 \<le> b + sz" "b + sz \<le> E + 8"
  shows "GET_ALLOC s (w64 (b + sz - 16)) = Some (flag a)"
  using assms by (simp add: GET_ALLOC_def GET_ok [where LL = LL and E = E] ftr_ok_def alloc_of_PACK)

lemma GET_hdr:
  assumes "arena s LL E" "hdr_ok (mem s) (b, sz, a)" "LL + 8 \<le> b" "b \<le> E"
  shows "GET s (w64 (b - 8)) = Some (PACK (w64 sz) (flag a))"
  using assms by (simp add: GET_ok [where LL = LL and E = E] hdr_ok_def)

lemma GET_ftr:
  assumes "arena s LL E" "ftr_ok (mem s) (b, sz, a)" "LL + 16 \<le> b + sz" "b + sz \<le> E + 8"
  shows "GET s (w64 (b + sz - 16)) = Some (PACK (w64 sz) (flag a))"
  using assms by (simp add: GET_ok [where LL = LL and E = E] ftr_ok_def)

text \<open>What the heap printer prints for a block of the block list.\<close>

definition block_line :: "block \<Rightarrow> line" where
  "block_line x = (case x of (b, sz, a) \<Rightarrow> Block_line (w64 b) (w64 sz) (flag a) (w64 sz) (flag a))"

lemma w64_pos: "0 < n \<Longrightarrow> n < 2 ^ 64 \<Longrightarrow> 0 < w64 n"
  by (simp add: word_less_nat_alt unat_w64)

lemma epilogue_reads:
  assumes lay: "layout s LL E bl fl"
  shows "GET_SIZE s (HDRP (w64 E)) = Some 0" "GET_ALLOC s (HDRP (w64 E)) = Some 1"
    "print_block (w64 E) s = Some (End_line (w64 E))"
proof -
  note p = layout_parts [OF lay]
  note e = geom_E [OF p(2)]
  have h: "hdr_ok (mem s) (E, 0, True)"
    using p(4) by (simp add: hdr_ok_def w64_0 flag_def)
  show sz: "GET_SIZE s (HDRP (w64 E)) = Some 0"
    using GET_SIZE_hdr [OF p(1) h] e by (simp add: HDRP_w64 w64_0)
  show al: "GET_ALLOC s (HDRP (w64 E)) = Some 1"
    using GET_ALLOC_hdr [OF p(1) h] e by (simp add: HDRP_w64 flag_def)
  have f: "FTRP s (w64 E) = Some (w64 (E - 16))"
    using e by (simp add: FTRP_def sz PADD_def w64_sub_unat)
  have g: "GET s (w64 (E - 16)) = Some (load64 (mem s) (w64 (E - 16)))"
    using e by (intro GET_ok [OF p(1)]; simp; arith)
  have fs: "GET_SIZE s (w64 (E - 16)) = Some (load64 (mem s) (w64 (E - 16)) AND NOT 0xf)"
    "GET_ALLOC s (w64 (E - 16)) = Some (load64 (mem s) (w64 (E - 16)) AND 0x1)"
    by (simp_all add: GET_SIZE_def GET_ALLOC_def g)
  show "print_block (w64 E) s = Some (End_line (w64 E))"
    by (simp add: print_block_def sz al f fs)
qed

lemma block_reads:
  assumes lay: "layout s LL E bl fl" and x: "(b, sz, a) \<in> set bl"
  shows "GET_SIZE s (HDRP (w64 b)) = Some (w64 sz)" "0 < w64 sz"
    "print_block (w64 b) s = Some (block_line (b, sz, a))"
    "NEXT_BLKP s (w64 b) = Some (w64 (b + sz))"
    "GET s (HDRP (w64 b)) = Some (PACK (w64 sz) (flag a))"
    "FTRP s (w64 b) = Some (w64 (b + sz - 16))"
    "GET s (w64 (b + sz - 16)) = Some (PACK (w64 sz) (flag a))"
    "GET_ALLOC s (HDRP (w64 b)) = Some (flag a)"
proof -
  note p = layout_parts [OF lay]
  note xb = geom_mem [OF p(2) x]
  have p64: "(2::nat) ^ 63 < 2 ^ 64"
    by simp
  have tg: "hdr_ok (mem s) (b, sz, a)" "ftr_ok (mem s) (b, sz, a)"
    using p(3) x by (auto simp: tagged_def)
  show sz: "GET_SIZE s (HDRP (w64 b)) = Some (w64 sz)"
    using GET_SIZE_hdr [OF p(1) tg(1)] xb by (simp add: HDRP_w64)
  show pos: "0 < w64 sz"
    using xb p64 by (intro w64_pos) simp_all
  show al: "GET_ALLOC s (HDRP (w64 b)) = Some (flag a)"
    using GET_ALLOC_hdr [OF p(1) tg(1)] xb by (simp add: HDRP_w64)
  show f: "FTRP s (w64 b) = Some (w64 (b + sz - 16))"
    using xb by (intro FTRP_ok [OF p(1) tg(1)]) simp_all
  have fs: "GET_SIZE s (w64 (b + sz - 16)) = Some (w64 sz)"
    using xb by (intro GET_SIZE_ftr [OF p(1) tg(2)]) simp_all
  have fa: "GET_ALLOC s (w64 (b + sz - 16)) = Some (flag a)"
    using xb by (intro GET_ALLOC_ftr [OF p(1) tg(2)]) simp_all
  from pos have nz: "w64 sz \<noteq> 0"
    by auto
  show "print_block (w64 b) s = Some (block_line (b, sz, a))"
    using nz by (simp add: print_block_def sz al f fs fa block_line_def)
  show "NEXT_BLKP s (w64 b) = Some (w64 (b + sz))"
    using xb by (intro NEXT_BLKP_ok [OF p(1) tg(1)]) simp_all
  show "GET s (HDRP (w64 b)) = Some (PACK (w64 sz) (flag a))"
    using GET_hdr [OF p(1) tg(1)] xb by (simp add: HDRP_w64)
  show "GET s (w64 (b + sz - 16)) = Some (PACK (w64 sz) (flag a))"
    using xb by (intro GET_ftr [OF p(1) tg(2)]) simp_all
qed

lemma print_heap_loop_ok:
  assumes lay: "layout s LL E bl fl"
  shows "chain k rest E \<Longrightarrow> set rest \<subseteq> set bl \<Longrightarrow>
    print_heap_loop s (w64 k) = Some (map block_line rest @ [End_line (w64 E)])"
proof (induction rest arbitrary: k)
  case Nil
  then have "k = E"
    by simp
  then show ?case
    by (subst print_heap_loop.simps) (simp add: epilogue_reads [OF lay])
next
  case (Cons x rest)
  obtain b sz a where x: "x = (b, sz, a)"
    by (cases x)
  with Cons.prems have k: "k = b" and c: "chain (b + sz) rest E" and m: "(b, sz, a) \<in> set bl"
    and sub: "set rest \<subseteq> set bl"
    by simp_all
  note r = block_reads [OF lay m]
  from Cons.IH [OF c sub] show ?case
    by (subst print_heap_loop.simps) (simp add: k x r)
qed

lemma print_heap_ok:
  assumes lay: "layout s LL E bl fl"
  shows "print_heap s = Some (Heap_line (w64 (LL + 16)) # map block_line bl @ [End_line (w64 E)])"
proof -
  note p = layout_parts [OF lay]
  have "chain (LL + 16) bl E" "heap_start s = w64 (LL + 16)"
    using p(1,2) by (simp_all add: geom_def arena_def)
  with print_heap_loop_ok [OF lay, of "LL + 16" bl] show ?thesis
    by (simp add: print_heap_def)
qed

lemma w64_aligned: "16 dvd b \<Longrightarrow> b < 2 ^ 64 \<Longrightarrow> w64 b mod 16 = 0"
proof -
  assume a: "16 dvd b" "b < 2 ^ 64"
  have "unat (w64 b mod 16) = 0"
    using a by (simp add: unat_mod unat_w64)
  then show ?thesis
    by (simp add: unat_eq_0)
qed

lemma check_heap_loop_ok:
  assumes lay: "layout s LL E bl fl"
  shows "chain k rest E \<Longrightarrow> set rest \<subseteq> set bl \<Longrightarrow> 16 dvd k \<Longrightarrow>
    check_heap_loop line s (w64 k) = Some True"
proof (induction rest arbitrary: k)
  case Nil
  then have "k = E"
    by simp
  then show ?case
    by (subst check_heap_loop.simps) (simp add: epilogue_reads [OF lay])
next
  case (Cons x rest)
  obtain b sz a where x: "x = (b, sz, a)"
    by (cases x)
  with Cons.prems have k: "k = b" and c: "chain (b + sz) rest E" and m: "(b, sz, a) \<in> set bl"
    and sub: "set rest \<subseteq> set bl" and al: "16 dvd b" "16 dvd sz"
    by simp_all
  note r = block_reads [OF lay m]
  note p = layout_parts [OF lay]
  have "b < 2 ^ 63"
    using geom_mem [OF p(2) m] by simp
  then have "b < 2 ^ 64"
    by (rule less_trans) simp
  with al have md: "w64 b mod 16 = 0"
    by (intro w64_aligned)
  have cb: "check_block line (w64 b) s = Some True"
    by (simp add: check_block_def md r)
  have "16 dvd b + sz"
    using al by simp
  from Cons.IH [OF c sub this] show ?case
    using r(2) by (subst check_heap_loop.simps) (simp add: k r cb)
qed

lemma check_heap_ok:
  assumes lay: "layout s LL E bl fl" and al: "16 dvd LL"
  shows "check_heap line s = Some True"
proof -
  note p = layout_parts [OF lay]
  have c: "chain (LL + 16) bl E" and hs: "heap_start s = w64 (LL + 16)"
    and pr: "(LL + 16, 16, True) \<in> set bl"
    using p(1,2) by (simp_all add: geom_def arena_def) (metis list.set_sel(1))
  note r = block_reads [OF lay pr]
  have a16: "16 dvd LL + 16"
    using al by simp
  have w16: "w64 16 = 16"
    by (simp add: w64_def)
  from check_heap_loop_ok [OF lay c subset_refl a16, of line] show ?thesis
    unfolding check_heap_def hs by (simp add: r w16 flag_def)
qed

lemma list_walk_ok:
  assumes lay: "layout s LL E bl fl"
  shows "seg (mem s) prev xs cur 0 \<Longrightarrow> set xs \<subseteq> set (free_addrs bl) \<Longrightarrow>
    list_walk s cur = Some (map w64 xs)"
proof (induction xs arbitrary: prev cur)
  case Nil
  then show ?case
    by (simp add: list_walk.simps)
next
  case (Cons b xs)
  note p = layout_parts [OF lay]
  from Cons.prems have cur: "cur = w64 b"
    and sg: "seg (mem s) (w64 b) xs (load64 (mem s) (w64 (b + 8))) 0"
    and sub: "set xs \<subseteq> set (free_addrs bl)" and b: "b \<in> set (free_addrs bl)"
    by simp_all
  from b obtain z where z: "(b, z, False) \<in> set bl"
    unfolding free_addrs_iff by blast
  note zb = geom_mem [OF p(2) z] geom_free_big [OF p(2) z]
  note r = block_reads [OF lay z]
  have nz: "w64 b \<noteq> 0"
    by (rule block_nonnull [OF p(2) z])
  have gp: "GET_PTR s (PADD (w64 b) 8) = Some (load64 (mem s) (w64 (b + 8)))"
    using zb p(1) by (simp add: GET_PTR_def PADD_w64 GET_ok [where LL = LL and E = E])
  from Cons.IH [OF sg sub] show ?case
    using nz by (subst list_walk.simps) (simp add: cur r gp)
qed

lemma free_list_ok:
  assumes lay: "layout s LL E bl fl"
  shows "free_list s = Some (map w64 fl)"
proof -
  note p = layout_parts [OF lay]
  have g: "GET_PTR s (LL_START s) = Some (load64 (mem s) (w64 LL))"
    using p(1) by (simp add: GET_PTR_def LL_START_w64 [OF p(1)] GET_ok [where LL = LL and E = E]
        arena_def)
  have "seg (mem s) 0 fl (load64 (mem s) (w64 LL)) 0"
    using p(5) by (simp add: linked_def)
  from list_walk_ok [OF lay this] p(7) show ?thesis
    by (simp add: free_list_def g)
qed

text \<open>The lines of the heap printer for a block list.\<close>

definition heap_lines :: "nat \<Rightarrow> nat \<Rightarrow> block list \<Rightarrow> line list" where
  "heap_lines LL E bl = Heap_line (w64 (LL + 16)) # map block_line bl @ [End_line (w64 E)]"

lemma print_heap_lines: "layout s LL E bl fl \<Longrightarrow> print_heap s = Some (heap_lines LL E bl)"
  by (simp add: print_heap_ok heap_lines_def)

lemma count_distinct: "distinct xs \<Longrightarrow> x \<in> set xs \<Longrightarrow> count_list xs x = 1"
  by (induction xs) auto

lemma free_inj:
  assumes lay: "layout s LL E bl fl"
  shows "inj_on w64 (set fl \<union> fst ` set bl)"
proof (rule inj_onI)
  note p = layout_parts [OF lay]
  have lt: "b < 2 ^ 64" if "b \<in> set fl \<union> fst ` set bl" for b
  proof -
    from that p(7) obtain z a where "(b, z, a) \<in> set bl"
      by (auto simp: free_addrs_iff)
    then show ?thesis
      by (rule block_nonnull [OF p(2)])
  qed
  fix x y assume "x \<in> set fl \<union> fst ` set bl" "y \<in> set fl \<union> fst ` set bl" "w64 x = w64 y"
  then show "x = y"
    using lt [of x] lt [of y] by (simp add: w64_eq_iff)
qed

text \<open>Memories and states of the examples: a memory is given by the words it holds,
  all other bytes being zero.\<close>

definition poke :: "(addr \<times> 64 word) list \<Rightarrow> addr \<Rightarrow> byte" where
  "poke ws = fold (\<lambda>(p, v) m. store64 m p v) ws (\<lambda>_. 0)"

lemma load64_zero: "load64 (\<lambda>_. 0) p = 0"
  by (simp add: load64_def)

lemmas ev = GET_def PUT_def PADD_def PSUB_def GET_SIZE_def GET_ALLOC_def HDRP_def FTRP_def
  NEXT_BLKP_def PREV_BLKP_def GET_PTR_def PUT_PTR_def LL_START_def remove_node_def
  insert_node_def coalesce_def place_def find_fit_def extend_heap_def mm_init_def mm_malloc_def
  mm_free_def mm_realloc_def adjust_size_def mem_sbrk_def valid_def PACK_def
  load64_store64_same load64_store64_other load64_zero Let_def

lemmas lay_ev = layout_def arena_def geom_def tagged_def hdr_ok_def ftr_ok_def linked_def
  free_addrs_def w64_def flag_def PACK_def poke_def load64_store64_same load64_store64_other
  load64_zero

text \<open>A heap with three adjacent free blocks of 32 bytes at \<open>0x1020\<close>, \<open>0x1040\<close> and
  \<open>0x1060\<close>; the free list is \<open>0x1040\<close>, \<open>0x1020\<close>, \<open>0x1060\<close>.\<close>

definition three_free :: state where
  "three_free = \<lparr>mem = poke
      [(0x1000, 0x1040), (0x1008, 0x11), (0x1010, 0x11),
       (0x1018, 0x20), (0x1020, 0x1040), (0x1028, 0x1060), (0x1030, 0x20),
       (0x1038, 0x20), (0x1040, 0), (0x1048, 0x1020), (0x1050, 0x20),
       (0x1058, 0x20), (0x1060, 0x1020), (0x1068, 0), (0x1070, 0x20),
       (0x1078, 1)],
     mem_start_brk = 0x1000, mem_brk = 0x1080, mem_max_addr = 0x2000, heap_start = 0x1010\<rparr>"

lemma three_free_layout:
  "layout three_free 4096 4224
     [(4112, 16, True), (4128, 32, False), (4160, 32, False), (4192, 32, False)]
     [4160, 4128, 4192]"
  by (simp add: three_free_def lay_ev insert_commute)

text \<open>The heap after \<^verbatim>\<open>mm_init\<close> on an arena at \<open>0x1000\<close>: one free block of 4096
  bytes at \<open>0x1020\<close>.\<close>

definition one_free :: state where
  "one_free = \<lparr>mem = poke
      [(0x1000, 0x1020), (0x1008, 0x11), (0x1010, 0x11),
       (0x1018, 0x1000), (0x1020, 0), (0x1028, 0), (0x2010, 0x1000), (0x2018, 1)],
     mem_start_brk = 0x1000, mem_brk = 0x2020, mem_max_addr = 0x4000, heap_start = 0x1010\<rparr>"

lemma one_free_layout:
  "layout one_free 4096 8224 [(4112, 16, True), (4128, 4096, False)] [4128]"
  by (simp add: one_free_def lay_ev)

section \<open>The claims about single operations\<close>

text \<open>C9: \<^verbatim>\<open>mm_free\<close> has no guard for a null argument.  Called with \<^verbatim>\<open>NULL\<close> it first
  reads the header at \<open>NULL - 8\<close>, the address \<open>2 ^ 64 - 8\<close>, which lies outside every
  arena: in every state the call faults, it is never a no-op.  The argument of
  \<^verbatim>\<open>mm_free\<close> has to be the payload pointer of a block.\<close>

theorem mm_free_null_faults:
  "HDRP NULL = 0xFFFFFFFFFFFFFFF8 \<and> GET s (HDRP NULL) = None \<and> mm_free NULL s = None"
proof -
  have h: "HDRP NULL = 0xFFFFFFFFFFFFFFF8"
    by (simp add: HDRP_def PSUB_def)
  have "unat (mem_brk s) < 2 ^ 64"
    using unsigned_less [of "mem_brk s", where 'a = nat] by simp
  then have g: "GET s (HDRP NULL) = None"
    by (simp add: h GET_def valid_def)
  then have "mm_free NULL s = None"
    by (simp add: mm_free_def FTRP_def GET_SIZE_def Let_def)
  with h g show ?thesis
    by simp
qed

text \<open>C6: \<^verbatim>\<open>coalesce\<close> on a free block \<open>B\<close> of the free list whose predecessor \<open>P\<close> and
  successor \<open>N\<close> are both free.  It returns the address of \<open>P\<close>; the free list, which
  held \<open>P\<close>, \<open>B\<close> and \<open>N\<close>, has lost \<open>B\<close> and \<open>N\<close> and holds \<open>P\<close> exactly once; the
  header of \<open>P\<close> and the word at the footer position of \<open>N\<close> hold the sum of the three
  sizes with the free flag; the heap walk shows the one merged block in place of the
  three.\<close>

theorem coalesce_both_free:
  assumes lay: "layout s LL E bl fl"
    and bl: "bl = pre @ (P, psz, False) # (B, sz, False) # (N, nsz, False) # post"
  shows "\<exists>s'. coalesce (w64 B) s = Some (w64 P, s')
     \<and> free_list s = Some (map w64 fl)
     \<and> w64 P \<in> set (map w64 fl) \<and> w64 B \<in> set (map w64 fl) \<and> w64 N \<in> set (map w64 fl)
     \<and> free_list s' = Some (map w64 (remove1 B (remove1 N fl)))
     \<and> w64 B \<notin> set (map w64 (remove1 B (remove1 N fl)))
     \<and> w64 N \<notin> set (map w64 (remove1 B (remove1 N fl)))
     \<and> count_list (map w64 (remove1 B (remove1 N fl))) (w64 P) = 1
     \<and> GET s' (HDRP (w64 P)) = Some (PACK (w64 (psz + sz + nsz)) 0)
     \<and> FTRP s (w64 N) = Some (w64 (N + nsz - 16))
     \<and> GET s' (w64 (N + nsz - 16)) = Some (PACK (w64 (psz + sz + nsz)) 0)
     \<and> print_heap s' = Some (heap_lines LL E (pre @ (P, psz + sz + nsz, False) # post))"
proof -
  let ?fl' = "remove1 B (remove1 N fl)"
  let ?bl' = "pre @ (P, psz + sz + nsz, False) # post"
  have nx: "nxt_of E ((N, nsz, False) # post) = (N, nsz, False)"
    by (simp add: nxt_of_def)
  note n = nbhd [OF lay bl nx]
  note p = layout_parts [OF lay]
  from coalesce_both [OF lay bl]
  obtain m' where c: "coalesce (w64 B) s = Some (w64 P, s\<lparr>mem := m'\<rparr>)"
    "layout (s\<lparr>mem := m'\<rparr>) LL E ?bl' ?fl'"
    by blast
  note p' = layout_parts [OF c(2)]
  have mem: "P \<in> set fl" "B \<in> set fl" "N \<in> set fl"
    using p(7) by (simp_all add: bl free_addrs_def)
  have inj: "inj_on w64 (set fl)"
    using free_inj [OF lay] by (rule inj_on_subset) simp
  have sub: "set ?fl' \<subseteq> set fl"
    by (meson notin_set_remove1 subsetI)
  have nB: "B \<notin> set ?fl'" and nN: "N \<notin> set ?fl'"
    using p(6) by (auto dest: notin_set_remove1)
  have wB: "w64 B \<notin> set (map w64 ?fl')"
  proof
    assume "w64 B \<in> set (map w64 ?fl')"
    then obtain y where y: "y \<in> set ?fl'" "w64 B = w64 y"
      by auto
    with sub inj mem have "B = y"
      by (auto dest: inj_onD)
    with y nB show False
      by simp
  qed
  have wN: "w64 N \<notin> set (map w64 ?fl')"
  proof
    assume "w64 N \<in> set (map w64 ?fl')"
    then obtain y where y: "y \<in> set ?fl'" "w64 N = w64 y"
      by auto
    with sub inj mem have "N = y"
      by (auto dest: inj_onD)
    with y nN show False
      by simp
  qed
  have Pin: "P \<in> set ?fl'"
    using p'(7) by (simp add: free_addrs_def)
  have "distinct (map w64 ?fl')"
    using p'(6) inj sub by (simp add: distinct_map inj_on_subset)
  then have cnt: "count_list (map w64 ?fl') (w64 P) = 1"
    using Pin by (intro count_distinct) simp_all
  have x': "(P, psz + sz + nsz, False) \<in> set ?bl'"
    by simp
  note r' = block_reads [OF c(2) x']
  have xN: "(N, nsz, False) \<in> set bl"
    by (simp add: bl)
  note rN = block_reads [OF lay xN]
  have e: "P + (psz + sz + nsz) - 16 = N + nsz - 16"
    using n(1,2) by simp
  show ?thesis
    using c(1) free_list_ok [OF lay] free_list_ok [OF c(2)] mem wB wN cnt r'(5) rN(6)
      r'(7) [unfolded e] print_heap_lines [OF c(2)]
    by (simp add: flag_def)
qed

theorem coalesce_both_free_witness:
  "\<exists>s'. coalesce 0x1040 three_free = Some (0x1020, s')
     \<and> free_list three_free = Some [0x1040, 0x1020, 0x1060]
     \<and> free_list s' = Some [0x1020]
     \<and> GET s' 0x1018 = Some 0x60 \<and> GET s' 0x1070 = Some 0x60"
  using coalesce_both_free [OF three_free_layout,
      of "[(4112, 16, True)]" 4128 32 4160 32 4192 32 "[]"]
  by (simp add: w64_def PACK_def HDRP_def PSUB_def) blast

text \<open>C8: \<^verbatim>\<open>place\<close> on a free block \<open>B\<close> of size \<open>S\<close> of a well-formed heap, for an
  adjusted size \<open>A \<le> S\<close> (a multiple of 16, at least 32).  When \<open>S - A < 32\<close> the whole
  block of size \<open>S\<close> becomes allocated and leaves the free list.  Otherwise the heap
  walk shows an allocated block of size \<open>A\<close> followed by a free block of size \<open>S - A\<close>,
  which takes the place of \<open>B\<close> in the free list; the two sizes sum to \<open>S\<close>.\<close>

theorem place_split_or_whole:
  assumes lay: "layout s LL E bl fl" and na: "no_adj bl" and x: "(B, S, False) \<in> set bl"
    and A: "32 \<le> A" "16 dvd A" "A \<le> S"
  shows "\<exists>pre post s'. bl = pre @ (B, S, False) # post
     \<and> print_heap s = Some (heap_lines LL E bl) \<and> free_list s = Some (map w64 fl)
     \<and> place (w64 B) (w64 A) s = Some s'
     \<and> w64 B \<in> set (map w64 fl) \<and> w64 B \<notin> set (map w64 (remove1 B fl))
     \<and> (if S - A < 32
        then print_heap s' = Some (heap_lines LL E (pre @ (B, S, True) # post))
           \<and> free_list s' = Some (map w64 (remove1 B fl))
        else print_heap s' = Some (heap_lines LL E
               (pre @ (B, A, True) # (B + A, S - A, False) # post))
           \<and> free_list s' = Some (map w64 ((B + A) # remove1 B fl))
           \<and> A + (S - A) = S)"
proof -
  note p = layout_parts [OF lay]
  from free_split [OF p(2) x]
  obtain pre P psz pa post where bl: "bl = pre @ (P, psz, pa) # (B, S, False) # post"
    by blast
  obtain N nsz na' where nx: "nxt_of E post = (N, nsz, na')"
    by (cases "nxt_of E post")
  have na': "na'"
  proof (cases post)
    case Nil
    with nx show ?thesis
      by (simp add: nxt_of_def)
  next
    case (Cons y ys)
    with na have "snd (snd y)"
      by (simp add: bl no_adj_append no_adj_Cons)
    with Cons nx show ?thesis
      by (simp add: nxt_of_def)
  qed
  from place_exact [OF lay bl A nx [unfolded eqTrueI [OF na']]]
  obtain m' where pl: "place (w64 B) (w64 A) s = Some (s\<lparr>mem := m'\<rparr>)"
    "if S - A < 32
     then layout (s\<lparr>mem := m'\<rparr>) LL E (pre @ (P, psz, pa) # (B, S, True) # post) (remove1 B fl)
     else layout (s\<lparr>mem := m'\<rparr>) LL E
            (pre @ (P, psz, pa) # (B, A, True) # (B + A, S - A, False) # post)
            ((B + A) # remove1 B fl)"
    by blast
  have Bin: "B \<in> set fl"
    using p(7) by (simp add: bl free_addrs_def)
  have inj: "inj_on w64 (set fl)"
    using free_inj [OF lay] by (rule inj_on_subset) simp
  have nB: "B \<notin> set (remove1 B fl)"
    using p(6) by simp
  have wB: "w64 B \<notin> set (map w64 (remove1 B fl))"
  proof
    assume "w64 B \<in> set (map w64 (remove1 B fl))"
    then obtain y where y: "y \<in> set (remove1 B fl)" "w64 B = w64 y"
      by auto
    then have "y \<in> set fl"
      using set_remove1_subset [of B fl] by blast
    with y inj Bin have "B = y"
      by (auto dest: inj_onD)
    with y nB show False
      by simp
  qed
  have blp: "bl = (pre @ [(P, psz, pa)]) @ (B, S, False) # post"
    by (simp add: bl)
  show ?thesis
  proof (cases "S - A < 32")
    case True
    with pl(2) have l': "layout (s\<lparr>mem := m'\<rparr>) LL E ((pre @ [(P, psz, pa)]) @ (B, S, True) # post)
        (remove1 B fl)"
      by simp
    from blp print_heap_lines [OF lay] free_list_ok [OF lay] pl(1) Bin wB True
      print_heap_lines [OF l'] free_list_ok [OF l']
    show ?thesis
      by (intro exI [of _ "pre @ [(P, psz, pa)]"] exI [of _ post] exI [of _ "s\<lparr>mem := m'\<rparr>"]) simp
  next
    case False
    with pl(2) have l': "layout (s\<lparr>mem := m'\<rparr>) LL E
        ((pre @ [(P, psz, pa)]) @ (B, A, True) # (B + A, S - A, False) # post)
        ((B + A) # remove1 B fl)"
      by simp
    from blp print_heap_lines [OF lay] free_list_ok [OF lay] pl(1) Bin wB False A(3)
      print_heap_lines [OF l'] free_list_ok [OF l']
    show ?thesis
      by (intro exI [of _ "pre @ [(P, psz, pa)]"] exI [of _ post] exI [of _ "s\<lparr>mem := m'\<rparr>"]) simp
  qed
qed

theorem place_split_or_whole_witness:
  "(\<exists>s'. place 0x1020 0x20 one_free = Some s'
      \<and> print_heap s' = Some [Heap_line 0x1010, Block_line 0x1010 16 1 16 1,
           Block_line 0x1020 32 1 32 1, Block_line 0x1040 4064 0 4064 0, End_line 0x2020]
      \<and> free_list s' = Some [0x1040])
   \<and> (\<exists>s'. place 0x1020 0x1000 one_free = Some s'
      \<and> print_heap s' = Some [Heap_line 0x1010, Block_line 0x1010 16 1 16 1,
           Block_line 0x1020 4096 1 4096 1, End_line 0x2020]
      \<and> free_list s' = Some [])"
proof -
  have na: "no_adj [(4112, 16, True), (4128, 4096, False)]"
    by simp
  have e: "[(4112, 16, True), (4128, 4096, False)] = pre @ (4128, 4096, False) # post
      \<longleftrightarrow> pre = [(4112, 16, True)] \<and> post = []" for pre post :: "block list"
    by (auto simp: append_eq_Cons_conv Cons_eq_append_conv)
  from place_split_or_whole [OF one_free_layout na, of 4128 4096 32]
  have "\<exists>s'. place 0x1020 0x20 one_free = Some s'
      \<and> print_heap s' = Some [Heap_line 0x1010, Block_line 0x1010 16 1 16 1,
           Block_line 0x1020 32 1 32 1, Block_line 0x1040 4064 0 4064 0, End_line 0x2020]
      \<and> free_list s' = Some [0x1040]"
    by (simp add: e heap_lines_def block_line_def w64_def flag_def)
  moreover from place_split_or_whole [OF one_free_layout na, of 4128 4096 4096]
  have "\<exists>s'. place 0x1020 0x1000 one_free = Some s'
      \<and> print_heap s' = Some [Heap_line 0x1010, Block_line 0x1010 16 1 16 1,
           Block_line 0x1020 4096 1 4096 1, End_line 0x2020]
      \<and> free_list s' = Some []"
    by (simp add: e heap_lines_def block_line_def w64_def flag_def)
  ultimately show ?thesis
    by simp
qed

lemma load64_low: "ucast (load64 m p) = m p"
  unfolding load64_def by (rule bit_word_eqI) (auto simp: bit_simps)

text \<open>The heap after \<^verbatim>\<open>mm_init\<close> and \<^verbatim>\<open>mm_malloc(16)\<close> on an arena at \<open>0x1000\<close>: an
  allocated block of 32 bytes at \<open>0x1020\<close>, whose payload holds the bytes \<open>0x88\<close>,
  \<open>0x77\<close>, ..., and a free block of 4064 bytes at \<open>0x1040\<close>.\<close>

definition one_alloc :: state where
  "one_alloc = \<lparr>mem = poke
      [(0x1000, 0x1040), (0x1008, 0x11), (0x1010, 0x11),
       (0x1018, 0x21), (0x1020, 0x1122334455667788), (0x1028, 0x99AABBCCDDEEFF11),
       (0x1030, 0x21),
       (0x1038, 0xFE0), (0x1040, 0), (0x1048, 0), (0x2010, 0xFE0), (0x2018, 1)],
     mem_start_brk = 0x1000, mem_brk = 0x2020, mem_max_addr = 0x4000, heap_start = 0x1010\<rparr>"

lemma one_alloc_layout:
  "layout one_alloc 4096 8224 [(4112, 16, True), (4128, 32, True), (4160, 4064, False)] [4160]"
  by (simp add: one_alloc_def lay_ev)

lemma one_alloc_malloc:
  "\<exists>s1. mm_malloc 24 one_alloc = Some (0x1040, s1) \<and> load64 (mem s1) 0x1030 = 0x21
     \<and> load64 (mem one_alloc) 0x1050 = 0 \<and> load64 (mem one_alloc) 0x1020 = 0x1122334455667788
     \<and> load64 (mem one_alloc) 0x1028 = 0x99AABBCCDDEEFF11"
  by (simp add: ev find_fit_loop.simps one_alloc_def poke_def)

section \<open>Resizing a block\<close>

text \<open>The memory system of the examples before \<^verbatim>\<open>mm_init\<close>: an empty arena at \<open>0x1000\<close>
  that can grow up to \<open>0x4000\<close>, all bytes zero.\<close>

definition arena0 :: state where
  "arena0 = \<lparr>mem = (\<lambda>_. 0), mem_start_brk = 0x1000, mem_brk = 0x1000, mem_max_addr = 0x4000,
     heap_start = 0\<rparr>"

lemmas ev_walk = print_heap_def print_block_def print_heap_loop.simps free_list_def
  list_walk.simps check_heap_def check_block_def check_heap_loop.simps find_fit_loop.simps
  copy_loop.simps

text \<open>C1: when the allocation inside \<^verbatim>\<open>mm_realloc\<close> fails, the call should report the
  failure and leave the old block as it is.  The code does not test the result of
  \<^verbatim>\<open>mm_malloc\<close>: after \<^verbatim>\<open>mm_init\<close> and \<^verbatim>\<open>p = mm_malloc(16)\<close> on an arena that cannot
  grow beyond \<open>0x4000\<close>, the request \<^verbatim>\<open>mm_malloc(0x5000)\<close> returns \<^verbatim>\<open>NULL\<close> and leaves the
  heap unchanged, but \<^verbatim>\<open>mm_realloc(p, 0x5000)\<close> does not return: its copy loop writes
  through the \<^verbatim>\<open>NULL\<close> pointer, outside the arena.\<close>

theorem realloc_failure_faults:
  "\<exists>s1 p s2. mm_init arena0 = Some (0, s1) \<and> mm_malloc 16 s1 = Some (p, s2) \<and> p = 0x1020
     \<and> mm_malloc 0x5000 s2 = Some (NULL, s2) \<and> mm_realloc p 0x5000 s2 = None"
  by (simp add: ev ev_walk arena0_def)

text \<open>\<^verbatim>\<open>mm_realloc\<close> when the allocation inside succeeds.\<close>

lemma mm_realloc_succ:
  assumes lay: "layout s LL E bl fl" and mx: "unat (mem_max_addr s) \<le> 2 ^ 63"
    and st: "0 < unat (mem_start_brk s)"
    and x: "(B, sz, True) \<in> set bl" and nx: "B \<noteq> LL + 16"
    and n: "0 < unat n" "unat n \<le> 2 ^ 64 - 32"
    and ok: "mm_malloc n s = Some (q, s1)" "q \<noteq> NULL"
  shows "GET_SIZE s (HDRP (w64 B)) = Some (w64 sz)
     \<and> mm_realloc (w64 B) n s = do {
          s2 \<leftarrow> copy_loop q (w64 B) (w64 (min (unat n) sz)) 0 s1;
          s3 \<leftarrow> mm_free (w64 B) s2;
          Some (q, s3) }
     \<and> (\<exists>s' E' bl' fl' Q asz. mm_realloc (w64 B) n s = Some (q, s') \<and> q = w64 Q \<and> q \<noteq> w64 B
         \<and> layout s' LL E' bl' fl' \<and> print_heap s' = Some (heap_lines LL E' bl')
         \<and> set (allocd bl') = insert (Q, asz, True) (set (allocd bl) - {(B, sz, True)})
         \<and> (B, sz, True) \<notin> set (allocd bl')
         \<and> unat n + 16 \<le> asz
         \<and> (\<forall>j. j < min (unat n) (sz - 16) \<longrightarrow> mem s' (q + w64 j) = mem s (w64 B + w64 j))
         \<and> (\<forall>j. j < min (unat n) sz \<longrightarrow> mem s' (q + w64 j) = mem s1 (w64 B + w64 j))
         \<and> kept (removeAll (B, sz, True) (allocd bl)) (mem s) (mem s'))"
proof -
  note r = block_reads [OF lay x]
  note p = layout_parts [OF lay]
  from mm_realloc_ok [OF lay mx st x nx n] ok
  obtain Q asz E' bl' fl' m' where m: "q = w64 Q"
    "mm_realloc (w64 B) n s = do {
        s2 \<leftarrow> copy_loop q (w64 B) (w64 (min (unat n) sz)) 0 s1;
        s3 \<leftarrow> mm_free (w64 B) s2;
        Some (q, s3) }"
    "mm_realloc (w64 B) n s = Some (w64 Q, s\<lparr>mem_brk := w64 E', mem := m'\<rparr>)"
    "layout (s\<lparr>mem_brk := w64 E', mem := m'\<rparr>) LL E' bl' fl'"
    "set (allocd bl') = insert (Q, asz, True) (set (allocd bl) - {(B, sz, True)})"
    "Q \<notin> fst ` set (allocd bl)" "unat n + 16 \<le> asz"
    "kept (removeAll (B, sz, True) (allocd bl)) (mem s) m'"
    "\<forall>j. j < min (unat n) (sz - 16) \<longrightarrow> m' (w64 (Q + j)) = mem s (w64 (B + j))"
    "\<forall>j. j < min (unat n) sz \<longrightarrow> m' (w64 (Q + j)) = mem s1 (w64 (B + j))"
    by auto
  let ?s' = "s\<lparr>mem_brk := w64 E', mem := m'\<rparr>"
  note p' = layout_parts [OF m(4)]
  have xa: "(B, sz, True) \<in> set (allocd bl)"
    using x by (simp add: allocd_set)
  have QB: "Q \<noteq> B"
    using m(6) xa by force
  have "(Q, asz, True) \<in> set bl'"
    using m(5) allocd_sub [of bl'] by auto
  then have Q64: "Q < 2 ^ 64"
    by (rule block_nonnull [OF p'(2)])
  have B64: "B < 2 ^ 64"
    by (rule block_nonnull [OF p(2) x])
  have ne: "q \<noteq> w64 B"
    using QB Q64 B64 by (simp add: m(1) w64_eq_iff)
  have nB: "(B, sz, True) \<notin> set (allocd bl')"
    using m(5) QB by auto
  have c1: "\<forall>j. j < min (unat n) (sz - 16) \<longrightarrow> mem ?s' (q + w64 j) = mem s (w64 B + w64 j)"
    using m(9) by (simp add: m(1) w64_add)
  have c2: "\<forall>j. j < min (unat n) sz \<longrightarrow> mem ?s' (q + w64 j) = mem s1 (w64 B + w64 j)"
    using m(10) by (simp add: m(1) w64_add)
  have k: "kept (removeAll (B, sz, True) (allocd bl)) (mem s) (mem ?s')"
    using m(8) by simp
  have "\<exists>s' E' bl' fl' Q asz. mm_realloc (w64 B) n s = Some (q, s') \<and> q = w64 Q \<and> q \<noteq> w64 B
         \<and> layout s' LL E' bl' fl' \<and> print_heap s' = Some (heap_lines LL E' bl')
         \<and> set (allocd bl') = insert (Q, asz, True) (set (allocd bl) - {(B, sz, True)})
         \<and> (B, sz, True) \<notin> set (allocd bl')
         \<and> unat n + 16 \<le> asz
         \<and> (\<forall>j. j < min (unat n) (sz - 16) \<longrightarrow> mem s' (q + w64 j) = mem s (w64 B + w64 j))
         \<and> (\<forall>j. j < min (unat n) sz \<longrightarrow> mem s' (q + w64 j) = mem s1 (w64 B + w64 j))
         \<and> kept (removeAll (B, sz, True) (allocd bl)) (mem s) (mem s')"
    using m(3) [folded m(1)] m(1) ne m(4) print_heap_lines [OF m(4)] m(5) nB m(7) c1 c2 k
    by blast
  with r(1) m(2) show ?thesis
    by blast
qed

text \<open>C2: \<^verbatim>\<open>mm_realloc\<close> on the payload pointer of a live block \<open>B\<close> of a well-formed
  heap, for a request \<open>0 < n \<le> 2 ^ 64 - 32\<close>, when the allocation inside succeeds with
  the pointer \<open>q\<close>.  The copy loop runs for \<open>min n sz\<close> bytes, where \<open>sz\<close> is the size in
  the header of \<open>B\<close>, which is the payload capacity of \<open>B\<close> plus 16.  The call returns
  \<open>q\<close>, which is not the old pointer; in the heap it leaves, the block of \<open>q\<close> is
  allocated with room for \<open>n\<close> bytes and \<open>B\<close> is no longer allocated; the first
  \<open>min n (sz - 16)\<close> bytes of the new payload are those of the old payload; the payloads
  of the other allocated blocks are as they were.\<close>

theorem mm_realloc_copies:
  assumes lay: "layout s LL E bl fl" and mx: "unat (mem_max_addr s) \<le> 2 ^ 63"
    and st: "0 < unat (mem_start_brk s)"
    and x: "(B, sz, True) \<in> set bl" and nx: "B \<noteq> LL + 16"
    and n: "0 < unat n" "unat n \<le> 2 ^ 64 - 32"
    and ok: "mm_malloc n s = Some (q, s1)" "q \<noteq> NULL"
  shows "GET_SIZE s (HDRP (w64 B)) = Some (w64 sz)
     \<and> mm_realloc (w64 B) n s = do {
          s2 \<leftarrow> copy_loop q (w64 B) (w64 (min (unat n) sz)) 0 s1;
          s3 \<leftarrow> mm_free (w64 B) s2;
          Some (q, s3) }
     \<and> (\<exists>s' E' bl' fl' Q asz. mm_realloc (w64 B) n s = Some (q, s') \<and> q = w64 Q \<and> q \<noteq> w64 B
         \<and> layout s' LL E' bl' fl' \<and> print_heap s' = Some (heap_lines LL E' bl')
         \<and> set (allocd bl') = insert (Q, asz, True) (set (allocd bl) - {(B, sz, True)})
         \<and> (B, sz, True) \<notin> set (allocd bl')
         \<and> unat n + 16 \<le> asz
         \<and> (\<forall>j. j < min (unat n) (sz - 16) \<longrightarrow> mem s' (q + w64 j) = mem s (w64 B + w64 j))
         \<and> (\<forall>j. j < min (unat n) sz \<longrightarrow> mem s' (q + w64 j) = mem s1 (w64 B + w64 j))
         \<and> kept (removeAll (B, sz, True) (allocd bl)) (mem s) (mem s'))"
  using assms by (rule mm_realloc_succ)

theorem mm_realloc_copies_witness:
  "\<exists>s'. mm_realloc 0x1020 24 one_alloc = Some (0x1040, s')
     \<and> mem one_alloc 0x1020 = 0x88 \<and> mem s' 0x1040 = 0x88
     \<and> mem one_alloc 0x1028 = 0x11 \<and> mem s' 0x1048 = 0x11"
proof -
  from one_alloc_malloc obtain s1 where s1: "mm_malloc 24 one_alloc = Some (0x1040, s1)"
    "load64 (mem one_alloc) 0x1020 = 0x1122334455667788"
    "load64 (mem one_alloc) 0x1028 = 0x99AABBCCDDEEFF11"
    by blast
  have h: "unat (mem_max_addr one_alloc) \<le> 2 ^ 63" "0 < unat (mem_start_brk one_alloc)"
    "(4128, 32, True) \<in> set [(4112, 16, True), (4128, 32, True), (4160, 4064, False)]"
    "(4128 :: nat) \<noteq> 4096 + 16" "0 < unat (24 :: 64 word)" "unat (24 :: 64 word) \<le> 2 ^ 64 - 32"
    "(0x1040 :: 64 word) \<noteq> NULL"
    by (simp_all add: one_alloc_def)
  from mm_realloc_copies [OF one_alloc_layout h(1-6) s1(1) h(7)]
  obtain s' where s': "mm_realloc (w64 4128) 24 one_alloc = Some (0x1040, s')"
    "\<forall>j. j < min (unat (24 :: 64 word)) (32 - 16) \<longrightarrow>
       mem s' (0x1040 + w64 j) = mem one_alloc (w64 4128 + w64 j)"
    by blast
  have a: "mem one_alloc 0x1020 = 0x88"
    using load64_low [of "mem one_alloc" "0x1020"] by (simp add: s1(2))
  have b: "mem one_alloc 0x1028 = 0x11"
    using load64_low [of "mem one_alloc" "0x1028"] by (simp add: s1(3))
  from s'(2) [rule_format, of 0] s'(2) [rule_format, of 8] a b
  have "mem s' 0x1040 = 0x88" "mem s' 0x1048 = 0x11"
    by (simp_all add: w64_def)
  with s'(1) a b show ?thesis
    by (simp add: w64_def)
qed

text \<open>The claim C2 as the spec states it, with a copy of
  \<open>min(oldPayloadSize, newSize)\<close> bytes, fails on the code.  The block at \<open>0x1020\<close> of
  the heap \<open>one_alloc\<close> has size 32, a payload of 16 bytes and its footer at \<open>0x1030\<close>.
  After \<^verbatim>\<open>mm_realloc(0x1020, 24)\<close> byte 16 of the new payload, which was \<open>0\<close>, is
  \<open>0x21\<close>, the first byte of that footer: the copy ran beyond the 16 bytes of the old
  payload.\<close>

theorem mm_realloc_copies_footer:
  "\<exists>q s1 s'. mm_malloc 24 one_alloc = Some (q, s1)
     \<and> mm_realloc 0x1020 24 one_alloc = Some (q, s')
     \<and> GET_SIZE one_alloc (HDRP 0x1020) = Some 32 \<and> FTRP one_alloc 0x1020 = Some 0x1030
     \<and> mem one_alloc (q + 16) = 0 \<and> mem s1 0x1030 = 0x21 \<and> mem s' (q + 16) = 0x21"
proof -
  from one_alloc_malloc obtain s1 where s1: "mm_malloc 24 one_alloc = Some (0x1040, s1)"
    "load64 (mem s1) 0x1030 = 0x21" "load64 (mem one_alloc) 0x1050 = 0"
    by blast
  have h: "unat (mem_max_addr one_alloc) \<le> 2 ^ 63" "0 < unat (mem_start_brk one_alloc)"
    "(4128, 32, True) \<in> set [(4112, 16, True), (4128, 32, True), (4160, 4064, False)]"
    "(4128 :: nat) \<noteq> 4096 + 16" "0 < unat (24 :: 64 word)" "unat (24 :: 64 word) \<le> 2 ^ 64 - 32"
    "(0x1040 :: 64 word) \<noteq> NULL"
    by (simp_all add: one_alloc_def)
  from mm_realloc_succ [OF one_alloc_layout h(1-6) s1(1) h(7)]
  obtain s' where s': "mm_realloc (w64 4128) 24 one_alloc = Some (0x1040, s')"
    "\<forall>j. j < min (unat (24 :: 64 word)) 32 \<longrightarrow>
       mem s' (0x1040 + w64 j) = mem s1 (w64 4128 + w64 j)"
    by blast
  have c: "mem s' 0x1050 = mem s1 0x1030"
    using s'(2) [rule_format, of 16] by (simp add: w64_def)
  have a: "mem s1 0x1030 = 0x21"
    using load64_low [of "mem s1" "0x1030"] by (simp add: s1(2))
  have z: "mem one_alloc 0x1050 = 0"
    using load64_low [of "mem one_alloc" "0x1050"] by (simp add: s1(3))
  note r = block_reads [OF one_alloc_layout h(3)]
  have g: "GET_SIZE one_alloc (HDRP 0x1020) = Some 32" "FTRP one_alloc 0x1020 = Some 0x1030"
    using r(1,6) by (simp_all add: w64_def)
  show ?thesis
    using s1(1) s'(1) g z a c by (simp add: w64_def)
qed

section \<open>Requests beyond \<open>2 ^ 64 - 32\<close> bytes\<close>

text \<open>C4: after every sequence of operations the free list should hold exactly the
  free blocks of the heap walk.  With the unguarded size adjustment of \<^verbatim>\<open>mm_malloc\<close> this
  fails after \<^verbatim>\<open>mm_init\<close> and \<^verbatim>\<open>mm_malloc(2 ^ 64 - 31)\<close>, whose adjusted size is \<open>0\<close>: the
  call returns the block at \<open>0x1020\<close>, which follows the prologue in the heap walk; its
  header holds the size \<open>0x2000\<close> and the free flag, and the free list is empty.\<close>

theorem overflow_breaks_list:
  "\<exists>s1 p s2. mm_init arena0 = Some (0, s1) \<and> mm_malloc 0xFFFFFFFFFFFFFFE1 s1 = Some (p, s2)
     \<and> p = 0x1020 \<and> free_list s2 = Some [] \<and> NEXT_BLKP s2 (heap_start s2) = Some p
     \<and> GET_ALLOC s2 (HDRP p) = Some 0 \<and> GET_SIZE s2 (HDRP p) = Some 0x2000"
  by (simp add: ev ev_walk arena0_def)

text \<open>C7: after every sequence of operations the header and the footer of every block
  should agree.  After \<^verbatim>\<open>mm_init\<close> and \<^verbatim>\<open>mm_malloc(2 ^ 64 - 31)\<close> the header of the
  prologue holds \<open>0x11\<close> and its footer holds \<open>1\<close>, and \<^verbatim>\<open>check_heap\<close> answers
  \<^verbatim>\<open>false\<close>: \<^verbatim>\<open>place\<close>, called with the adjusted size \<open>0\<close>, wrote the footer of a block of
  size \<open>0\<close> on top of it.\<close>

theorem overflow_breaks_tags:
  "\<exists>s1 p s2. mm_init arena0 = Some (0, s1) \<and> mm_malloc 0xFFFFFFFFFFFFFFE1 s1 = Some (p, s2)
     \<and> p \<noteq> NULL \<and> check_heap 0 s2 = Some False
     \<and> GET s2 (HDRP (heap_start s2)) = Some 0x11
     \<and> (\<exists>fp. FTRP s2 (heap_start s2) = Some fp \<and> GET s2 fp = Some 1)"
  by (simp add: ev ev_walk arena0_def)

text \<open>C10: the payloads of two live blocks should never overlap.  After \<^verbatim>\<open>mm_init\<close>,
  \<^verbatim>\<open>y = mm_malloc(16)\<close>, \<^verbatim>\<open>z = mm_malloc(16)\<close>, \<^verbatim>\<open>mm_free(y)\<close> and
  \<^verbatim>\<open>w = mm_malloc(2 ^ 64 - 31)\<close> the blocks \<open>w = 0x1020\<close> and \<open>z = 0x1040\<close> are both
  live, and the header of \<open>w\<close> gives it 64 bytes: the block of \<open>w\<close> runs over the header
  and the payload of \<open>z\<close>, 32 bytes further.\<close>

theorem overflow_breaks_disjointness:
  "\<exists>s1 y s2 z s3 s4 w s5. mm_init arena0 = Some (0, s1) \<and> mm_malloc 16 s1 = Some (y, s2)
     \<and> mm_malloc 16 s2 = Some (z, s3) \<and> mm_free y s3 = Some s4
     \<and> mm_malloc 0xFFFFFFFFFFFFFFE1 s4 = Some (w, s5)
     \<and> w = 0x1020 \<and> z = 0x1040 \<and> GET_SIZE s5 (HDRP w) = Some 64
     \<and> GET_SIZE s5 (HDRP z) = Some 32"
  by (simp add: ev ev_walk arena0_def)

text \<open>C5: after \<^verbatim>\<open>mm_free\<close> returns no two adjacent blocks should both be free.  After
  \<^verbatim>\<open>mm_init\<close>, \<^verbatim>\<open>x = mm_malloc(16)\<close>, \<^verbatim>\<open>y = mm_malloc(16)\<close>, \<^verbatim>\<open>z = mm_malloc(100)\<close>,
  \<^verbatim>\<open>mm_free(y)\<close>, \<^verbatim>\<open>w = mm_malloc(2 ^ 64 - 31)\<close> and \<^verbatim>\<open>mm_free(x)\<close> the heap walk shows the
  block at \<open>0x1020\<close>, of 32 bytes, and the next block at \<open>0x1040\<close>, of 64 bytes, both
  with the free flag in their headers.\<close>

theorem overflow_breaks_coalescing:
  "\<exists>s1 x s2 y s3 z s4 s5 w s6 s7. mm_init arena0 = Some (0, s1)
     \<and> mm_malloc 16 s1 = Some (x, s2) \<and> mm_malloc 16 s2 = Some (y, s3)
     \<and> mm_malloc 100 s3 = Some (z, s4) \<and> mm_free y s4 = Some s5
     \<and> mm_malloc 0xFFFFFFFFFFFFFFE1 s5 = Some (w, s6) \<and> mm_free x s6 = Some s7
     \<and> print_heap s7 = Some [Heap_line 0x1010, Block_line 0x1010 16 1 16 1,
          Block_line 0x1020 32 0 0 0, Block_line 0x1040 64 0 32 0, End_line 0x1080]"
  by (simp add: ev ev_walk arena0_def)

end
